(* ===== verification/Prelude.thy ===== *)
theory Prelude
  imports Main "HOL-Library.Word"
begin

text \<open>
  Shared vocabulary of the development: the machine integer types of
  \<open>lib/minstd/types.hpp\<close>, the exceptional outcomes a kernel call can have, sequencing of
  calls that may have such an outcome, and the facts on bytes, lists and searches that
  several components use.
\<close>

unbundle bit_operations_syntax

section \<open>Types\<close>

type_synonym u8 = "8 word"
type_synonym u16 = "16 word"
type_synonym u32 = "32 word"

text \<open>
  How a kernel call can end without returning to its caller: the running thread blocks on a
  lock that is held, the processor halts, an array is accessed outside its bounds, a null
  pointer is dereferenced, or a loop never ends. A call that returns is \<open>Inr\<close> of its result
  and the new state, also when the result is one of the error codes of the source.
\<close>

datatype exn = Blocked | Halted | OutOfBounds | NullDeref | Diverges

type_synonym 'a result = "exn + 'a"

definition rbind :: "'a result \<Rightarrow> ('a \<Rightarrow> 'b result) \<Rightarrow> 'b result" where
  "rbind r f = (case r of Inl e \<Rightarrow> Inl e | Inr x \<Rightarrow> f x)"

named_theorems bit_laws \<open>bytes as sets of bits\<close>
named_theorems step_simps \<open>equations that run one operation of a component\<close>
named_theorems run \<open>equations that evaluate the model on concrete inputs\<close>

section \<open>Sequencing\<close>

lemma rbind_Inl [simp]: "rbind (Inl e) f = Inl e"
  by (simp add: rbind_def)

lemma rbind_Inr [simp]: "rbind (Inr x) f = f x"
  by (simp add: rbind_def)

text \<open>To evaluate a run, the rest of it is left alone until its first call is evaluated.\<close>

lemma rbind_weak_cong: "r = r' \<Longrightarrow> rbind r f = rbind r' f"
  by simp

declare Let_def [run]

lemma rbind_eq_Inr: "rbind r f = Inr y \<longleftrightarrow> (\<exists>x. r = Inr x \<and> f x = Inr y)"
  by (cases r) auto

lemma rbind_split:
  "P (rbind r f) \<longleftrightarrow> (\<forall>e. r = Inl e \<longrightarrow> P (Inl e)) \<and> (\<forall>x. r = Inr x \<longrightarrow> P (f x))"
  by (cases r) auto

lemma rbind_split_asm:
  "P (rbind r f) \<longleftrightarrow> \<not> ((\<exists>e. r = Inl e \<and> \<not> P (Inl e)) \<or> (\<exists>x. r = Inr x \<and> \<not> P (f x)))"
  by (cases r) auto

lemmas rbind_splits = rbind_split rbind_split_asm

section \<open>Bytes\<close>

lemma and_bit_mask [bit_laws]: "(b AND 2 ^ k = 0) \<longleftrightarrow> \<not> bit (b :: u8) k"
  by (rule and_exp_eq_0_iff_not_bit)

lemma bit_or_bit_mask [bit_laws]:
  "k < 8 \<Longrightarrow> bit ((b :: u8) OR 2 ^ k) j \<longleftrightarrow> j = k \<or> bit b j"
  using bit_set_bit_iff [of k b j] by (auto simp: set_bit_eq_or)

lemma bit_and_not_bit_mask [bit_laws]:
  "bit ((b :: u8) AND NOT (2 ^ k)) j \<longleftrightarrow> j \<noteq> k \<and> bit b j"
  using bit_unset_bit_iff [of k b j] by (auto simp: unset_bit_eq_and_not)

text \<open>An index of a bitmap is the pair of its byte and its bit within the byte.\<close>

lemma div_mod_8_eq_iff: "(i::nat) div 8 = j div 8 \<and> i mod 8 = j mod 8 \<longleftrightarrow> i = j"
  by (metis div_mult_mod_eq)

section \<open>Words\<close>

lemma unat_u32_less: "unat (w :: u32) < 4294967296"
  using unsigned_less [of w] by simp

lemma unat_minus_1: "unat (- 1 :: u32) = 4294967295"
  by (simp add: unsigned_minus_1_eq_mask mask_eq_exp_minus_1)

lemma nat_sint_u32:
  assumes "unat n < 2 ^ 31"
  shows "nat (sint (n :: u32)) = unat n"
proof -
  have "int (unat n) < int (2 ^ 31)" using assms by (simp only: of_nat_less_iff)
  then have "signed_take_bit 31 (uint n) = uint n"
    by (intro signed_take_bit_int_eq_self) (simp_all add: order_trans [of _ 0])
  then show ?thesis by (simp add: sint_uint)
qed

lemma unat_eqI: "w = of_nat n \<Longrightarrow> n < 2 ^ 32 \<Longrightarrow> unat (w :: u32) = n"
  by (simp add: unat_of_nat take_bit_nat_eq_self)

section \<open>Linear search\<close>

text \<open>
  The loop \<open>for (i = 0; i < n; i++) if (p(i)) return i;\<close>, which every fixed-size allocator
  of the kernel contains, started at index \<open>i\<close> with \<open>k\<close> indices left.
\<close>

fun scan :: "(nat \<Rightarrow> bool) \<Rightarrow> nat \<Rightarrow> nat \<Rightarrow> nat option" where
  "scan p i 0 = None"
| "scan p i (Suc k) = (if p i then Some i else scan p (Suc i) k)"

lemma scan_Some:
  "scan p i k = Some j \<Longrightarrow> i \<le> j \<and> j < i + k \<and> p j \<and> (\<forall>m \<in> {i..<j}. \<not> p m)"
proof (induction k arbitrary: i)
  case (Suc k)
  show ?case
  proof (cases "p i")
    case True
    with Suc.prems show ?thesis by simp
  next
    case False
    with Suc.prems have "scan p (Suc i) k = Some j" by simp
    note IH = Suc.IH [OF this]
    then have "{i..<j} = insert i {Suc i..<j}" by auto
    with IH False show ?thesis by auto
  qed
qed simp

lemma scan_None: "scan p i k = None \<longleftrightarrow> (\<forall>m \<in> {i..<i + k}. \<not> p m)"
proof (induction k arbitrary: i)
  case (Suc k)
  have "{i..<i + Suc k} = insert i {Suc i..<Suc i + k}" by auto
  then show ?case by (simp add: Suc.IH)
qed simp

lemma scan_cong: "(\<And>m. i \<le> m \<Longrightarrow> m < i + k \<Longrightarrow> p m = q m) \<Longrightarrow> scan p i k = scan q i k"
  by (induction k arbitrary: i) auto

section \<open>Little-endian words\<close>

definition le32 :: "u8 \<Rightarrow> u8 \<Rightarrow> u8 \<Rightarrow> u8 \<Rightarrow> u32" where
  "le32 a b c d = of_nat (unat a + 256 * unat b + 65536 * unat c + 16777216 * unat d)"

definition le32_bytes :: "u32 \<Rightarrow> u8 list" where
  "le32_bytes w = [of_nat (unat w), of_nat (unat w div 256), of_nat (unat w div 65536),
     of_nat (unat w div 16777216)]"

lemma unat_u8_less: "unat (b :: u8) < 256"
  using unsigned_less [of b] by simp

lemma unat_le32: "unat (le32 a b c d) = unat a + 256 * unat b + 65536 * unat c + 16777216 * unat d"
  using unat_u8_less [of a] unat_u8_less [of b] unat_u8_less [of c] unat_u8_less [of d]
  by (intro unat_eqI) (simp_all add: le32_def)

lemma le32_bytes_length [simp]: "length (le32_bytes w) = 4"
  by (simp add: le32_bytes_def)

lemma unat_of_nat_u8: "unat (of_nat n :: u8) = n mod 256"
  by (simp add: unat_of_nat take_bit_eq_mod)

lemma unat_ucast_u8: "unat (ucast (w :: u32) :: u8) = unat w mod 256"
  by (simp add: unsigned_ucast_eq take_bit_eq_mod)

lemma base_256: "n < 4294967296 \<Longrightarrow>
    n mod 256 + 256 * (n div 256 mod 256) + 65536 * (n div 65536 mod 256) +
      16777216 * (n div 16777216 mod 256) = (n :: nat)"
proof -
  assume n: "n < 4294967296"
  define a where "a = n div 256"
  define b where "b = a div 256"
  define c where "c = b div 256"
  have "c < 256" using n by (simp add: a_def b_def c_def div_mult2_eq [symmetric] less_mult_imp_div_less)
  moreover have "n = 256 * a + n mod 256" "a = 256 * b + a mod 256" "b = 256 * c + b mod 256"
    by (simp_all add: a_def b_def c_def)
  moreover have "n div 65536 = b" "n div 16777216 = c"
    by (simp_all add: a_def b_def c_def div_mult2_eq [symmetric])
  ultimately show ?thesis unfolding a_def [symmetric] by simp
qed

lemma le32_le32_bytes: "le32_bytes w = [a, b, c, d] \<Longrightarrow> le32 a b c d = w"
  using base_256 [of "unat w"] unat_u32_less [of w] unat_le32 [of a b c d]
  by (auto simp: le32_bytes_def word_unat_eq_iff unat_of_nat_u8 unat_ucast_u8)

end
