(* ===== verification/Minstd.thy ===== *)
theory Minstd
  imports Prelude
begin

text \<open>
  The freestanding library \<open>lib/minstd\<close>: the bitmap templates and \<open>divide_roundup\<close> of
  \<open>utils.hpp\<close> and the buffer and string routines of \<open>string.cpp\<close>. A byte buffer is a list of
  bytes; reading or writing past its end is \<open>OutOfBounds\<close>. The unsigned index of a bitmap
  template is a natural number.
\<close>

section \<open>Bitmaps\<close>

definition bitmap_get :: "u8 list \<Rightarrow> nat \<Rightarrow> bool result" where
  "bitmap_get bitmap index =
     (let byte = index div 8; bit = index mod 8
      in if byte < length bitmap
         then Inr ((bitmap ! byte AND push_bit bit 1) \<noteq> 0)
         else Inl OutOfBounds)"

definition bitmap_mark :: "u8 list \<Rightarrow> nat \<Rightarrow> u8 list result" where
  "bitmap_mark bitmap index =
     (let byte = index div 8; bit = index mod 8
      in if byte < length bitmap
         then Inr (bitmap[byte := bitmap ! byte OR push_bit bit 1])
         else Inl OutOfBounds)"

definition bitmap_unmark :: "u8 list \<Rightarrow> nat \<Rightarrow> u8 list result" where
  "bitmap_unmark bitmap index =
     (let byte = index div 8; bit = index mod 8
      in if byte < length bitmap
         then Inr (bitmap[byte := bitmap ! byte AND NOT (push_bit bit 1)])
         else Inl OutOfBounds)"

definition divide_roundup :: "u32 \<Rightarrow> u32 \<Rightarrow> u32" where
  "divide_roundup a b = (a + b - 1) div b"

section \<open>Buffers and strings\<close>

fun buffer_copy_from :: "u8 list \<Rightarrow> u8 list \<Rightarrow> nat \<Rightarrow> nat \<Rightarrow> u8 list result" where
  "buffer_copy_from source destin i 0 = Inr destin"
| "buffer_copy_from source destin i (Suc k) =
     (if i < length source \<and> i < length destin
      then buffer_copy_from source (destin[i := source ! i]) (Suc i) k
      else Inl OutOfBounds)"

definition buffer_copy :: "u8 list \<Rightarrow> u8 list \<Rightarrow> int \<Rightarrow> u8 list result" where
  "buffer_copy source destin n = buffer_copy_from source destin 0 (nat n)"

fun buffer_zero_from :: "u8 list \<Rightarrow> nat \<Rightarrow> nat \<Rightarrow> u8 list result" where
  "buffer_zero_from a i 0 = Inr a"
| "buffer_zero_from a i (Suc k) =
     (if i < length a then buffer_zero_from (a[i := 0]) (Suc i) k else Inl OutOfBounds)"

definition buffer_zero :: "u8 list \<Rightarrow> int \<Rightarrow> u8 list result" where
  "buffer_zero a n = buffer_zero_from a 0 (nat n)"

fun strcmp :: "u8 list \<Rightarrow> u8 list \<Rightarrow> int result" where
  "strcmp (c # s) (d # t) =
     (if c \<noteq> 0 \<and> c = d then strcmp s t else Inr (uint c - uint d))"
| "strcmp _ _ = Inl OutOfBounds"

section \<open>Bitmaps as sets\<close>

definition bits :: "u8 list \<Rightarrow> nat set" where
  "bits bitmap = {i. i < 8 * length bitmap \<and> bit (bitmap ! (i div 8)) (i mod 8)}"

lemma byte_index: "(i::nat) div 8 < n \<longleftrightarrow> i < 8 * n"
  by (simp add: less_mult_imp_div_less div_less_iff_less_mult mult.commute)

lemma bitmap_get_bits [step_simps]:
  "i < 8 * length bm \<Longrightarrow> bitmap_get bm i = Inr (i \<in> bits bm)"
  by (simp add: bitmap_get_def bits_def byte_index Let_def bit_laws)

lemma bits_update:
  assumes "i < 8 * length bm"
  shows "j \<in> bits (bm[i div 8 := b]) \<longleftrightarrow>
    (if j div 8 = i div 8 then j < 8 * length bm \<and> bit b (j mod 8) else j \<in> bits bm)"
  using assms by (auto simp: bits_def byte_index nth_list_update)

lemma bitmap_mark_bits [step_simps]:
  assumes "i < 8 * length bm"
  shows "\<exists>bm'. bitmap_mark bm i = Inr bm' \<and> bits bm' = insert i (bits bm) \<and> length bm' = length bm"
proof -
  let ?b = "bm[i div 8 := bm ! (i div 8) OR push_bit (i mod 8) 1]"
  have "j \<in> bits ?b \<longleftrightarrow> j = i \<or> j \<in> bits bm" for j
    using assms div_mod_8_eq_iff [of j i]
    by (auto simp: bits_update bit_laws) (auto simp: bits_def)
  then have "bits ?b = insert i (bits bm)" by blast
  moreover have "bitmap_mark bm i = Inr ?b"
    using assms by (simp add: bitmap_mark_def byte_index Let_def)
  ultimately show ?thesis by simp
qed

lemma bitmap_unmark_bits [step_simps]:
  assumes "i < 8 * length bm"
  shows "\<exists>bm'. bitmap_unmark bm i = Inr bm' \<and> bits bm' = bits bm - {i} \<and> length bm' = length bm"
proof -
  let ?b = "bm[i div 8 := bm ! (i div 8) AND NOT (push_bit (i mod 8) 1)]"
  have "j \<in> bits ?b \<longleftrightarrow> j \<noteq> i \<and> j \<in> bits bm" for j
    using assms div_mod_8_eq_iff [of j i]
    by (auto simp: bits_update bit_laws) (auto simp: bits_def)
  then have "bits ?b = bits bm - {i}" by blast
  moreover have "bitmap_unmark bm i = Inr ?b"
    using assms by (simp add: bitmap_unmark_def byte_index Let_def)
  ultimately show ?thesis by simp
qed

lemma bits_replicate_0 [simp]: "bits (replicate n 0) = {}"
  by (auto simp: bits_def)

text \<open>The interface the allocators use: a bitmap is a set of indices below its capacity.\<close>

locale bitset =
  fixes get :: "'b \<Rightarrow> nat \<Rightarrow> bool result"
    and mark :: "'b \<Rightarrow> nat \<Rightarrow> 'b result"
    and unmark :: "'b \<Rightarrow> nat \<Rightarrow> 'b result"
    and elems :: "'b \<Rightarrow> nat set"
    and cap :: "'b \<Rightarrow> nat"
  assumes get_elems: "i < cap b \<Longrightarrow> get b i = Inr (i \<in> elems b)"
    and mark_elems: "i < cap b \<Longrightarrow>
      \<exists>b'. mark b i = Inr b' \<and> elems b' = insert i (elems b) \<and> cap b' = cap b"
    and unmark_elems: "i < cap b \<Longrightarrow>
      \<exists>b'. unmark b i = Inr b' \<and> elems b' = elems b - {i} \<and> cap b' = cap b"
begin

lemma get_mark:
  assumes "i < cap b" "j < cap b"
  shows "rbind (mark b i) (\<lambda>b'. get b' j) = (if j = i then Inr True else get b j)"
proof -
  from mark_elems [OF assms(1)] obtain b' where
    "mark b i = Inr b'" "elems b' = insert i (elems b)" "cap b' = cap b" by blast
  with assms get_elems [of j b'] get_elems [of j b] show ?thesis by simp
qed

lemma get_unmark:
  assumes "i < cap b" "j < cap b"
  shows "rbind (unmark b i) (\<lambda>b'. get b' j) = (if j = i then Inr False else get b j)"
proof -
  from unmark_elems [OF assms(1)] obtain b' where
    "unmark b i = Inr b'" "elems b' = elems b - {i}" "cap b' = cap b" by blast
  with assms get_elems [of j b'] get_elems [of j b] show ?thesis by simp
qed

lemma unmark_mark:
  assumes "i < cap b" "i \<notin> elems b"
  shows "\<exists>b'. rbind (mark b i) (\<lambda>b. unmark b i) = Inr b' \<and> elems b' = elems b"
proof -
  from mark_elems [OF assms(1)] obtain b' where
    b': "mark b i = Inr b'" "elems b' = insert i (elems b)" "cap b' = cap b" by blast
  with assms unmark_elems [of i b'] show ?thesis by auto
qed

end

interpretation bm: bitset bitmap_get bitmap_mark bitmap_unmark bits "\<lambda>b. 8 * length b"
proof unfold_locales
  fix i and b :: "u8 list"
  assume i: "i < 8 * length b"
  show "bitmap_get b i = Inr (i \<in> bits b)"
    using i by (rule bitmap_get_bits)
  show "\<exists>b'. bitmap_mark b i = Inr b' \<and> bits b' = insert i (bits b) \<and> 8 * length b' = 8 * length b"
    using bitmap_mark_bits [OF i] by auto
  show "\<exists>b'. bitmap_unmark b i = Inr b' \<and> bits b' = bits b - {i} \<and> 8 * length b' = 8 * length b"
    using bitmap_unmark_bits [OF i] by auto
qed

section \<open>Rounding up\<close>

lemma unat_divide_roundup:
  assumes "0 < unat b" "unat a + unat b \<le> 2 ^ 32"
  shows "unat (divide_roundup a b) = (unat a + unat b - 1) div unat b"
proof -
  have "a + b - 1 = word_of_nat (unat a + unat b - 1)"
    using assms(1) by (simp add: of_nat_diff)
  then have "unat (a + b - 1) = unat a + unat b - 1"
    by (rule unat_eqI) (use assms in simp)
  then show ?thesis
    by (simp add: divide_roundup_def unat_div)
qed

section \<open>Buffers\<close>

lemma buffer_copy_from_take:
  "i + k \<le> length src \<Longrightarrow> i + k \<le> length dst \<Longrightarrow> take i src = take i dst \<Longrightarrow>
     buffer_copy_from src dst i k = Inr (take (i + k) src @ drop (i + k) dst)"
proof (induction k arbitrary: i dst)
  case 0
  then show ?case by (metis append_take_drop_id add_0_right buffer_copy_from.simps(1))
next
  case (Suc k)
  let ?dst = "dst[i := src ! i]"
  have "take (Suc i) src = take (Suc i) ?dst"
    using Suc.prems by (simp add: take_Suc_conv_app_nth)
  moreover have "drop (Suc i + k) ?dst = drop (i + Suc k) dst" by simp
  ultimately show ?case
    using Suc.prems Suc.IH [of "Suc i" ?dst] by simp
qed

lemma buffer_zero_from_take:
  "i + k \<le> length a \<Longrightarrow> take i a = replicate i 0 \<Longrightarrow>
     buffer_zero_from a i k = Inr (replicate (i + k) 0 @ drop (i + k) a)"
proof (induction k arbitrary: i a)
  case 0
  then show ?case by (metis append_take_drop_id add_0_right buffer_zero_from.simps(1))
next
  case (Suc k)
  have "take (Suc i) (a[i := 0]) = replicate (Suc i) 0"
    using Suc.prems by (simp add: take_Suc_conv_app_nth replicate_append_same)
  with Suc.prems Suc.IH [of "Suc i" "a[i := 0]"] show ?case by simp
qed

lemma buffer_copy_take:
  assumes "nat n \<le> length src" "nat n \<le> length dst"
  shows "buffer_copy src dst n = Inr (take (nat n) src @ drop (nat n) dst)"
  using buffer_copy_from_take [of 0 "nat n" src dst] assms by (simp add: buffer_copy_def)

lemma buffer_zero_take:
  assumes "nat n \<le> length a"
  shows "buffer_zero a n = Inr (replicate (nat n) 0 @ drop (nat n) a)"
  using buffer_zero_from_take [of 0 "nat n" a] assms by (simp add: buffer_zero_def)

section \<open>Strings\<close>

text \<open>The string a buffer holds: its bytes before the first NUL.\<close>

definition c_string :: "u8 list \<Rightarrow> u8 list" where
  "c_string s = takeWhile (\<lambda>c. c \<noteq> 0) s"

lemma strcmp_total:
  assumes "0 \<in> set s" "0 \<in> set t"
  shows "\<exists>r. strcmp s t = Inr r"
  using assms by (induction s t rule: strcmp.induct) auto

lemma strcmp_eq_0:
  assumes "strcmp s t = Inr r"
  shows "r = 0 \<longleftrightarrow> c_string s = c_string t"
  using assms
proof (induction s t rule: strcmp.induct)
  case (1 c s d t)
  show ?case
  proof (cases "c \<noteq> 0 \<and> c = d")
    case True
    with "1.prems" have "strcmp s t = Inr r" by (auto split: if_splits)
    with True "1.IH" show ?thesis by (auto simp: c_string_def)
  next
    case False
    with "1.prems" have "r = uint c - uint d" by auto
    then have "r = 0 \<longleftrightarrow> c = d" by (simp add: word_uint_eq_iff)
    with False show ?thesis by (auto simp: c_string_def)
  qed
qed simp_all

declare bitmap_get_def [run] bitmap_mark_def [run] bitmap_unmark_def [run] divide_roundup_def [run]

end
