(* ===== verification/Lock.thy ===== *)
theory Lock
  imports Prelude
begin

text \<open>
  The lock of \<open>kernel/sync.hpp\<close> as the data structures see it: its status and the queue of
  the threads that wait for it. \<open>Lock::acquire\<close> on a held lock puts the running thread into
  the queue and switches to another thread, so that the caller does not go on
  (\<open>Blocked\<close>); on a free lock it takes the lock. \<open>Lock::release\<close> frees the lock and makes
  the first waiter ready.
\<close>

datatype lock_status = UNLOCKED | LOCKED

record lock =
  lk_status :: lock_status
  lk_queue :: "nat list"

definition lock_init :: lock where
  "lock_init = \<lparr>lk_status = UNLOCKED, lk_queue = []\<rparr>"

definition lock_acquire :: "lock \<Rightarrow> lock result" where
  "lock_acquire l =
     (if lk_status l = LOCKED then Inl Blocked else Inr (l\<lparr>lk_status := LOCKED\<rparr>))"

definition lock_release :: "lock \<Rightarrow> lock" where
  "lock_release l =
     (let l = l\<lparr>lk_status := UNLOCKED\<rparr>
      in if lk_queue l \<noteq> [] then l\<lparr>lk_queue := tl (lk_queue l)\<rparr> else l)"

definition lock_free :: "lock \<Rightarrow> bool" where
  "lock_free l \<longleftrightarrow> lk_status l = UNLOCKED"

text \<open>
  What a data structure relies on: the operations of a critical section on a free lock run
  to their end and leave it free; on a held lock they do not start.
\<close>

locale mutex =
  fixes is_free :: "'l \<Rightarrow> bool"
    and acquire :: "'l \<Rightarrow> 'l result"
    and release :: "'l \<Rightarrow> 'l"
  assumes acquire_free: "is_free l \<Longrightarrow> \<exists>l'. acquire l = Inr l' \<and> \<not> is_free l'"
    and acquire_held: "\<not> is_free l \<Longrightarrow> acquire l = Inl Blocked"
    and release_free: "is_free (release l)"
begin

lemma section_runs: "rbind (acquire l) f = Inr y \<Longrightarrow> is_free l"
  using acquire_held by fastforce

lemma reacquire_blocks: "acquire l = Inr l' \<Longrightarrow> rbind (acquire l') f = Inl Blocked"
  by (metis acquire_free acquire_held rbind_Inl sum.inject(2) old.sum.exhaust sum.distinct(1))

end

interpretation lk: mutex lock_free lock_acquire lock_release
  by unfold_locales (auto simp: lock_free_def lock_acquire_def lock_release_def Let_def
      intro: lock_status.exhaust)

lemma lock_acquire_free [simp]:
  "lock_free l \<Longrightarrow> lock_acquire l = Inr (l\<lparr>lk_status := LOCKED\<rparr>)"
  by (simp add: lock_free_def lock_acquire_def)

lemma lock_free_release [simp]: "lock_free (lock_release l)"
  by (rule lk.release_free)

lemma lock_free_init [simp]: "lock_free lock_init"
  by (simp add: lock_free_def lock_init_def)

declare lock_acquire_def [run] lock_release_def [run] lock_init_def [run]

end
