(* ===== verification/Slots.thy ===== *)
theory Slots
  imports Prelude
begin

text \<open>
  The contract shared by the kernel's fixed-size allocators: the bitmap pool of
  \<open>kernel/structs/pool.hpp\<close>, the frame, page-directory and user page-table allocators of
  \<open>kernel/paging.cpp\<close>. Each hands out the lowest free index of a bounded range and marks it
  used. What a client may rely on is proved here once, from the contract; every allocator
  discharges the contract by an \<open>interpretation\<close> in its own theory.
\<close>

text \<open>Taking up to \<open>n\<close> slots, as a client that calls the allocator repeatedly does.\<close>

fun take_slots :: "('s \<Rightarrow> nat option \<times> 's) \<Rightarrow> nat \<Rightarrow> 's \<Rightarrow> nat list \<times> 's" where
  "take_slots alloc 0 s = ([], s)"
| "take_slots alloc (Suc n) s =
     (case alloc s of
        (None, s') \<Rightarrow> ([], s')
      | (Some i, s') \<Rightarrow> (case take_slots alloc n s' of (is, s'') \<Rightarrow> (i # is, s'')))"

locale slots =
  fixes inv :: "'s \<Rightarrow> bool"
    and used :: "'s \<Rightarrow> nat set"
    and cap :: "'s \<Rightarrow> nat"
    and alloc :: "'s \<Rightarrow> nat option \<times> 's"
  assumes used_cap: "inv s \<Longrightarrow> used s \<subseteq> {..<cap s}"
    and alloc_Some: "inv s \<Longrightarrow> alloc s = (Some i, s') \<Longrightarrow>
      i < cap s \<and> i \<notin> used s \<and> {..<i} \<subseteq> used s \<and>
      used s' = insert i (used s) \<and> cap s' = cap s \<and> inv s'"
    and alloc_None: "inv s \<Longrightarrow> alloc s = (None, s') \<Longrightarrow>
      {..<cap s} \<subseteq> used s \<and> used s' = used s \<and> cap s' = cap s \<and> inv s'"
begin

lemma finite_used: "inv s \<Longrightarrow> finite (used s)"
  using used_cap finite_subset by blast

lemma card_used_le: "inv s \<Longrightarrow> card (used s) \<le> cap s"
  using card_mono [OF _ used_cap] by fastforce

lemma full_iff: "inv s \<Longrightarrow> {..<cap s} \<subseteq> used s \<longleftrightarrow> card (used s) = cap s"
  by (metis card_lessThan card_subset_eq finite_lessThan subset_antisym subset_refl used_cap)

lemma alloc_None_iff: "inv s \<Longrightarrow> fst (alloc s) = None \<longleftrightarrow> card (used s) = cap s"
proof (cases "alloc s")
  case (Pair r s')
  assume inv: "inv s"
  show ?thesis
  proof (cases r)
    case None
    with Pair inv alloc_None [of s s'] full_iff show ?thesis by simp
  next
    case (Some i)
    with Pair inv alloc_Some [of s i s'] have "\<not> {..<cap s} \<subseteq> used s" by auto
    with Pair Some inv full_iff show ?thesis by simp
  qed
qed

lemma alloc_least:
  assumes "inv s" "alloc s = (Some i, s')" "j \<notin> used s" "j < cap s"
  shows "i \<le> j"
  using alloc_Some [OF assms(1,2)] assms(3) by (metis lessThan_iff linorder_not_le subsetD)

text \<open>Repeated allocation hands out distinct fresh slots, as many as are left.\<close>

lemma take_slots_fresh:
  "inv s \<Longrightarrow> take_slots alloc n s = (is, s') \<Longrightarrow>
     inv s' \<and> cap s' = cap s \<and> distinct is \<and> set is \<inter> used s = {} \<and>
     used s' = used s \<union> set is \<and> set is \<subseteq> {..<cap s}"
proof (induction n arbitrary: s "is")
  case (Suc n)
  show ?case
  proof (cases "alloc s")
    case (Pair r t)
    show ?thesis
    proof (cases r)
      case None
      with Suc.prems Pair alloc_None [of s t] show ?thesis by auto
    next
      case (Some i)
      note step = alloc_Some [OF Suc.prems(1), of i t]
      from Suc.prems(2) Pair Some obtain js where
        js: "take_slots alloc n t = (js, s')" "is = i # js"
        by (auto split: prod.splits)
      from step Pair Some have "inv t" by simp
      from Suc.IH [OF this js(1)] step Pair Some js(2) show ?thesis by auto
    qed
  qed
qed simp

lemma take_slots_length:
  "inv s \<Longrightarrow> take_slots alloc n s = (is, s') \<Longrightarrow> length is = min n (cap s - card (used s))"
proof (induction n arbitrary: s "is")
  case (Suc n)
  show ?case
  proof (cases "alloc s")
    case (Pair r t)
    show ?thesis
    proof (cases r)
      case None
      with Suc.prems Pair alloc_None_iff [of s] show ?thesis by auto
    next
      case (Some i)
      note step = alloc_Some [OF Suc.prems(1), of i t]
      from Suc.prems(2) Pair Some obtain js where
        js: "take_slots alloc n t = (js, s')" "is = i # js"
        by (auto split: prod.splits)
      from step Pair Some finite_used [OF Suc.prems(1)]
      have t: "inv t" "card (used t) = Suc (card (used s))" "cap t = cap s" by simp_all
      with card_used_le [OF t(1)] Suc.IH [OF t(1) js(1)] js(2) show ?thesis by simp
    qed
  qed
qed simp

end

text \<open>An allocator whose slots can be given back.\<close>

locale slots_free = slots +
  fixes free :: "nat \<Rightarrow> 's \<Rightarrow> 's"
  assumes free_slot: "inv s \<Longrightarrow> i < cap s \<Longrightarrow>
    used (free i s) = used s - {i} \<and> cap (free i s) = cap s \<and> inv (free i s)"
begin

lemma alloc_free_used:
  assumes "inv s" "alloc s = (Some i, s')"
  shows "used (free i s') = used s"
  using alloc_Some [OF assms] free_slot [of s' i] by auto

lemma free_reusable:
  assumes "inv s" "i < cap s"
  shows "\<exists>j s'. alloc (free i s) = (Some j, s') \<and> j \<le> i"
proof (cases "alloc (free i s)")
  case (Pair r s')
  from free_slot [OF assms] have f: "inv (free i s)" "i \<notin> used (free i s)" "i < cap (free i s)"
    using assms by auto
  show ?thesis
  proof (cases r)
    case None
    with Pair alloc_None [OF f(1), of s'] f show ?thesis by auto
  next
    case (Some j)
    with Pair alloc_least [OF f(1) _ f(2,3)] show ?thesis by blast
  qed
qed

end

end
