(* ===== verification/Pool.thy ===== *)
theory Pool
  imports Minstd Lock Slots
begin

text \<open>
  The fixed-size pool of \<open>kernel/structs/pool.hpp\<close>: an array of entries whose use is tracked
  by a bitmap under a lock. An entry is named by its id; \<open>id_to_address\<close> and
  \<open>address_to_id\<close> convert between ids and the addresses of the array elements.
\<close>

section \<open>The pool and its operations\<close>

record 'a pool =
  max_entries :: u32
  bitmap :: "u8 list"
  datamap :: "nat \<Rightarrow> 'a"
  datamap_addr :: u32
  bitmap_lock :: lock

text \<open>The loop of \<open>Pool::allocate\<close>: the first index from \<open>i\<close> whose bit is FREE.\<close>

fun pool_scan :: "u8 list \<Rightarrow> nat \<Rightarrow> nat \<Rightarrow> nat option result" where
  "pool_scan bm i 0 = Inr None"
| "pool_scan bm i (Suc k) =
     rbind (bitmap_get bm i) (\<lambda>b. if \<not> b then Inr (Some i) else pool_scan bm (Suc i) k)"

definition pool_allocate :: "'a pool \<Rightarrow> (u32 \<times> 'a pool) result" where
  "pool_allocate p =
     rbind (lock_acquire (bitmap_lock p)) (\<lambda>l.
     rbind (pool_scan (bitmap p) 0 (unat (max_entries p))) (\<lambda>r.
       case r of
         Some i \<Rightarrow>
           rbind (bitmap_mark (bitmap p) i) (\<lambda>bm.
             Inr (of_nat i, p\<lparr>bitmap := bm, bitmap_lock := lock_release l\<rparr>))
       | None \<Rightarrow> Inr (- 1, p\<lparr>bitmap_lock := lock_release l\<rparr>)))"

definition pool_free :: "u32 \<Rightarrow> 'a pool \<Rightarrow> 'a pool result" where
  "pool_free i p =
     rbind (lock_acquire (bitmap_lock p)) (\<lambda>l.
     rbind (bitmap_unmark (bitmap p) (unat i)) (\<lambda>bm.
       Inr (p\<lparr>bitmap := bm, bitmap_lock := lock_release l\<rparr>)))"

text \<open>\<open>sz\<close> is \<open>sizeof(DATA_TYPE)\<close>.\<close>

definition id_to_address :: "u32 \<Rightarrow> 'a pool \<Rightarrow> u32 \<Rightarrow> u32" where
  "id_to_address sz p i = datamap_addr p + i * sz"

definition address_to_id :: "u32 \<Rightarrow> 'a pool \<Rightarrow> u32 \<Rightarrow> u32" where
  "address_to_id sz p address = (address - datamap_addr p) div sz"

text \<open>
  \<open>_create_pool\<close> lays the pool out in the memory it is given: the header, the zeroed bitmap,
  then the entries, each set to its default value \<open>z\<close>. \<open>sizeof(Pool)\<close> is 20 on the 32-bit
  target: an integer, two pointers and a lock of two words.
\<close>

definition sizeof_pool :: u32 where
  "sizeof_pool = 20"

definition create_pool :: "'a \<Rightarrow> u32 \<Rightarrow> u32 \<Rightarrow> 'a pool" where
  "create_pool z entries start =
     (let bitmap_bytes = divide_roundup entries 8
      in \<lparr>max_entries = entries,
          bitmap = replicate (unat bitmap_bytes) 0,
          datamap = (\<lambda>_. z),
          datamap_addr = start + sizeof_pool + bitmap_bytes,
          bitmap_lock = lock_init\<rparr>)"

text \<open>The address just past the pool that \<open>_create_pool\<close> built, its final \<open>ptr\<close>.\<close>

definition pool_end :: "u32 \<Rightarrow> u32 \<Rightarrow> u32 \<Rightarrow> u32" where
  "pool_end sz entries start = start + sizeof_pool + divide_roundup entries 8 + entries * sz"

section \<open>Invariant and abstraction\<close>

definition pool_cap :: "'a pool \<Rightarrow> nat" where
  "pool_cap p = unat (max_entries p)"

definition pool_used :: "'a pool \<Rightarrow> nat set" where
  "pool_used p = bits (bitmap p) \<inter> {..<pool_cap p}"

definition pool_inv :: "'a pool \<Rightarrow> bool" where
  "pool_inv p \<longleftrightarrow> lock_free (bitmap_lock p) \<and> pool_cap p \<le> 8 * length (bitmap p)"

section \<open>Behaviour\<close>

lemma pool_scan_eq:
  "i + k \<le> 8 * length bm \<Longrightarrow> pool_scan bm i k = Inr (scan (\<lambda>j. j \<notin> bits bm) i k)"
  by (induction k arbitrary: i) (auto simp: bitmap_get_bits)

lemma pool_scan_inv:
  "pool_inv p \<Longrightarrow>
     pool_scan (bitmap p) 0 (unat (max_entries p)) = Inr (scan (\<lambda>j. j \<notin> bits (bitmap p)) 0 (pool_cap p))"
  by (simp add: pool_inv_def pool_cap_def pool_scan_eq)

text \<open>An id that is handed out is below the capacity, so it is never the error value -1.\<close>

lemma of_nat_less_cap:
  assumes "i < pool_cap p"
  shows "unat (of_nat i :: u32) = i" "(of_nat i :: u32) \<noteq> - 1"
proof -
  have lt: "i < 2 ^ 32 - 1"
    using assms unat_u32_less [of "max_entries p"] by (simp add: pool_cap_def)
  then show u: "unat (of_nat i :: u32) = i"
    by (intro unat_eqI) simp_all
  show "(of_nat i :: u32) \<noteq> - 1"
  proof
    assume "(of_nat i :: u32) = - 1"
    then have "unat (of_nat i :: u32) = unat (- 1 :: u32)" by simp
    with u lt show False by (simp add: unat_minus_1)
  qed
qed

lemma pool_allocate_found:
  assumes "pool_inv p" and "scan (\<lambda>j. j \<notin> bits (bitmap p)) 0 (pool_cap p) = Some i"
  shows "\<exists>p'. pool_allocate p = Inr (of_nat i, p') \<and> i < pool_cap p \<and> i \<notin> pool_used p \<and>
    {..<i} \<subseteq> pool_used p \<and> pool_inv p' \<and> pool_used p' = insert i (pool_used p) \<and>
    pool_cap p' = pool_cap p \<and> datamap p' = datamap p \<and> datamap_addr p' = datamap_addr p"
proof -
  from scan_Some [OF assms(2)] have i: "i < pool_cap p" "i \<notin> bits (bitmap p)"
    "\<forall>m\<in>{0..<i}. m \<in> bits (bitmap p)" by auto
  with assms(1) have "i < 8 * length (bitmap p)" by (simp add: pool_inv_def)
  from bitmap_mark_bits [OF this] obtain bm where
    bm: "bitmap_mark (bitmap p) i = Inr bm" "bits bm = insert i (bits (bitmap p))"
      "length bm = length (bitmap p)" by blast
  with assms i show ?thesis
    by (auto simp: pool_allocate_def pool_scan_inv pool_inv_def pool_used_def pool_cap_def)
qed

lemma pool_allocate_full:
  assumes "pool_inv p" and "scan (\<lambda>j. j \<notin> bits (bitmap p)) 0 (pool_cap p) = None"
  shows "\<exists>p'. pool_allocate p = Inr (- 1, p') \<and> pool_used p = {..<pool_cap p} \<and> pool_inv p' \<and>
    pool_used p' = pool_used p \<and> pool_cap p' = pool_cap p \<and> datamap p' = datamap p \<and>
    datamap_addr p' = datamap_addr p"
proof -
  from assms(2) have "{..<pool_cap p} \<subseteq> bits (bitmap p)" by (auto simp: scan_None)
  with assms show ?thesis
    by (auto simp: pool_allocate_def pool_scan_inv pool_inv_def pool_used_def pool_cap_def)
qed

lemma pool_free_used:
  assumes "pool_inv p" "unat i < pool_cap p"
  shows "\<exists>p'. pool_free i p = Inr p' \<and> pool_inv p' \<and> pool_used p' = pool_used p - {unat i} \<and>
    pool_cap p' = pool_cap p \<and> datamap p' = datamap p \<and> datamap_addr p' = datamap_addr p"
proof -
  from assms have "unat i < 8 * length (bitmap p)" by (simp add: pool_inv_def)
  from bitmap_unmark_bits [OF this] obtain bm where
    "bitmap_unmark (bitmap p) (unat i) = Inr bm" "bits bm = bits (bitmap p) - {unat i}"
      "length bm = length (bitmap p)" by blast
  with assms show ?thesis
    by (auto simp: pool_free_def pool_inv_def pool_used_def pool_cap_def)
qed

lemma pool_allocate_cases:
  assumes "pool_inv p"
  obtains (found) i p' where "pool_allocate p = Inr (of_nat i, p')" "i < pool_cap p"
      "i \<notin> pool_used p" "{..<i} \<subseteq> pool_used p" "pool_inv p'"
      "pool_used p' = insert i (pool_used p)" "pool_cap p' = pool_cap p" "datamap p' = datamap p"
    | (full) p' where "pool_allocate p = Inr (- 1, p')" "pool_used p = {..<pool_cap p}"
      "pool_inv p'" "pool_used p' = pool_used p" "pool_cap p' = pool_cap p" "datamap p' = datamap p"
proof (cases "scan (\<lambda>j. j \<notin> bits (bitmap p)) 0 (pool_cap p)")
  case None
  from pool_allocate_full [OF assms None] show ?thesis using full by blast
next
  case (Some i)
  from pool_allocate_found [OF assms Some] show ?thesis using found by blast
qed

section \<open>The pool as a slot allocator\<close>

definition pool_take :: "'a pool \<Rightarrow> nat option \<times> 'a pool" where
  "pool_take p =
     (case pool_allocate p of
        Inl _ \<Rightarrow> (None, p)
      | Inr (i, p') \<Rightarrow> (if i = - 1 then None else Some (unat i), p'))"

definition pool_give :: "nat \<Rightarrow> 'a pool \<Rightarrow> 'a pool" where
  "pool_give i p = (case pool_free (of_nat i) p of Inl _ \<Rightarrow> p | Inr p' \<Rightarrow> p')"

lemma pool_take_cases:
  assumes "pool_inv p"
  obtains (found) i p' where "pool_take p = (Some i, p')" "i < pool_cap p"
      "i \<notin> pool_used p" "{..<i} \<subseteq> pool_used p" "pool_inv p'"
      "pool_used p' = insert i (pool_used p)" "pool_cap p' = pool_cap p"
    | (full) p' where "pool_take p = (None, p')" "pool_used p = {..<pool_cap p}"
      "pool_inv p'" "pool_used p' = pool_used p" "pool_cap p' = pool_cap p"
  using assms
proof (cases rule: pool_allocate_cases)
  case (found i p')
  from found(1) have "pool_take p = (Some i, p')"
    by (simp only: pool_take_def sum.case prod.case of_nat_less_cap [OF found(2)] if_False)
  from that(1) [OF this found(2-7)] show thesis .
next
  case (full p')
  from full(1) have "pool_take p = (None, p')" by (simp add: pool_take_def)
  from that(2) [OF this full(2-5)] show thesis .
qed

lemma pool_give_used:
  assumes "pool_inv p" "i < pool_cap p"
  shows "pool_used (pool_give i p) = pool_used p - {i} \<and>
    pool_cap (pool_give i p) = pool_cap p \<and> pool_inv (pool_give i p)"
proof -
  from pool_free_used [OF assms(1), of "of_nat i", unfolded of_nat_less_cap [OF assms(2)], OF assms(2)]
  obtain p' where "pool_free (of_nat i) p = Inr p'" "pool_inv p'"
    "pool_used p' = pool_used p - {i}" "pool_cap p' = pool_cap p" by blast
  then show ?thesis by (simp add: pool_give_def)
qed

interpretation pl: slots_free pool_inv pool_used pool_cap pool_take pool_give
proof unfold_locales
  fix p :: "'a pool"
  show "pool_used p \<subseteq> {..<pool_cap p}" by (simp add: pool_used_def)
next
  fix p p' :: "'a pool" and i
  assume "pool_inv p" "pool_take p = (Some i, p')"
  then show "i < pool_cap p \<and> i \<notin> pool_used p \<and> {..<i} \<subseteq> pool_used p \<and>
      pool_used p' = insert i (pool_used p) \<and> pool_cap p' = pool_cap p \<and> pool_inv p'"
    by (cases rule: pool_take_cases) simp_all
next
  fix p p' :: "'a pool"
  assume "pool_inv p" "pool_take p = (None, p')"
  then show "{..<pool_cap p} \<subseteq> pool_used p \<and> pool_used p' = pool_used p \<and>
      pool_cap p' = pool_cap p \<and> pool_inv p'"
    by (cases rule: pool_take_cases) simp_all
qed (rule pool_give_used)

section \<open>Creation and addresses\<close>

lemma create_pool_inv:
  assumes "unat m \<le> 2 ^ 32 - 8"
  shows "pool_inv (create_pool z m start)" "pool_used (create_pool z m start) = {}"
    "pool_cap (create_pool z m start) = unat m"
proof -
  have "unat (divide_roundup m 8) = (unat m + 7) div 8"
    using unat_divide_roundup [of 8 m] assms by simp
  then have "unat m \<le> 8 * unat (divide_roundup m 8)" by simp
  then show "pool_inv (create_pool z m start)"
    by (simp add: pool_inv_def pool_cap_def create_pool_def Let_def)
  show "pool_used (create_pool z m start) = {}"
    by (simp add: pool_used_def create_pool_def Let_def)
  show "pool_cap (create_pool z m start) = unat m"
    by (simp add: pool_cap_def create_pool_def Let_def)
qed

lemma pool_scan_step [run]:
  "pool_scan bm i k =
     (if k = 0 then Inr None
      else rbind (bitmap_get bm i) (\<lambda>b. if \<not> b then Inr (Some i) else pool_scan bm (Suc i) (k - 1)))"
  by (cases k) (simp_all cong: if_cong)

declare pool_allocate_def [run] pool_free_def [run] create_pool_def [run]

end
