(* ===== verification/Ring.thy ===== *)
theory Ring
  imports Prelude
begin

text \<open>
  Circular doubly linked lists, as the cluster pool (\<open>Cluster::next\<close>, \<open>Cluster::prev\<close>) and
  the ready queue (\<open>Thread::next\<close>, \<open>Thread::prev\<close>) keep them. The links are functions from
  a node to its neighbour; \<open>ring nxt prv xs\<close> says that following \<open>nxt\<close> from the first node of
  \<open>xs\<close> visits the nodes of \<open>xs\<close> in order and returns to the first, and that \<open>prv\<close> is the
  way back. The pointer updates of the code (splice a node in, cut a node out, start from
  another node) are lemmas on lists here.
\<close>

definition chain :: "('a \<Rightarrow> 'a) \<Rightarrow> ('a \<Rightarrow> 'a) \<Rightarrow> 'a list \<Rightarrow> bool" where
  "chain nxt prv xs \<longleftrightarrow> successively (\<lambda>a b. nxt a = b \<and> prv b = a) xs"

definition ring :: "('a \<Rightarrow> 'a) \<Rightarrow> ('a \<Rightarrow> 'a) \<Rightarrow> 'a list \<Rightarrow> bool" where
  "ring nxt prv xs \<longleftrightarrow> xs \<noteq> [] \<and> distinct xs \<and> chain nxt prv (xs @ [hd xs])"

lemma chain_simps [simp]:
  "chain nxt prv []"
  "chain nxt prv [a]"
  "chain nxt prv (a # b # xs) \<longleftrightarrow> nxt a = b \<and> prv b = a \<and> chain nxt prv (b # xs)"
  by (simp_all add: chain_def)

lemma chain_append:
  "chain nxt prv (xs @ ys) \<longleftrightarrow> chain nxt prv xs \<and> chain nxt prv ys \<and>
     (xs = [] \<or> ys = [] \<or> nxt (last xs) = hd ys \<and> prv (hd ys) = last xs)"
  by (simp add: chain_def successively_append_iff)

lemma chain_Cons:
  "chain nxt prv (a # ys) \<longleftrightarrow> chain nxt prv ys \<and> (ys = [] \<or> nxt a = hd ys \<and> prv (hd ys) = a)"
  by (auto simp: chain_def successively_Cons)

lemma chain_cong:
  "(\<And>x. x \<in> set (butlast xs) \<Longrightarrow> nxt x = nxt' x) \<Longrightarrow> (\<And>x. x \<in> set (tl xs) \<Longrightarrow> prv x = prv' x) \<Longrightarrow>
     chain nxt prv xs = chain nxt' prv' xs"
proof (induction xs)
  case (Cons a xs)
  show ?case
  proof (cases xs)
    case (Cons b ys)
    have "chain nxt prv xs = chain nxt' prv' xs"
      using Cons.prems \<open>xs = b # ys\<close> by (intro Cons.IH) (auto split: if_splits)
    moreover have "nxt a = nxt' a" "prv b = prv' b"
      using Cons.prems \<open>xs = b # ys\<close> by auto
    ultimately show ?thesis using \<open>xs = b # ys\<close> by simp
  qed simp
qed simp

section \<open>Starting from another node\<close>

lemma ring_rotate1: "ring nxt prv (a # xs) \<longleftrightarrow> ring nxt prv (xs @ [a])"
proof (cases xs)
  case (Cons b ys)
  have "chain nxt prv ((b # ys @ [a]) @ [b]) \<longleftrightarrow>
      chain nxt prv (b # ys @ [a]) \<and> nxt a = b \<and> prv b = a"
    by (subst chain_append) auto
  with Cons show ?thesis by (auto simp: ring_def)
qed simp

lemma ring_rotate: "ring nxt prv (xs @ ys) \<longleftrightarrow> ring nxt prv (ys @ xs)"
proof (induction xs arbitrary: ys)
  case (Cons a xs)
  have "ring nxt prv ((a # xs) @ ys) \<longleftrightarrow> ring nxt prv (xs @ ys @ [a])"
    using ring_rotate1 [of nxt prv a "xs @ ys"] by simp
  also have "\<dots> \<longleftrightarrow> ring nxt prv (ys @ a # xs)"
    using Cons.IH [of "ys @ [a]"] by simp
  finally show ?case .
qed simp

section \<open>Neighbours\<close>

lemma ring_distinct: "ring nxt prv xs \<Longrightarrow> distinct xs"
  by (simp add: ring_def)

lemma ring_not_Nil: "ring nxt prv xs \<Longrightarrow> xs \<noteq> []"
  by (simp add: ring_def)

lemma ring_next: "ring nxt prv (us @ a # b # vs) \<Longrightarrow> nxt a = b \<and> prv b = a"
  by (simp add: ring_def chain_append)

lemma ring_wrap: "ring nxt prv (a # us) \<Longrightarrow> nxt (last (a # us)) = a \<and> prv a = last (a # us)"
  by (auto simp: ring_def chain_append chain_Cons split: if_splits)

lemma ring_hd_next: "ring nxt prv (a # vs) \<Longrightarrow> nxt a = hd (vs @ [a])"
  by (cases vs) (auto simp: ring_def)

lemma ring_self: "ring nxt prv [a] \<longleftrightarrow> nxt a = a \<and> prv a = a"
  by (auto simp: ring_def)

lemma ring_prev:
  assumes "ring nxt prv (us @ c # vs)"
  shows "prv c = (if us = [] then last (c # vs) else last us)"
proof (cases us rule: rev_cases)
  case Nil
  with assms ring_wrap [of nxt prv c vs] show ?thesis by simp
next
  case (snoc us' a)
  with assms ring_next [of nxt prv us' a c vs] show ?thesis by simp
qed

text \<open>Every node can be brought to the front.\<close>

lemma ring_at:
  assumes "ring nxt prv xs" "a \<in> set xs"
  obtains us vs where "xs = us @ a # vs" "ring nxt prv (a # vs @ us)"
proof -
  from assms(2) obtain us vs where "xs = us @ a # vs"
    by (meson split_list)
  with assms(1) ring_rotate [of nxt prv us "a # vs"] that show thesis by simp
qed

lemma ring_next_in: "ring nxt prv xs \<Longrightarrow> a \<in> set xs \<Longrightarrow> nxt a \<in> set xs"
proof -
  assume "ring nxt prv xs" "a \<in> set xs"
  then obtain us vs where xs: "xs = us @ a # vs" "ring nxt prv (a # vs @ us)"
    by (rule ring_at)
  from ring_hd_next [OF xs(2)] have "nxt a \<in> set ((vs @ us) @ [a])"
    by (cases "vs @ us") auto
  with xs(1) show ?thesis by auto
qed

lemma ring_prev_in: "ring nxt prv xs \<Longrightarrow> a \<in> set xs \<Longrightarrow> prv a \<in> set xs"
proof -
  assume "ring nxt prv xs" "a \<in> set xs"
  then obtain us vs where xs: "xs = us @ a # vs" "ring nxt prv (a # vs @ us)"
    by (rule ring_at)
  from ring_wrap [OF xs(2)] have "prv a \<in> set (a # vs @ us)"
    using last_in_set [of "a # vs @ us"] by simp
  with xs(1) show ?thesis by auto
qed

lemma ring_prev_next: "ring nxt prv xs \<Longrightarrow> a \<in> set xs \<Longrightarrow> prv (nxt a) = a"
proof -
  assume "ring nxt prv xs" "a \<in> set xs"
  then obtain us vs where xs: "xs = us @ a # vs" "ring nxt prv (a # vs @ us)"
    by (rule ring_at)
  then show ?thesis
    by (cases "vs @ us") (auto simp: ring_def)
qed

lemma ring_next_prev: "ring nxt prv xs \<Longrightarrow> a \<in> set xs \<Longrightarrow> nxt (prv a) = a"
proof -
  assume "ring nxt prv xs" "a \<in> set xs"
  then obtain us vs where xs: "xs = us @ a # vs" "ring nxt prv (a # vs @ us)"
    by (rule ring_at)
  with ring_wrap [OF xs(2)] show ?thesis by simp
qed

lemma ring_next_self: "ring nxt prv xs \<Longrightarrow> a \<in> set xs \<Longrightarrow> nxt a = a \<Longrightarrow> xs = [a]"
proof -
  assume r: "ring nxt prv xs" "a \<in> set xs" and self: "nxt a = a"
  from r obtain us vs where xs: "xs = us @ a # vs" "ring nxt prv (a # vs @ us)"
    by (rule ring_at)
  from ring_hd_next [OF xs(2)] self ring_distinct [OF xs(2)]
  have "vs @ us = []" by (cases "vs @ us") auto
  with xs(1) show ?thesis by simp
qed

lemma ring_cong:
  assumes "ring nxt prv xs" "\<And>x. x \<in> set xs \<Longrightarrow> nxt x = nxt' x" "\<And>x. x \<in> set xs \<Longrightarrow> prv x = prv' x"
  shows "ring nxt' prv' xs"
proof -
  have "set (tl (xs @ [hd xs])) \<subseteq> set xs"
    using ring_not_Nil [OF assms(1)] by (cases xs) auto
  then have "chain nxt prv (xs @ [hd xs]) = chain nxt' prv' (xs @ [hd xs])"
    using assms(2,3) by (intro chain_cong) auto
  with assms(1) show ?thesis by (simp add: ring_def)
qed

section \<open>Splicing a node in and cutting a node out\<close>

lemma ring_insert_hd:
  assumes r: "ring nxt prv (a # vs)" and n: "n \<notin> set (a # vs)"
  shows "ring (nxt(a := n, n := nxt a)) (prv(n := a, nxt a := n)) (a # n # vs)"
proof -
  let ?nxt = "nxt(a := n, n := nxt a)" and ?prv = "prv(n := a, nxt a := n)"
  from r have d: "distinct (a # vs)" and c: "chain nxt prv (a # vs @ [a])"
    by (simp_all add: ring_def)
  have hd: "nxt a = hd (vs @ [a])" by (rule ring_hd_next [OF r])
  have "chain ?nxt ?prv (vs @ [a]) = chain nxt prv (vs @ [a])"
    using n d hd by (intro chain_cong [symmetric]) (cases vs; auto)+
  moreover have "hd (vs @ [a]) \<noteq> n" using n by (cases vs) auto
  ultimately have "chain ?nxt ?prv (n # vs @ [a])"
    using c hd n by (simp add: chain_Cons)
  with n d hd \<open>hd (vs @ [a]) \<noteq> n\<close> show ?thesis by (auto simp: ring_def)
qed

lemma ring_insert:
  assumes r: "ring nxt prv (us @ a # vs)" and n: "n \<notin> set (us @ a # vs)"
  shows "ring (nxt(a := n, n := nxt a)) (prv(n := a, nxt a := n)) (us @ a # n # vs)"
proof -
  have "ring nxt prv (a # vs @ us)"
    using r ring_rotate [of nxt prv us "a # vs"] by simp
  from ring_insert_hd [OF this, of n] n
  have "ring (nxt(a := n, n := nxt a)) (prv(n := a, nxt a := n)) ((a # n # vs) @ us)" by auto
  then show ?thesis using ring_rotate by blast
qed

lemma ring_remove_hd:
  assumes r: "ring nxt prv (a # b # vs)"
  shows "ring (nxt(a := nxt b)) (prv(nxt b := a)) (a # vs)"
proof -
  let ?nxt = "nxt(a := nxt b)" and ?prv = "prv(nxt b := a)"
  from r have d: "distinct (a # b # vs)" and c: "chain nxt prv (a # b # vs @ [a])"
    by (simp_all add: ring_def)
  from c have hd: "nxt b = hd (vs @ [a])" by (cases vs) auto
  have "chain ?nxt ?prv (vs @ [a]) = chain nxt prv (vs @ [a])"
    using d hd by (intro chain_cong [symmetric]) (cases vs; auto)+
  with c hd d show ?thesis by (auto simp: ring_def chain_Cons)
qed

lemma ring_remove:
  assumes r: "ring nxt prv (us @ a # b # vs)"
  shows "ring (nxt(a := nxt b)) (prv(nxt b := a)) (us @ a # vs)"
proof -
  have "ring nxt prv (a # b # vs @ us)"
    using r ring_rotate [of nxt prv us "a # b # vs"] by simp
  from ring_remove_hd [OF this]
  have "ring (nxt(a := nxt b)) (prv(nxt b := a)) ((a # vs) @ us)" by simp
  then show ?thesis using ring_rotate by blast
qed

text \<open>Cutting the first node out, the way \<open>pop_ready_queue\<close> does.\<close>

lemma ring_pop:
  assumes r: "ring nxt prv (t # b # vs)"
  shows "ring (nxt(prv t := nxt t)) (prv(nxt t := prv t)) (b # vs)"
proof -
  obtain ws p where ws: "b # vs = ws @ [p]" by (meson list.discI rev_exhaust)
  from r ring_wrap [of nxt prv t "b # vs"] ws have p: "prv t = p" by simp
  from r have "ring nxt prv ([t] @ ws @ [p])" using ws by simp
  then have "ring nxt prv (p # t # ws)"
    using ring_rotate [of nxt prv "[t] @ ws" "[p]"] by simp
  from ring_remove_hd [OF this] have "ring (nxt(prv t := nxt t)) (prv(nxt t := prv t)) ([p] @ ws)"
    using p by simp
  then show ?thesis using ring_rotate [of _ _ ws "[p]"] ws by simp
qed

end
