(* ===== verification/Allocator.thy ===== *)
theory Allocator
  imports Prelude
begin

text \<open>
  The contract of the kernel's byte allocator (\<open>kmalloc\<close>, \<open>kfree\<close>), as its clients rely on
  it: the allocated blocks are pairs of a start address and a length that never overlap;
  an allocation adds one block or returns 0 and changes nothing; freeing removes one block.
\<close>

definition separate :: "(nat \<times> nat) set \<Rightarrow> bool" where
  "separate B \<longleftrightarrow> (\<forall>(a, m) \<in> B. \<forall>(b, n) \<in> B. (a, m) \<noteq> (b, n) \<longrightarrow> a + m \<le> b \<or> b + n \<le> a)"

locale byte_allocator =
  fixes inv :: "'h \<Rightarrow> bool"
    and blks :: "'h \<Rightarrow> (nat \<times> nat) set"
    and room :: "'h \<Rightarrow> bool"
    and freeable :: "u32 \<Rightarrow> 'h \<Rightarrow> bool"
    and malloc :: "u32 \<Rightarrow> 'h \<Rightarrow> (u32 \<times> 'h) result"
    and free :: "u32 \<Rightarrow> 'h \<Rightarrow> 'h result"
  assumes blks_separate: "inv h \<Longrightarrow> separate (blks h)"
    and blks_nonempty: "inv h \<Longrightarrow> (b, m) \<in> blks h \<Longrightarrow> 0 < b \<and> 0 < m"
    and malloc_cases: "inv h \<Longrightarrow> room h \<Longrightarrow> 0 < unat n \<Longrightarrow>
      \<exists>a h'. malloc n h = Inr (a, h') \<and> inv h' \<and>
        (if a = 0 then blks h' = blks h
         else blks h' = insert (unat a, unat n) (blks h) \<and> (unat a, unat n) \<notin> blks h)"
    and free_block: "inv h \<Longrightarrow> (unat a, m) \<in> blks h \<Longrightarrow> freeable a h \<Longrightarrow>
      \<exists>h'. free a h = Inr h' \<and> inv h' \<and> blks h' = blks h - {(unat a, m)}"
begin

text \<open>A fresh block overlaps no block that was allocated before.\<close>

lemma malloc_fresh:
  assumes "inv h" "malloc n h = Inr (a, h')" "a \<noteq> 0" "room h" "0 < unat n"
  shows "(unat a, unat n) \<in> blks h' \<and> blks h \<subseteq> blks h' \<and>
    (\<forall>(b, m) \<in> blks h. unat a + unat n \<le> b \<or> b + m \<le> unat a)"
proof -
  from malloc_cases [OF assms(1,4,5)] assms(2,3)
  have b: "inv h'" "blks h' = insert (unat a, unat n) (blks h)" "(unat a, unat n) \<notin> blks h" by auto
  with blks_separate [OF b(1)] show ?thesis by (fastforce simp: separate_def)
qed

lemma malloc_free:
  assumes "inv h" "malloc n h = Inr (a, h')" "a \<noteq> 0" "room h" "0 < unat n" "freeable a h'"
  shows "\<exists>h''. free a h' = Inr h'' \<and> inv h'' \<and> blks h'' = blks h"
proof -
  from malloc_cases [OF assms(1,4,5)] assms(2,3)
  have b: "inv h'" "blks h' = insert (unat a, unat n) (blks h)" "(unat a, unat n) \<notin> blks h" by auto
  with free_block [OF b(1) _ assms(6), of "unat n"] show ?thesis by auto
qed

lemma malloc_returns:
  assumes "inv h" "room h" "0 < unat n"
  shows "\<exists>a h'. malloc n h = Inr (a, h') \<and> inv h'"
  using malloc_cases [OF assms] by blast

end

end
