(* ===== verification/ClusterPool.thy ===== *)
theory ClusterPool
  imports Pool Ring Allocator
begin

text \<open>
  The byte allocator of \<open>kernel/structs/clusterpool.hpp\<close> and \<open>clusterpool.cpp\<close>: a region of
  memory divided into clusters, each free or used, linked in a ring in address order. The
  records of the clusters are entries of one shared \<open>Pool<Cluster>\<close>; a \<open>Cluster *\<close> is the id
  of its entry (\<open>id_to_address\<close> and \<open>address_to_id\<close> of \<open>Pool\<close> convert between the two) and a
  \<open>ClusterPool *\<close> the id of the pool's own record.
\<close>

section \<open>State\<close>

datatype use = FREE | USED

record cluster =
  cl_parent :: nat
  cl_start :: u32
  cl_size :: u32
  cl_next :: nat
  cl_prev :: nat
  cl_type :: use

record cluster_pool =
  cp_cursor :: nat
  cp_start :: u32
  cp_size :: u32
  cp_bytes_used :: u32
  cp_lock :: lock

record heap =
  hp_nodes :: "cluster pool"
  hp_cps :: "cluster_pool pool"

abbreviation node :: "heap \<Rightarrow> nat \<Rightarrow> cluster" where
  "node h \<equiv> datamap (hp_nodes h)"

abbreviation hp_pools :: "heap \<Rightarrow> nat \<Rightarrow> cluster_pool" where
  "hp_pools h \<equiv> datamap (hp_cps h)"

definition upd_node :: "nat \<Rightarrow> (cluster \<Rightarrow> cluster) \<Rightarrow> heap \<Rightarrow> heap" where
  "upd_node i f h = h\<lparr>hp_nodes := (hp_nodes h)\<lparr>datamap := (node h)(i := f (node h i))\<rparr>\<rparr>"

definition upd_pool :: "nat \<Rightarrow> (cluster_pool \<Rightarrow> cluster_pool) \<Rightarrow> heap \<Rightarrow> heap" where
  "upd_pool p f h = h\<lparr>hp_cps := (hp_cps h)\<lparr>datamap := (hp_pools h)(p := f (hp_pools h p))\<rparr>\<rparr>"

section \<open>Operations\<close>

definition cluster_limit :: "cluster \<Rightarrow> u32" where
  "cluster_limit c = cl_start c + cl_size c"

definition cp_limit :: "cluster_pool \<Rightarrow> u32" where
  "cp_limit p = cp_start p + cp_size p"

text \<open>
  \<open>Cluster::splituse\<close>: cut \<open>new_size\<close> bytes off the end of a cluster into a new used cluster.
  When the node pool is full, \<open>allocate\<close> returns -1 and the code writes to entry -1.
\<close>

definition splituse :: "nat \<Rightarrow> u32 \<Rightarrow> heap \<Rightarrow> (u32 \<times> heap) result" where
  "splituse this new_size h =
     rbind (pool_allocate (hp_nodes h)) (\<lambda>(i, nodes).
       if i = - 1 then Inl OutOfBounds
       else
         let new_cluster = unat i;
             h = h\<lparr>hp_nodes := nodes\<rparr>;
             h = upd_node this (\<lambda>c. c\<lparr>cl_size := cl_size c - new_size\<rparr>) h;
             t = node h this;
             h = upd_node new_cluster
                   (\<lambda>_. \<lparr>cl_parent = cl_parent t, cl_start = cluster_limit t, cl_size = new_size,
                         cl_next = cl_next t, cl_prev = this, cl_type = USED\<rparr>) h;
             h = upd_node (cl_next (node h this)) (\<lambda>c. c\<lparr>cl_prev := new_cluster\<rparr>) h;
             h = upd_node this (\<lambda>c. c\<lparr>cl_next := new_cluster\<rparr>) h
         in Inr (cl_start (node h new_cluster), h))"

definition coalesce_next :: "nat \<Rightarrow> heap \<Rightarrow> heap result" where
  "coalesce_next this h =
     (if cl_next (node h this) = this then Inr h
      else
        let hold = cl_next (node h this);
            size_next = cl_size (node h hold);
            h = upd_node this (\<lambda>c. c\<lparr>cl_size := cl_size c + size_next\<rparr>) h;
            next_next = cl_next (node h (cl_next (node h this)));
            h = upd_node this (\<lambda>c. c\<lparr>cl_next := next_next\<rparr>) h;
            h = upd_node (cl_next (node h this)) (\<lambda>c. c\<lparr>cl_prev := this\<rparr>) h
        in rbind (pool_free (of_nat hold) (hp_nodes h)) (\<lambda>nodes.
             Inr (h\<lparr>hp_nodes := nodes\<rparr>)))"

definition cluster_free :: "nat \<Rightarrow> heap \<Rightarrow> heap result" where
  "cluster_free this h =
     (if cl_type (node h this) = FREE then Inr h
      else
        let h = upd_node this (\<lambda>c. c\<lparr>cl_type := FREE\<rparr>) h
        in rbind
             (if cl_type (node h (cl_next (node h this))) = FREE \<and>
                 cluster_limit (node h this) \<noteq> cp_limit (hp_pools h (cl_parent (node h this)))
              then coalesce_next this h else Inr h)
             (\<lambda>h. if cl_type (node h (cl_prev (node h this))) = FREE \<and>
                     cl_next (node h this) \<noteq> cl_prev (node h this)
                  then coalesce_next (cl_prev (node h this)) h else Inr h))"

text \<open>
  The search loop of \<open>ClusterPool::allocate\<close>: \<open>Some (Some t)\<close> when cluster \<open>t\<close> fits,
  \<open>Some None\<close> when the search is back at the cursor, \<open>None\<close> when it never ends.
\<close>

partial_function (option) find_fit :: "heap \<Rightarrow> nat \<Rightarrow> u32 \<Rightarrow> nat \<Rightarrow> nat option option" where
  "find_fit h cursor req_size test =
     (if cl_type (node h test) = USED \<or> cl_size (node h test) < req_size
      then (if cl_next (node h test) = cursor then Some None
            else find_fit h cursor req_size (cl_next (node h test)))
      else Some (Some test))"

definition cp_unlock :: "nat \<Rightarrow> heap \<Rightarrow> heap" where
  "cp_unlock p h = upd_pool p (\<lambda>c. c\<lparr>cp_lock := lock_release (cp_lock c)\<rparr>) h"

definition clusterpool_allocate :: "nat \<Rightarrow> u32 \<Rightarrow> heap \<Rightarrow> (u32 \<times> heap) result" where
  "clusterpool_allocate this req_size h =
     rbind (lock_acquire (cp_lock (hp_pools h this))) (\<lambda>l.
       let h = upd_pool this (\<lambda>c. c\<lparr>cp_lock := l\<rparr>) h;
           cp = hp_pools h this
       in if cp_size cp < cp_bytes_used cp + req_size then Inr (0, cp_unlock this h)
          else case find_fit h (cp_cursor cp) req_size (cp_cursor cp) of
            None \<Rightarrow> Inl Diverges
          | Some None \<Rightarrow> Inr (0, cp_unlock this h)
          | Some (Some test) \<Rightarrow>
              let h = upd_pool this (\<lambda>c. c\<lparr>cp_bytes_used := cp_bytes_used c + req_size\<rparr>) h
              in rbind
                   (if cl_size (node h test) = req_size
                    then let h = upd_node test (\<lambda>c. c\<lparr>cl_type := USED\<rparr>) h
                         in Inr (cl_start (node h test), h)
                    else splituse test req_size h)
                   (\<lambda>(rt, h). Inr (rt, cp_unlock this (upd_pool this (\<lambda>c. c\<lparr>cp_cursor := test\<rparr>) h))))"

text \<open>The search of \<open>ClusterPool::free\<close>, which walks the ring backwards from the cursor.\<close>

partial_function (option) find_start :: "heap \<Rightarrow> nat \<Rightarrow> u32 \<Rightarrow> nat \<Rightarrow> nat option option" where
  "find_start h cursor address candidate =
     (if cl_start (node h candidate) = address then Some (Some candidate)
      else if cl_prev (node h candidate) \<noteq> cursor
        then find_start h cursor address (cl_prev (node h candidate))
      else Some None)"

definition clusterpool_free :: "nat \<Rightarrow> u32 \<Rightarrow> heap \<Rightarrow> heap result" where
  "clusterpool_free this address h =
     rbind (lock_acquire (cp_lock (hp_pools h this))) (\<lambda>l.
       let h = upd_pool this (\<lambda>c. c\<lparr>cp_lock := l\<rparr>) h;
           cursor = cp_cursor (hp_pools h this)
       in case find_start h cursor address cursor of
            None \<Rightarrow> Inl Diverges
          | Some None \<Rightarrow> Inr (cp_unlock this h)
          | Some (Some candidate) \<Rightarrow>
              let c = node h candidate;
                  h = upd_pool this (\<lambda>p. p\<lparr>cp_cursor := cl_prev c\<rparr>) h;
                  h = upd_pool this (\<lambda>p. p\<lparr>cp_bytes_used := cp_bytes_used p - cl_size c\<rparr>) h
              in rbind (cluster_free candidate h) (\<lambda>h. Inr (cp_unlock this h)))"

section \<open>Invariant\<close>

abbreviation nx :: "heap \<Rightarrow> nat \<Rightarrow> nat" where
  "nx h \<equiv> \<lambda>i. cl_next (node h i)"

abbreviation pv :: "heap \<Rightarrow> nat \<Rightarrow> nat" where
  "pv h \<equiv> \<lambda>i. cl_prev (node h i)"

text \<open>The clusters of a list lie side by side and fill the addresses from \<open>a\<close> to \<open>b\<close>.\<close>

fun tiled :: "(nat \<Rightarrow> cluster) \<Rightarrow> nat \<Rightarrow> nat list \<Rightarrow> nat \<Rightarrow> bool" where
  "tiled f a [] b \<longleftrightarrow> a = b"
| "tiled f a (x # xs) b \<longleftrightarrow>
     unat (cl_start (f x)) = a \<and> tiled f (a + unat (cl_size (f x))) xs b"

definition used_bytes :: "(nat \<Rightarrow> cluster) \<Rightarrow> nat list \<Rightarrow> nat" where
  "used_bytes f xs = sum_list (map (\<lambda>x. if cl_type (f x) = USED then unat (cl_size (f x)) else 0) xs)"

text \<open>
  \<open>shape p xs h\<close>: the clusters of pool \<open>p\<close> in heap \<open>h\<close> are \<open>xs\<close>, in address order; their
  records are live entries of the node pool, linked in a ring, and they fill the pool's region.
\<close>

definition shape :: "nat \<Rightarrow> nat list \<Rightarrow> heap \<Rightarrow> bool" where
  "shape p xs h \<longleftrightarrow>
     pool_inv (hp_nodes h) \<and> set xs \<subseteq> pool_used (hp_nodes h) \<and> ring (nx h) (pv h) xs \<and>
     (\<forall>x \<in> set xs. cl_parent (node h x) = p \<and> 0 < unat (cl_size (node h x))) \<and>
     {x \<in> pool_used (hp_nodes h). cl_parent (node h x) = p} \<subseteq> set xs \<and>
     0 < unat (cp_start (hp_pools h p)) \<and>
     unat (cp_start (hp_pools h p)) + unat (cp_size (hp_pools h p)) < 2 ^ 32 \<and>
     tiled (node h) (unat (cp_start (hp_pools h p))) xs
       (unat (cp_start (hp_pools h p)) + unat (cp_size (hp_pools h p)))"

text \<open>
  The invariant between operations: in addition the lock is free, the cursor is one of the
  clusters and the byte count is that of the used clusters.
\<close>

definition heap_inv :: "nat \<Rightarrow> nat list \<Rightarrow> heap \<Rightarrow> bool" where
  "heap_inv p xs h \<longleftrightarrow>
     shape p xs h \<and> lock_free (cp_lock (hp_pools h p)) \<and> cp_cursor (hp_pools h p) \<in> set xs \<and>
     unat (cp_bytes_used (hp_pools h p)) = used_bytes (node h) xs"

text \<open>What the clients see: the allocated blocks, as start address and length.\<close>

definition blocks :: "(nat \<Rightarrow> cluster) \<Rightarrow> nat list \<Rightarrow> (nat \<times> nat) set" where
  "blocks f xs = {(unat (cl_start (f x)), unat (cl_size (f x))) | x. x \<in> set xs \<and> cl_type (f x) = USED}"

section \<open>Updates\<close>

lemma upd_node_simps [simp]:
  "node (upd_node i f h) = (node h)(i := f (node h i))"
  "hp_cps (upd_node i f h) = hp_cps h"
  "pool_inv (hp_nodes (upd_node i f h)) = pool_inv (hp_nodes h)"
  "pool_used (hp_nodes (upd_node i f h)) = pool_used (hp_nodes h)"
  "pool_cap (hp_nodes (upd_node i f h)) = pool_cap (hp_nodes h)"
  by (simp_all add: upd_node_def pool_inv_def pool_used_def pool_cap_def)

lemma upd_pool_simps [simp]:
  "hp_nodes (upd_pool p f h) = hp_nodes h"
  "hp_pools (upd_pool p f h) = (hp_pools h)(p := f (hp_pools h p))"
  by (simp_all add: upd_pool_def)

lemma cp_unlock_simps [simp]:
  "hp_nodes (cp_unlock p h) = hp_nodes h"
  "lock_free (cp_lock (hp_pools (cp_unlock p h) p))"
  "cp_cursor (hp_pools (cp_unlock p h) p) = cp_cursor (hp_pools h p)"
  "cp_start (hp_pools (cp_unlock p h) p) = cp_start (hp_pools h p)"
  "cp_size (hp_pools (cp_unlock p h) p) = cp_size (hp_pools h p)"
  "cp_bytes_used (hp_pools (cp_unlock p h) p) = cp_bytes_used (hp_pools h p)"
  by (simp_all add: cp_unlock_def)

text \<open>The heap inside the critical section of pool \<open>p\<close>.\<close>

definition cp_locked :: "nat \<Rightarrow> heap \<Rightarrow> heap" where
  "cp_locked p h =
     upd_pool p (\<lambda>c. c\<lparr>cp_lock := (cp_lock (hp_pools h p))\<lparr>lk_status := LOCKED\<rparr>\<rparr>) h"

lemma cp_locked_simps [simp]:
  "hp_nodes (cp_locked p h) = hp_nodes h"
  "cp_cursor (hp_pools (cp_locked p h) p) = cp_cursor (hp_pools h p)"
  "cp_start (hp_pools (cp_locked p h) p) = cp_start (hp_pools h p)"
  "cp_size (hp_pools (cp_locked p h) p) = cp_size (hp_pools h p)"
  "cp_bytes_used (hp_pools (cp_locked p h) p) = cp_bytes_used (hp_pools h p)"
  by (simp_all add: cp_locked_def)

lemma shape_cong:
  assumes "hp_nodes h' = hp_nodes h" "cp_start (hp_pools h' p) = cp_start (hp_pools h p)"
    "cp_size (hp_pools h' p) = cp_size (hp_pools h p)"
  shows "shape p xs h' = shape p xs h"
  using assms by (simp add: shape_def)

section \<open>Tilings\<close>

lemma tiled_append:
  "tiled f a (xs @ ys) b \<longleftrightarrow> (\<exists>m. tiled f a xs m \<and> tiled f m ys b)"
  by (induction xs arbitrary: a) auto

lemma tiled_cong:
  "(\<And>x. x \<in> set xs \<Longrightarrow> cl_start (f x) = cl_start (g x) \<and> cl_size (f x) = cl_size (g x)) \<Longrightarrow>
     tiled f a xs b = tiled g a xs b"
  by (induction xs arbitrary: a) auto

lemma tiled_sum: "tiled f a xs b \<Longrightarrow> b = a + sum_list (map (\<lambda>x. unat (cl_size (f x))) xs)"
proof (induction xs arbitrary: a)
  case (Cons x xs)
  from Cons.IH [of "a + unat (cl_size (f x))"] Cons.prems show ?case by simp
qed simp

lemma tiled_within:
  "tiled f a xs b \<Longrightarrow> x \<in> set xs \<Longrightarrow>
     a \<le> unat (cl_start (f x)) \<and> unat (cl_start (f x)) + unat (cl_size (f x)) \<le> b"
proof -
  assume t: "tiled f a xs b" and "x \<in> set xs"
  then obtain us vs where "xs = us @ x # vs" by (meson split_list)
  with t obtain m where m: "tiled f a us m" "unat (cl_start (f x)) = m"
    "tiled f (m + unat (cl_size (f x))) vs b"
    by (auto simp: tiled_append)
  from tiled_sum [OF m(1)] tiled_sum [OF m(3)] m(2) show ?thesis by simp
qed

text \<open>Two different clusters of a tiling do not overlap.\<close>

lemma tiled_disjoint:
  assumes t: "tiled f a xs b" and xy: "x \<in> set xs" "y \<in> set xs" "x \<noteq> y"
  shows "unat (cl_start (f x)) + unat (cl_size (f x)) \<le> unat (cl_start (f y)) \<or>
    unat (cl_start (f y)) + unat (cl_size (f y)) \<le> unat (cl_start (f x))"
proof -
  from xy(1) obtain us vs where xs: "xs = us @ x # vs" by (meson split_list)
  with t obtain m where m: "tiled f a us m" "unat (cl_start (f x)) = m"
    "tiled f (m + unat (cl_size (f x))) vs b"
    by (auto simp: tiled_append)
  from xs xy consider "y \<in> set us" | "y \<in> set vs" by auto
  then show ?thesis
    using tiled_within [OF m(1)] tiled_within [OF m(3)] m(2) by cases auto
qed

lemma tiled_start_inj:
  assumes "tiled f a xs b" "\<forall>x \<in> set xs. 0 < unat (cl_size (f x))"
    "x \<in> set xs" "y \<in> set xs" "cl_start (f x) = cl_start (f y)"
  shows "x = y"
  using tiled_disjoint [OF assms(1,3,4)] assms(2-5) by fastforce

lemma shape_limit:
  assumes "shape p xs h" "x \<in> set xs"
  shows "unat (cluster_limit (node h x)) = unat (cl_start (node h x)) + unat (cl_size (node h x))"
    "unat (cp_limit (hp_pools h p)) = unat (cp_start (hp_pools h p)) + unat (cp_size (hp_pools h p))"
proof -
  from assms have "unat (cl_start (node h x)) + unat (cl_size (node h x)) < 2 ^ 32"
    "unat (cp_start (hp_pools h p)) + unat (cp_size (hp_pools h p)) < 2 ^ 32"
    using tiled_within [of "node h" _ xs _ x] by (fastforce simp: shape_def)+
  then show "unat (cluster_limit (node h x)) = unat (cl_start (node h x)) + unat (cl_size (node h x))"
    "unat (cp_limit (hp_pools h p)) = unat (cp_start (hp_pools h p)) + unat (cp_size (hp_pools h p))"
    by (auto intro!: unat_eqI simp: cluster_limit_def cp_limit_def)
qed

section \<open>Searches\<close>

definition fits :: "heap \<Rightarrow> u32 \<Rightarrow> nat \<Rightarrow> bool" where
  "fits h req x \<longleftrightarrow> cl_type (node h x) = FREE \<and> req \<le> cl_size (node h x)"

lemma use_not_USED [simp]: "t \<noteq> USED \<longleftrightarrow> t = FREE" "t \<noteq> FREE \<longleftrightarrow> t = USED"
  by (cases t; simp)+

lemma find_fit_ring:
  "ring (nx h) (pv h) (us @ t # vs) \<Longrightarrow> cursor = hd (us @ [t]) \<Longrightarrow>
     find_fit h cursor req t = Some (List.find (fits h req) (t # vs))"
proof (induction vs arbitrary: us t)
  case Nil
  have "nx h t = cursor"
  proof (cases us)
    case Nil
    with Nil.prems show ?thesis by (simp add: ring_self)
  next
    case (Cons a us')
    with Nil.prems ring_wrap [of "nx h" "pv h" a "us' @ [t]"] show ?thesis by simp
  qed
  then show ?case
    by (subst find_fit.simps) (auto simp: fits_def not_less)
next
  case (Cons v vs)
  from Cons.prems(1) have v: "nx h t = v" "v \<notin> set (us @ [t])"
    using ring_next [of "nx h" "pv h" us t v vs] ring_distinct by fastforce+
  have "cursor \<in> set (us @ [t])" using Cons.prems(2) by (cases us) auto
  then have "v \<noteq> cursor" using v(2) by blast
  moreover have "find_fit h cursor req v = Some (List.find (fits h req) (v # vs))"
    using Cons.prems by (intro Cons.IH [of "us @ [t]"]) (auto simp: hd_append)
  ultimately show ?case
    using v(1) by (subst find_fit.simps) (auto simp: fits_def not_less)
qed

lemma find_start_ring:
  "ring (nx h) (pv h) (rev (us @ t # vs)) \<Longrightarrow> cursor = hd (us @ [t]) \<Longrightarrow>
     find_start h cursor addr t = Some (List.find (\<lambda>x. cl_start (node h x) = addr) (t # vs))"
proof (induction vs arbitrary: us t)
  case Nil
  have "pv h t = cursor"
    using Nil.prems ring_wrap [of "nx h" "pv h" t "rev us"] by (cases us) auto
  then show ?case
    by (subst find_start.simps) auto
next
  case (Cons v vs)
  from Cons.prems(1) have v: "pv h t = v" "v \<notin> set (us @ [t])"
    using ring_next [of "nx h" "pv h" "rev vs" v t "rev us"] ring_distinct by fastforce+
  have "cursor \<in> set (us @ [t])" using Cons.prems(2) by (cases us) auto
  then have "v \<noteq> cursor" using v(2) by blast
  moreover have "find_start h cursor addr v =
      Some (List.find (\<lambda>x. cl_start (node h x) = addr) (v # vs))"
    using Cons.prems by (intro Cons.IH [of "us @ [t]"]) (auto simp: hd_append)
  ultimately show ?case
    using v(1) by (subst find_start.simps) auto
qed

lemma find_fit_total:
  assumes "ring (nx h) (pv h) xs" "c \<in> set xs"
  obtains (fit) t where "find_fit h c req c = Some (Some t)" "t \<in> set xs" "fits h req t"
    | (none) "find_fit h c req c = Some None" "\<forall>x \<in> set xs. \<not> fits h req x"
proof -
  from assms obtain us vs where xs: "xs = us @ c # vs" "ring (nx h) (pv h) (c # vs @ us)"
    by (rule ring_at)
  from find_fit_ring [of h "[]" c "vs @ us" c req] xs(2)
  have *: "find_fit h c req c = Some (List.find (fits h req) (c # vs @ us))" by simp
  have **: "set xs = set (c # vs @ us)" using xs(1) by auto
  show thesis
  proof (cases "List.find (fits h req) (c # vs @ us)")
    case None
    with * ** none show thesis by (simp only: find_None_iff) blast
  next
    case (Some t)
    then have "t \<in> set (c # vs @ us)" "fits h req t"
      by (metis find_Some_iff nth_mem)+
    with * ** Some fit show thesis by simp
  qed
qed

lemma find_start_total:
  assumes "ring (nx h) (pv h) xs" "c \<in> set xs"
  obtains (here) t where "find_start h c addr c = Some (Some t)" "t \<in> set xs" "cl_start (node h t) = addr"
    | (none) "find_start h c addr c = Some None" "\<forall>x \<in> set xs. cl_start (node h x) \<noteq> addr"
proof -
  let ?p = "\<lambda>x. cl_start (node h x) = addr"
  from assms(2) obtain us vs where xs: "xs = us @ c # vs" by (meson split_list)
  with assms(1) ring_rotate [of "nx h" "pv h" "us @ [c]" vs]
  have "ring (nx h) (pv h) (rev (c # rev us @ rev vs))" by simp
  from find_start_ring [of h "[]" c "rev us @ rev vs" c addr] this
  have *: "find_start h c addr c = Some (List.find ?p (c # rev us @ rev vs))" by simp
  have **: "set xs = set (c # rev us @ rev vs)" using xs by auto
  show thesis
  proof (cases "List.find ?p (c # rev us @ rev vs)")
    case None
    with * ** none show thesis by (simp only: find_None_iff) blast
  next
    case (Some t)
    then have "t \<in> set (c # rev us @ rev vs)" "?p t"
      by (metis (mono_tags, lifting) find_Some_iff nth_mem)+
    with * ** Some here show thesis by simp
  qed
qed

section \<open>Splitting and merging clusters\<close>

lemma shapeD:
  assumes "shape p xs h"
  shows "pool_inv (hp_nodes h)" "set xs \<subseteq> pool_used (hp_nodes h)" "ring (nx h) (pv h) xs"
    "\<And>x. x \<in> set xs \<Longrightarrow> cl_parent (node h x) = p"
    "\<And>x. x \<in> set xs \<Longrightarrow> 0 < unat (cl_size (node h x))"
    "0 < unat (cp_start (hp_pools h p))"
    "unat (cp_start (hp_pools h p)) + unat (cp_size (hp_pools h p)) < 2 ^ 32"
    "tiled (node h) (unat (cp_start (hp_pools h p))) xs
       (unat (cp_start (hp_pools h p)) + unat (cp_size (hp_pools h p)))"
    "{x \<in> pool_used (hp_nodes h). cl_parent (node h x) = p} \<subseteq> set xs"
  using assms by (simp_all add: shape_def)

lemma tiled_split:
  assumes "tiled f a (us @ t # vs) b" "n \<notin> set (us @ t # vs)" "distinct (us @ t # vs)"
    "cl_start (g t) = cl_start (f t)" "unat (cl_size (g t)) + unat (cl_size (g n)) = unat (cl_size (f t))"
    "unat (cl_start (g n)) = unat (cl_start (f t)) + unat (cl_size (g t))"
    "\<And>x. x \<noteq> t \<Longrightarrow> x \<noteq> n \<Longrightarrow> cl_start (g x) = cl_start (f x) \<and> cl_size (g x) = cl_size (f x)"
  shows "tiled g a (us @ t # n # vs) b"
proof -
  from assms(1) obtain m where m: "tiled f a us m" "unat (cl_start (f t)) = m"
    "tiled f (m + unat (cl_size (f t))) vs b" by (auto simp: tiled_append)
  have "tiled g a us m" "tiled g (m + unat (cl_size (f t))) vs b"
    using m assms(2,3,7) by (subst tiled_cong [where g = f]; fastforce)+
  then show ?thesis
    using assms(4-6) m(2) by (auto simp: tiled_append add.assoc intro!: exI [of _ m])
qed

lemma tiled_merge:
  assumes "tiled f a (us @ t # n # vs) b" "distinct (us @ t # n # vs)"
    "cl_start (g t) = cl_start (f t)" "unat (cl_size (g t)) = unat (cl_size (f t)) + unat (cl_size (f n))"
    "\<And>x. x \<noteq> t \<Longrightarrow> x \<noteq> n \<Longrightarrow> cl_start (g x) = cl_start (f x) \<and> cl_size (g x) = cl_size (f x)"
  shows "tiled g a (us @ t # vs) b"
proof -
  from assms(1) obtain m where m: "tiled f a us m" "unat (cl_start (f t)) = m"
    "tiled f (m + unat (cl_size (f t)) + unat (cl_size (f n))) vs b" by (auto simp: tiled_append)
  have "tiled g a us m" "tiled g (m + unat (cl_size (f t)) + unat (cl_size (f n))) vs b"
    using m assms(2,5) by (subst tiled_cong [where g = f]; fastforce)+
  then show ?thesis
    using assms(3,4) m(2) by (auto simp: tiled_append add.assoc intro!: exI [of _ m])
qed

text \<open>What \<open>splituse\<close> writes, when the node pool has a free entry \<open>n\<close>.\<close>

lemma splituse_run:
  assumes alloc: "pool_allocate (hp_nodes h) = Inr (of_nat n, nodes)" "n < pool_cap (hp_nodes h)"
      "datamap nodes = node h"
    and tn: "t \<noteq> n" "nx h t \<noteq> n"
  obtains h' where "splituse t req h = Inr (cl_start (node h' n), h')" "hp_pools h' = hp_pools h"
    "pool_inv (hp_nodes h') = pool_inv nodes" "pool_used (hp_nodes h') = pool_used nodes"
    "\<And>x. node h' x = (if x = n then \<lparr>cl_parent = cl_parent (node h t),
        cl_start = cl_start (node h t) + (cl_size (node h t) - req), cl_size = req,
        cl_next = nx h t, cl_prev = t, cl_type = USED\<rparr>
      else if x = t then (node h t)\<lparr>cl_size := cl_size (node h t) - req, cl_next := n,
        cl_prev := (if nx h t = t then n else pv h t)\<rparr>
      else if x = nx h t then (node h x)\<lparr>cl_prev := n\<rparr> else node h x)"
proof -
  note n = of_nat_less_cap [OF alloc(2)]
  define h1 where "h1 = upd_node t (\<lambda>c. c\<lparr>cl_size := cl_size c - req\<rparr>) (h\<lparr>hp_nodes := nodes\<rparr>)"
  define t1 where "t1 = node h1 t"
  define h2 where "h2 = upd_node n (\<lambda>_. \<lparr>cl_parent = cl_parent t1, cl_start = cluster_limit t1,
    cl_size = req, cl_next = cl_next t1, cl_prev = t, cl_type = USED\<rparr>) h1"
  define h3 where "h3 = upd_node (cl_next (node h2 t)) (\<lambda>c. c\<lparr>cl_prev := n\<rparr>) h2"
  define h' where "h' = upd_node t (\<lambda>c. c\<lparr>cl_next := n\<rparr>) h3"
  note defs = h'_def h3_def h2_def t1_def h1_def
  have "splituse t req h = Inr (cl_start (node h' n), h')"
    unfolding splituse_def alloc(1) rbind_Inr Let_def prod.case n defs
    by (simp only: n if_False)
  then show thesis
    by (rule that) (use tn in \<open>auto simp: defs alloc(3) cluster_limit_def\<close>)
qed

text \<open>
  Splitting cluster \<open>t\<close>: a new cluster \<open>n\<close> follows it, used, of the requested size, cut from
  its end.
\<close>

lemma splituse_shape:
  assumes sh: "shape p (us @ t # vs) h" and free: "cl_type (node h t) = FREE"
    and req: "0 < unat req" "unat req < unat (cl_size (node h t))"
    and room: "card (pool_used (hp_nodes h)) < pool_cap (hp_nodes h)"
  obtains n h' where "splituse t req h = Inr (cl_start (node h' n), h')"
    "shape p (us @ t # n # vs) h'" "hp_pools h' = hp_pools h" "n \<notin> set (us @ t # vs)"
    "cl_type (node h' n) = USED" "cl_size (node h' n) = req"
    "cl_start (node h' t) = cl_start (node h t)" "cl_type (node h' t) = FREE"
    "unat (cl_size (node h' t)) = unat (cl_size (node h t)) - unat req"
    "\<And>x. x \<noteq> t \<Longrightarrow> x \<noteq> n \<Longrightarrow> cl_start (node h' x) = cl_start (node h x) \<and>
       cl_size (node h' x) = cl_size (node h x) \<and> cl_type (node h' x) = cl_type (node h x)"
proof -
  note sd = shapeD [OF sh]
  from sd(1) obtain n nodes where
    alloc: "pool_allocate (hp_nodes h) = Inr (of_nat n, nodes)" "n < pool_cap (hp_nodes h)"
      "n \<notin> pool_used (hp_nodes h)" "pool_inv nodes"
      "pool_used nodes = insert n (pool_used (hp_nodes h))" "datamap nodes = node h"
    by (cases rule: pool_allocate_cases) (use room in auto)
  from alloc(3) sd(2) have nxs: "n \<notin> set (us @ t # vs)" by blast
  then have tn: "t \<noteq> n" and nn: "nx h t \<noteq> n"
    using ring_next_in [OF sd(3), of t] by auto
  from alloc(1,2,6) tn nn obtain h' where run: "splituse t req h = Inr (cl_start (node h' n), h')"
    and pools: "hp_pools h' = hp_pools h" and inv: "pool_inv (hp_nodes h') = pool_inv nodes"
      "pool_used (hp_nodes h') = pool_used nodes"
    and nodes: "\<And>x. node h' x = (if x = n then \<lparr>cl_parent = cl_parent (node h t),
        cl_start = cl_start (node h t) + (cl_size (node h t) - req), cl_size = req,
        cl_next = nx h t, cl_prev = t, cl_type = USED\<rparr>
      else if x = t then (node h t)\<lparr>cl_size := cl_size (node h t) - req, cl_next := n,
        cl_prev := (if nx h t = t then n else pv h t)\<rparr>
      else if x = nx h t then (node h x)\<lparr>cl_prev := n\<rparr> else node h x)"
    by (rule splituse_run) blast
  have sub: "unat (cl_size (node h t) - req) = unat (cl_size (node h t)) - unat req"
    using req(2) by (simp add: unat_sub_if')
  have "unat (cl_start (node h t)) + unat (cl_size (node h t)) < 2 ^ 32"
    using tiled_within [OF sd(8), of t] sd(7) by simp
  then have lim: "unat (cl_start (node h t) + (cl_size (node h t) - req)) =
      unat (cl_start (node h t)) + (unat (cl_size (node h t)) - unat req)"
    using sub by (intro unat_eqI) (simp flip: sub, simp)
  have "nx h' = (nx h)(t := n, n := nx h t)" "pv h' = (pv h)(n := t, nx h t := n)"
    using tn nn by (auto simp: nodes fun_eq_iff)
  with ring_insert [OF sd(3) nxs] have "ring (nx h') (pv h') (us @ t # n # vs)" by simp
  moreover have "tiled (node h') (unat (cp_start (hp_pools h p))) (us @ t # n # vs)
      (unat (cp_start (hp_pools h p)) + unat (cp_size (hp_pools h p)))"
    by (rule tiled_split [OF sd(8) nxs ring_distinct [OF sd(3)]])
      (use tn req sub lim in \<open>auto simp: nodes\<close>)
  moreover have "\<forall>x \<in> set (us @ t # n # vs). cl_parent (node h' x) = p \<and> 0 < unat (cl_size (node h' x))"
    using sd(4,5) req sub by (auto simp: nodes)
  moreover have "{x \<in> pool_used (hp_nodes h'). cl_parent (node h' x) = p} \<subseteq> set (us @ t # n # vs)"
    using sd(9) alloc(5) inv by (auto simp: nodes)
  ultimately have "shape p (us @ t # n # vs) h'"
    using sd(2,6,7) alloc(4,5) inv pools by (auto simp: shape_def)
  then show thesis
    by (rule that [OF run]) (use nxs tn free sub pools in \<open>auto simp: nodes\<close>)
qed

text \<open>Merging cluster \<open>b\<close> into its predecessor \<open>a\<close>.\<close>

lemma coalesce_next_run:
  assumes ab: "nx h a = b" "b \<noteq> a" and b: "b \<in> pool_used (hp_nodes h)" and inv: "pool_inv (hp_nodes h)"
    and c: "nx h b \<noteq> b"
  obtains h' where "coalesce_next a h = Inr h'" "hp_pools h' = hp_pools h"
    "pool_inv (hp_nodes h')" "pool_used (hp_nodes h') = pool_used (hp_nodes h) - {b}"
    "pool_cap (hp_nodes h') = pool_cap (hp_nodes h)"
    "\<And>x. node h' x = (if x = a then (node h a)\<lparr>cl_size := cl_size (node h a) + cl_size (node h b),
        cl_next := nx h b, cl_prev := (if nx h b = a then a else pv h a)\<rparr>
      else if x = nx h b then (node h x)\<lparr>cl_prev := a\<rparr> else node h x)"
proof -
  define h1 where "h1 = upd_node a (\<lambda>c. c\<lparr>cl_size := cl_size c + cl_size (node h b)\<rparr>) h"
  define h2 where "h2 = upd_node a (\<lambda>c. c\<lparr>cl_next := cl_next (node h1 (cl_next (node h1 a)))\<rparr>) h1"
  define h3 where "h3 = upd_node (cl_next (node h2 a)) (\<lambda>c. c\<lparr>cl_prev := a\<rparr>) h2"
  note defs = h3_def h2_def h1_def
  have cap: "b < pool_cap (hp_nodes h)" using b by (simp add: pool_used_def)
  have "pool_inv (hp_nodes h3)" "unat (of_nat b :: u32) < pool_cap (hp_nodes h3)"
    using inv cap of_nat_less_cap [OF cap] by (simp_all add: defs)
  from pool_free_used [OF this] obtain nodes where
    nodes: "pool_free (of_nat b) (hp_nodes h3) = Inr nodes" "pool_inv nodes"
      "pool_used nodes = pool_used (hp_nodes h) - {b}" "pool_cap nodes = pool_cap (hp_nodes h)"
      "datamap nodes = node h3"
    using of_nat_less_cap [OF cap] by (auto simp: defs)
  have "coalesce_next a h = Inr (h3\<lparr>hp_nodes := nodes\<rparr>)"
    using ab nodes(1) by (simp add: coalesce_next_def Let_def defs)
  then show thesis
    by (rule that) (use ab c nodes in \<open>auto simp: defs\<close>)
qed

lemma coalesce_next_shape:
  assumes sh: "shape p (us @ a # b # vs) h"
  obtains h' where "coalesce_next a h = Inr h'" "shape p (us @ a # vs) h'" "hp_pools h' = hp_pools h"
    "cl_start (node h' a) = cl_start (node h a)" "cl_type (node h' a) = cl_type (node h a)"
    "unat (cl_size (node h' a)) = unat (cl_size (node h a)) + unat (cl_size (node h b))"
    "\<And>x. x \<noteq> a \<Longrightarrow> cl_start (node h' x) = cl_start (node h x) \<and>
       cl_size (node h' x) = cl_size (node h x) \<and> cl_type (node h' x) = cl_type (node h x)"
proof -
  note sd = shapeD [OF sh]
  note d = ring_distinct [OF sd(3)]
  have ab: "nx h a = b" "b \<noteq> a" using ring_next [OF sd(3)] d by auto
  have c: "nx h b \<noteq> b" using ring_next_self [OF sd(3), of b] by auto
  have b: "b \<in> pool_used (hp_nodes h)" using sd(2) by auto
  from ab b sd(1) c obtain h' where run: "coalesce_next a h = Inr h'" and pools: "hp_pools h' = hp_pools h"
    and inv: "pool_inv (hp_nodes h')" "pool_used (hp_nodes h') = pool_used (hp_nodes h) - {b}"
    and nodes: "\<And>x. node h' x = (if x = a then (node h a)\<lparr>cl_size := cl_size (node h a) + cl_size (node h b),
        cl_next := nx h b, cl_prev := (if nx h b = a then a else pv h a)\<rparr>
      else if x = nx h b then (node h x)\<lparr>cl_prev := a\<rparr> else node h x)"
    by (rule coalesce_next_run) blast
  have "unat (cl_start (node h a)) + unat (cl_size (node h a)) + unat (cl_size (node h b)) < 2 ^ 32"
    using sd(7,8) tiled_within [OF sd(8), of b] by (auto simp: tiled_append)
  then have add: "unat (cl_size (node h a) + cl_size (node h b)) =
      unat (cl_size (node h a)) + unat (cl_size (node h b))"
    by (intro unat_eqI) simp_all
  have "nx h' = (nx h)(a := nx h b)" "pv h' = (pv h)(nx h b := a)"
    using c by (auto simp: nodes fun_eq_iff)
  with ring_remove [OF sd(3)] have "ring (nx h') (pv h') (us @ a # vs)" by simp
  moreover have "tiled (node h') (unat (cp_start (hp_pools h p))) (us @ a # vs)
      (unat (cp_start (hp_pools h p)) + unat (cp_size (hp_pools h p)))"
    by (rule tiled_merge [OF sd(8) d]) (use ab add in \<open>auto simp: nodes\<close>)
  moreover have "\<forall>x \<in> set (us @ a # vs). cl_parent (node h' x) = p \<and> 0 < unat (cl_size (node h' x))"
    using sd(4,5) add by (auto simp: nodes)
  moreover have "{x \<in> pool_used (hp_nodes h'). cl_parent (node h' x) = p} \<subseteq> set (us @ a # vs)"
    using sd(9) inv(2) by (auto simp: nodes split: if_splits)
  ultimately have "shape p (us @ a # vs) h'"
    using sd(2,6,7) d inv pools by (auto simp: shape_def)
  then show thesis
    by (rule that [OF run]) (use add pools in \<open>auto simp: nodes\<close>)
qed

section \<open>Accounting\<close>

lemma used_bytes_simps [simp]:
  "used_bytes f [] = 0"
  "used_bytes f (x # xs) = (if cl_type (f x) = USED then unat (cl_size (f x)) else 0) + used_bytes f xs"
  "used_bytes f (xs @ ys) = used_bytes f xs + used_bytes f ys"
  by (simp_all add: used_bytes_def)

lemma used_bytes_cong:
  "(\<And>x. x \<in> set xs \<Longrightarrow> cl_type (f x) = cl_type (g x) \<and> cl_size (f x) = cl_size (g x)) \<Longrightarrow>
     used_bytes f xs = used_bytes g xs"
  by (induction xs) auto

lemma blocks_simps [simp]:
  "blocks f [] = {}"
  "blocks f (x # xs) =
     (if cl_type (f x) = USED then insert (unat (cl_start (f x)), unat (cl_size (f x))) (blocks f xs)
      else blocks f xs)"
  "blocks f (xs @ ys) = blocks f xs \<union> blocks f ys"
  by (auto simp: blocks_def)

lemma blocks_cong:
  "(\<And>x. x \<in> set xs \<Longrightarrow> cl_type (f x) = cl_type (g x) \<and> cl_size (f x) = cl_size (g x) \<and>
      cl_start (f x) = cl_start (g x)) \<Longrightarrow> blocks f xs = blocks g xs"
  by (induction xs) auto

lemma used_free_bytes:
  "x \<in> set xs \<Longrightarrow> cl_type (f x) = FREE \<Longrightarrow>
     used_bytes f xs + unat (cl_size (f x)) \<le> sum_list (map (\<lambda>x. unat (cl_size (f x))) xs)"
proof (induction xs)
  case (Cons y xs)
  have "used_bytes f xs \<le> sum_list (map (\<lambda>x. unat (cl_size (f x))) xs)"
    by (induction xs) auto
  with Cons show ?case by (cases "x = y") auto
qed simp

lemma heap_invD:
  assumes "heap_inv p xs h"
  shows "shape p xs h" "lock_free (cp_lock (hp_pools h p))" "cp_cursor (hp_pools h p) \<in> set xs"
    "unat (cp_bytes_used (hp_pools h p)) = used_bytes (node h) xs"
  using assms by (simp_all add: heap_inv_def)

text \<open>When a free cluster is large enough, the check of the total does not reject the request.\<close>

lemma fits_total:
  assumes inv: "heap_inv p xs h" and x: "x \<in> set xs" "fits h req x"
  shows "unat (cp_bytes_used (hp_pools h p) + req) = unat (cp_bytes_used (hp_pools h p)) + unat req"
    "\<not> cp_size (hp_pools h p) < cp_bytes_used (hp_pools h p) + req"
proof -
  note sd = shapeD [OF heap_invD(1) [OF inv]]
  have "used_bytes (node h) xs + unat (cl_size (node h x)) \<le> unat (cp_size (hp_pools h p))"
    using used_free_bytes [of x xs "node h"] x tiled_sum [OF sd(8)] by (simp add: fits_def)
  then have le: "unat (cp_bytes_used (hp_pools h p)) + unat req \<le> unat (cp_size (hp_pools h p))"
    using x(2) heap_invD(4) [OF inv] by (simp add: fits_def word_le_nat_alt)
  then show sum: "unat (cp_bytes_used (hp_pools h p) + req) =
      unat (cp_bytes_used (hp_pools h p)) + unat req"
    using unat_u32_less [of "cp_size (hp_pools h p)"] by (intro unat_eqI) simp_all
  show "\<not> cp_size (hp_pools h p) < cp_bytes_used (hp_pools h p) + req"
    using le sum by (simp add: word_less_nat_alt)
qed

text \<open>Blocks of a tiling do not overlap, and lie inside the region.\<close>

lemma shape_blocks:
  assumes "shape p xs h"
  shows "separate (blocks (node h) xs)"
    "\<forall>(a, n) \<in> blocks (node h) xs. 0 < n \<and> unat (cp_start (hp_pools h p)) \<le> a \<and>
      a + n \<le> unat (cp_start (hp_pools h p)) + unat (cp_size (hp_pools h p))"
proof -
  note sd = shapeD [OF assms]
  show "separate (blocks (node h) xs)"
    using tiled_disjoint [OF sd(8)] unfolding separate_def blocks_def by fast
  show "\<forall>(a, n) \<in> blocks (node h) xs. 0 < n \<and> unat (cp_start (hp_pools h p)) \<le> a \<and>
      a + n \<le> unat (cp_start (hp_pools h p)) + unat (cp_size (hp_pools h p))"
    using tiled_within [OF sd(8)] sd(5) by (auto simp: blocks_def)
qed

section \<open>Allocation\<close>

text \<open>
  The two ways to use the cluster the search found: take it whole, or split it. Either way
  one block of the requested size is added, at an address where no block was.
\<close>

definition adds_block :: "nat \<Rightarrow> nat list \<Rightarrow> heap \<Rightarrow> nat list \<Rightarrow> heap \<Rightarrow> u32 \<Rightarrow> u32 \<Rightarrow> bool" where
  "adds_block p xs h xs' h' a n \<longleftrightarrow>
     shape p xs' h' \<and> hp_pools h' = hp_pools h \<and> set xs \<subseteq> set xs' \<and>
     used_bytes (node h') xs' = used_bytes (node h) xs + unat n \<and>
     blocks (node h') xs' = insert (unat a, unat n) (blocks (node h) xs) \<and>
     (unat a, unat n) \<notin> blocks (node h) xs"

lemma not_in_blocksI:
  assumes sh: "shape p xs' h'" and n: "n \<in> set xs'"
    and frame: "\<And>x. x \<in> set xs \<Longrightarrow> cl_type (node h x) = USED \<Longrightarrow>
      x \<in> set xs' \<and> x \<noteq> n \<and> cl_start (node h' x) = cl_start (node h x)"
  shows "(unat (cl_start (node h' n)), m) \<notin> blocks (node h) xs"
proof
  note sd = shapeD [OF sh]
  assume "(unat (cl_start (node h' n)), m) \<in> blocks (node h) xs"
  then obtain x where x: "x \<in> set xs" "cl_type (node h x) = USED"
      "cl_start (node h' n) = cl_start (node h x)"
    by (auto simp: blocks_def word_unat_eq_iff)
  with frame [of x] tiled_start_inj [OF sd(8) _ n, of x] sd(5) show False by auto
qed

lemma use_whole:
  assumes sh: "shape p xs h" and t: "t \<in> set xs" "cl_type (node h t) = FREE"
  shows "adds_block p xs h xs (upd_node t (\<lambda>c. c\<lparr>cl_type := USED\<rparr>) h)
    (cl_start (node h t)) (cl_size (node h t))"
proof -
  let ?h = "upd_node t (\<lambda>c. c\<lparr>cl_type := USED\<rparr>) h"
  obtain us vs where xs: "xs = us @ t # vs" using t(1) by (meson split_list)
  have d: "t \<notin> set us" "t \<notin> set vs" using ring_distinct [OF shapeD(3) [OF sh]] xs by auto
  have "nx ?h = nx h" "pv ?h = pv h" by (auto simp: fun_eq_iff)
  moreover have "tiled (node ?h) a ys b = tiled (node h) a ys b" for a ys b
    by (rule tiled_cong) auto
  ultimately have sh': "shape p xs ?h" using sh by (auto simp: shape_def)
  have "used_bytes (node ?h) us = used_bytes (node h) us" "used_bytes (node ?h) vs = used_bytes (node h) vs"
    using d by (auto intro!: used_bytes_cong)
  then have "used_bytes (node ?h) xs = used_bytes (node h) xs + unat (cl_size (node h t))"
    using t(2) by (simp add: xs)
  moreover have "blocks (node ?h) xs =
      insert (unat (cl_start (node h t)), unat (cl_size (node h t))) (blocks (node h) xs)"
    using t by (auto simp: blocks_def)
  moreover have "(unat (cl_start (node ?h t)), unat (cl_size (node h t))) \<notin> blocks (node h) xs"
    using t by (intro not_in_blocksI [OF sh']) auto
  ultimately show ?thesis using sh' by (simp add: adds_block_def)
qed

lemma use_split:
  assumes sh: "shape p xs h" and t: "t \<in> set xs" "cl_type (node h t) = FREE"
    and req: "0 < unat req" "unat req < unat (cl_size (node h t))"
    and room: "card (pool_used (hp_nodes h)) < pool_cap (hp_nodes h)"
  obtains rt h' xs' where "splituse t req h = Inr (rt, h')" "adds_block p xs h xs' h' rt req"
proof -
  obtain us vs where xs: "xs = us @ t # vs" using t(1) by (meson split_list)
  from splituse_shape [OF sh [unfolded xs] t(2) req room] obtain n h' where
    run: "splituse t req h = Inr (cl_start (node h' n), h')" "shape p (us @ t # n # vs) h'"
      "hp_pools h' = hp_pools h" "n \<notin> set xs" "cl_type (node h' n) = USED" "cl_size (node h' n) = req"
      "cl_type (node h' t) = FREE"
    and frame: "\<And>x. x \<noteq> t \<Longrightarrow> x \<noteq> n \<Longrightarrow> cl_start (node h' x) = cl_start (node h x) \<and>
       cl_size (node h' x) = cl_size (node h x) \<and> cl_type (node h' x) = cl_type (node h x)"
    unfolding xs by metis
  have d: "distinct (us @ t # n # vs)" by (rule ring_distinct [OF shapeD(3) [OF run(2)]])
  have keep: "cl_start (node h' x) = cl_start (node h x) \<and> cl_size (node h' x) = cl_size (node h x) \<and>
      cl_type (node h' x) = cl_type (node h x)" if "x \<in> set us \<union> set vs" for x
    using frame [of x] d that by auto
  then have "used_bytes (node h') us = used_bytes (node h) us" "used_bytes (node h') vs = used_bytes (node h) vs"
    by (auto intro!: used_bytes_cong)
  then have "used_bytes (node h') (us @ t # n # vs) = used_bytes (node h) xs + unat req"
    using run(5-7) t(2) by (simp add: xs)
  moreover have "blocks (node h') (us @ t # n # vs) =
      insert (unat (cl_start (node h' n)), unat req) (blocks (node h) xs)"
    using run(5-7) t(2) keep blocks_cong [of us "node h'" "node h"] blocks_cong [of vs "node h'" "node h"]
    by (simp add: xs)
  moreover have "(unat (cl_start (node h' n)), unat req) \<notin> blocks (node h) xs"
    using t(2) d keep by (intro not_in_blocksI [OF run(2)]) (auto simp: xs)
  ultimately have "adds_block p xs h (us @ t # n # vs) h' (cl_start (node h' n)) req"
    using run(2,3) by (auto simp: adds_block_def xs)
  with run(1) that show thesis by blast
qed

text \<open>The result of an allocation, when a free cluster is large enough.\<close>

lemma allocate_fit:
  assumes inv: "heap_inv p xs h" and x: "x \<in> set xs" "fits h req x" and req: "0 < unat req"
    and room: "card (pool_used (hp_nodes h)) < pool_cap (hp_nodes h)"
  obtains rt h' xs' where "clusterpool_allocate p req h = Inr (rt, h')" "heap_inv p xs' h'"
    "blocks (node h') xs' = insert (unat rt, unat req) (blocks (node h) xs)"
    "(unat rt, unat req) \<notin> blocks (node h) xs"
proof -
  note hd = heap_invD [OF inv]
  define h1 where "h1 = cp_locked p h"
  define h2 where "h2 = upd_pool p (\<lambda>c. c\<lparr>cp_bytes_used := cp_bytes_used c + req\<rparr>) h1"
  let ?c = "cp_cursor (hp_pools h p)"
  have "ring (nx h1) (pv h1) xs" using shapeD(3) [OF hd(1)] by (simp add: h1_def)
  then obtain t where find: "find_fit h1 ?c req ?c = Some (Some t)" and t: "t \<in> set xs" "fits h1 req t"
    by (rule find_fit_total [OF _ hd(3)]) (use x in \<open>auto simp: fits_def h1_def\<close>)
  have sh: "shape p xs h2" using hd(1) by (subst shape_cong [of _ h]) (simp_all add: h2_def h1_def)
  obtain rt h3 xs' where
    use: "(if cl_size (node h2 t) = req
      then let h = upd_node t (\<lambda>c. c\<lparr>cl_type := USED\<rparr>) h2 in Inr (cl_start (node h t), h)
      else splituse t req h2) = Inr (rt, h3)" and add: "adds_block p xs h2 xs' h3 rt req"
  proof (cases "cl_size (node h2 t) = req")
    case True
    with use_whole [OF sh t(1)] t(2) that show thesis by (simp add: fits_def h2_def Let_def)
  next
    case False
    with t(2) have "unat req < unat (cl_size (node h2 t))" "cl_type (node h2 t) = FREE"
      by (auto simp: fits_def h2_def word_le_nat_alt word_unat_eq_iff)
    with use_split [OF sh t(1) _ req] room False that show thesis by (auto simp: h2_def h1_def)
  qed
  define h' where "h' = cp_unlock p (upd_pool p (\<lambda>c. c\<lparr>cp_cursor := t\<rparr>) h3)"
  have "clusterpool_allocate p req h = Inr (rt, h')"
    using fits_total(2) [OF inv x] find use hd(2)
    by (auto simp: clusterpool_allocate_def cp_locked_def [symmetric] Let_def h1_def h2_def h'_def
        split: if_splits)
  moreover have "shape p xs' h'"
    using add by (subst shape_cong [of _ h3]) (simp_all add: h'_def adds_block_def)
  then have "heap_inv p xs' h'"
    using add fits_total(1) [OF inv x] hd(4) t(1)
    by (auto simp: heap_inv_def adds_block_def h'_def h2_def h1_def)
  ultimately show thesis
    by (rule that) (use add in \<open>auto simp: adds_block_def h'_def h2_def h1_def\<close>)
qed

lemma allocate_nofit:
  assumes inv: "heap_inv p xs h" and no: "\<forall>x \<in> set xs. \<not> fits h req x"
  obtains h' where "clusterpool_allocate p req h = Inr (0, h')" "heap_inv p xs h'"
    "hp_nodes h' = hp_nodes h"
proof -
  note hd = heap_invD [OF inv]
  define h1 where "h1 = cp_locked p h"
  let ?c = "cp_cursor (hp_pools h p)"
  have "ring (nx h1) (pv h1) xs" using shapeD(3) [OF hd(1)] by (simp add: h1_def)
  then have find: "find_fit h1 ?c req ?c = Some None"
    by (rule find_fit_total [OF _ hd(3), of _ req]) (use no in \<open>auto simp: fits_def h1_def\<close>)
  have "clusterpool_allocate p req h = Inr (0, cp_unlock p h1)"
    using find hd(2)
    by (simp add: clusterpool_allocate_def cp_locked_def [symmetric] Let_def h1_def)
  moreover have "shape p xs (cp_unlock p h1)"
    using hd(1) by (subst shape_cong [of _ h]) (simp_all add: h1_def)
  then have "heap_inv p xs (cp_unlock p h1)"
    using hd by (simp add: heap_inv_def h1_def)
  ultimately show thesis by (rule that) (simp add: h1_def)
qed

section \<open>Freeing\<close>

text \<open>A step that rearranges free clusters only: the blocks stay what they are.\<close>

definition same_blocks :: "nat \<Rightarrow> nat list \<Rightarrow> heap \<Rightarrow> nat list \<Rightarrow> heap \<Rightarrow> bool" where
  "same_blocks p xs h xs' h' \<longleftrightarrow>
     shape p xs' h' \<and> hp_pools h' = hp_pools h \<and> (\<forall>x. cl_type (node h' x) = cl_type (node h x)) \<and>
     used_bytes (node h') xs' = used_bytes (node h) xs \<and> blocks (node h') xs' = blocks (node h) xs"

lemma same_blocks_refl: "shape p xs h \<Longrightarrow> same_blocks p xs h xs h"
  by (simp add: same_blocks_def)

lemma same_blocks_trans:
  "same_blocks p xs h ys h' \<Longrightarrow> same_blocks p ys h' zs h'' \<Longrightarrow> same_blocks p xs h zs h''"
  by (simp add: same_blocks_def)

lemma merge_free:
  assumes sh: "shape p (us @ a # b # vs) h" and free: "cl_type (node h a) = FREE" "cl_type (node h b) = FREE"
  obtains h' where "coalesce_next a h = Inr h'" "same_blocks p (us @ a # b # vs) h (us @ a # vs) h'"
proof -
  from coalesce_next_shape [OF sh] obtain h' where run: "coalesce_next a h = Inr h'"
    "shape p (us @ a # vs) h'" "hp_pools h' = hp_pools h" "cl_type (node h' a) = cl_type (node h a)"
    and frame: "\<And>x. x \<noteq> a \<Longrightarrow> cl_start (node h' x) = cl_start (node h x) \<and>
       cl_size (node h' x) = cl_size (node h x) \<and> cl_type (node h' x) = cl_type (node h x)"
    by metis
  have d: "a \<notin> set us \<union> set vs" using ring_distinct [OF shapeD(3) [OF sh]] by auto
  then have keep: "cl_start (node h' x) = cl_start (node h x) \<and> cl_size (node h' x) = cl_size (node h x) \<and>
      cl_type (node h' x) = cl_type (node h x)" if "x \<in> set us \<union> set vs" for x
    using frame [of x] that by auto
  then have "used_bytes (node h') us = used_bytes (node h) us" "used_bytes (node h') vs = used_bytes (node h) vs"
    "blocks (node h') us = blocks (node h) us" "blocks (node h') vs = blocks (node h) vs"
    by (auto intro!: used_bytes_cong blocks_cong)
  moreover have "cl_type (node h' x) = cl_type (node h x)" for x
    using frame [of x] run(4) by (cases "x = a") auto
  ultimately have "same_blocks p (us @ a # b # vs) h (us @ a # vs) h'"
    using run(2-4) free by (simp add: same_blocks_def)
  with run(1) that show thesis by blast
qed

text \<open>The boundary test of \<open>Cluster::free\<close> recognises the last cluster of the region.\<close>

lemma limit_iff_last:
  assumes sh: "shape p (us @ c # vs) h"
  shows "cluster_limit (node h c) = cp_limit (hp_pools h p) \<longleftrightarrow> vs = []"
proof -
  note sd = shapeD [OF sh]
  from sd(8) have "tiled (node h) (unat (cl_start (node h c)) + unat (cl_size (node h c))) vs
      (unat (cp_start (hp_pools h p)) + unat (cp_size (hp_pools h p)))"
    by (auto simp: tiled_append)
  from tiled_sum [OF this]
  have sum: "unat (cp_limit (hp_pools h p)) = unat (cluster_limit (node h c)) +
      sum_list (map (\<lambda>x. unat (cl_size (node h x))) vs)"
    using shape_limit [OF sh, of c] by simp
  show ?thesis
  proof (cases vs)
    case Nil
    with sum show ?thesis by (simp add: word_unat_eq_iff)
  next
    case (Cons v vs')
    with sd(5) [of v] have "0 < unat (cl_size (node h v))" by simp
    with sum Cons show ?thesis by (auto simp: word_unat_eq_iff)
  qed
qed

text \<open>The first half of \<open>Cluster::free\<close>: merge with the next cluster.\<close>

lemma free_next:
  assumes sh: "shape p (us @ c # vs) h" and free: "cl_type (node h c) = FREE"
  obtains h' where
    "(if cl_type (node h (nx h c)) = FREE \<and>
         cluster_limit (node h c) \<noteq> cp_limit (hp_pools h (cl_parent (node h c)))
      then coalesce_next c h else Inr h) = Inr h'"
    "same_blocks p (us @ c # vs) h
       (us @ c # (if vs \<noteq> [] \<and> cl_type (node h (hd vs)) = FREE then tl vs else vs)) h'"
proof (cases "vs \<noteq> [] \<and> cl_type (node h (hd vs)) = FREE")
  case True
  then obtain b vs' where vs: "vs = b # vs'" by (cases vs) auto
  from merge_free [OF sh [unfolded vs] free] True vs obtain h' where
    "coalesce_next c h = Inr h'" "same_blocks p (us @ c # b # vs') h (us @ c # vs') h'" by auto
  with True vs limit_iff_last [OF sh] ring_next [OF shapeD(3) [OF sh [unfolded vs]]] shapeD(4) [OF sh, of c]
  show thesis by (intro that [of h']) auto
next
  case False
  have "cl_type (node h (nx h c)) = USED \<or> vs = []"
    using False ring_next [of "nx h" "pv h" us c "hd vs" "tl vs"] shapeD(3) [OF sh] by (cases vs) auto
  with False limit_iff_last [OF sh] shapeD(4) [OF sh, of c] same_blocks_refl [OF sh]
  show thesis by (intro that [of h]) auto
qed

text \<open>The second half: merge into the previous cluster, unless it is across the boundary.\<close>

lemma free_prev:
  assumes sh: "shape p (us @ c # vs) h" and free: "cl_type (node h c) = FREE"
    and safe: "us = [] \<Longrightarrow> vs \<noteq> [] \<Longrightarrow> cl_type (node h (last vs)) = USED"
  obtains h' xs' where
    "(if cl_type (node h (pv h c)) = FREE \<and> nx h c \<noteq> pv h c
      then coalesce_next (pv h c) h else Inr h) = Inr h'"
    "same_blocks p (us @ c # vs) h xs' h'" "set us \<subseteq> set xs'" "us = [] \<Longrightarrow> xs' = c # vs"
proof (cases "cl_type (node h (pv h c)) = FREE \<and> nx h c \<noteq> pv h c")
  case False
  show thesis
    by (rule that [OF _ same_blocks_refl [OF sh]]) (use False in auto)
next
  case True
  note sd = shapeD [OF sh]
  have "us \<noteq> []"
  proof
    assume us: "us = []"
    with sd(3) have r: "ring (nx h) (pv h) (c # vs)" by simp
    show False
    proof (cases "vs = []")
      case True
      with r \<open>cl_type _ = _ \<and> _\<close> show False by (simp add: ring_self)
    next
      case False
      with ring_wrap [OF r] safe [OF us] True show False by simp
    qed
  qed
  then obtain us' a where us: "us = us' @ [a]" by (meson rev_exhaust)
  with sd(3) have "pv h c = a" using ring_next [of "nx h" "pv h" us' a c vs] by simp
  with merge_free [of p us' a c vs h] sh free us True obtain h' where
    "coalesce_next a h = Inr h'" "same_blocks p (us @ c # vs) h (us' @ a # vs) h'" by auto
  with \<open>pv h c = a\<close> us True show thesis by (intro that [of h' "us' @ a # vs"]) auto
qed

text \<open>
  Releasing a used cluster removes its block and nothing else, provided that the cluster is
  not the first of the region while the last one is free.
\<close>

lemma unuse:
  assumes sh: "shape p xs h" and c: "c \<in> set xs" "cl_type (node h c) = USED"
  shows "shape p xs (upd_node c (\<lambda>x. x\<lparr>cl_type := FREE\<rparr>) h)"
    "used_bytes (node h) xs =
       used_bytes (node (upd_node c (\<lambda>x. x\<lparr>cl_type := FREE\<rparr>) h)) xs + unat (cl_size (node h c))"
    "blocks (node (upd_node c (\<lambda>x. x\<lparr>cl_type := FREE\<rparr>) h)) xs =
       blocks (node h) xs - {(unat (cl_start (node h c)), unat (cl_size (node h c)))}"
proof -
  let ?h = "upd_node c (\<lambda>x. x\<lparr>cl_type := FREE\<rparr>) h"
  have "nx ?h = nx h" "pv ?h = pv h" by (auto simp: fun_eq_iff)
  moreover have "tiled (node ?h) a ys b = tiled (node h) a ys b" for a ys b
    by (rule tiled_cong) auto
  ultimately show sh': "shape p xs ?h" using sh by (auto simp: shape_def)
  then have "adds_block p xs ?h xs (upd_node c (\<lambda>x. x\<lparr>cl_type := USED\<rparr>) ?h)
      (cl_start (node ?h c)) (cl_size (node ?h c))"
    by (rule use_whole) (use c in auto)
  moreover have "node (upd_node c (\<lambda>x. x\<lparr>cl_type := USED\<rparr>) ?h) = node h"
    using c by (auto simp: fun_eq_iff)
  ultimately show "used_bytes (node h) xs = used_bytes (node ?h) xs + unat (cl_size (node h c))"
    "blocks (node ?h) xs = blocks (node h) xs - {(unat (cl_start (node h c)), unat (cl_size (node h c)))}"
    by (auto simp: adds_block_def)
qed

lemma cluster_free_shape:
  assumes sh: "shape p (us @ c # vs) h" and used: "cl_type (node h c) = USED"
    and safe: "us = [] \<Longrightarrow> vs \<noteq> [] \<Longrightarrow> cl_type (node h (last vs)) = USED"
  obtains h' xs' where "cluster_free c h = Inr h'" "shape p xs' h'" "hp_pools h' = hp_pools h"
    "used_bytes (node h) (us @ c # vs) = used_bytes (node h') xs' + unat (cl_size (node h c))"
    "blocks (node h') xs' =
       blocks (node h) (us @ c # vs) - {(unat (cl_start (node h c)), unat (cl_size (node h c)))}"
    "pv h c \<in> set xs'"
proof -
  define h0 where "h0 = upd_node c (\<lambda>x. x\<lparr>cl_type := FREE\<rparr>) h"
  define ws where "ws = (if vs \<noteq> [] \<and> cl_type (node h0 (hd vs)) = FREE then tl vs else vs)"
  note un = unuse [OF sh _ used, folded h0_def]
  have c0: "cl_type (node h0 c) = FREE" by (simp add: h0_def)
  have dist: "c \<notin> set vs" using ring_distinct [OF shapeD(3) [OF sh]] by auto
  from free_next [OF un(1) c0] obtain h1 where
    next1: "(if cl_type (node h0 (nx h0 c)) = FREE \<and>
         cluster_limit (node h0 c) \<noteq> cp_limit (hp_pools h0 (cl_parent (node h0 c)))
      then coalesce_next c h0 else Inr h0) = Inr h1"
    and same1: "same_blocks p (us @ c # vs) h0 (us @ c # ws) h1"
    unfolding ws_def by auto
  have c1: "cl_type (node h1 c) = FREE" and sh1: "shape p (us @ c # ws) h1"
    using same1 c0 by (simp_all add: same_blocks_def)
  have types: "x \<noteq> c \<Longrightarrow> cl_type (node h1 x) = cl_type (node h x)" for x
    using same1 by (simp add: same_blocks_def h0_def)
  have last: "us = [] \<Longrightarrow> vs \<noteq> [] \<Longrightarrow> ws \<noteq> [] \<and> last ws = last vs"
    using safe dist by (cases vs) (auto simp: ws_def h0_def last_tl split: if_splits)
  have safe1: "cl_type (node h1 (last ws)) = USED" if "us = []" "ws \<noteq> []"
  proof -
    from that(2) have vs: "vs \<noteq> []" by (auto simp: ws_def)
    with dist last_in_set have "last vs \<noteq> c" by metis
    with vs last that(1) safe types [of "last vs"] show ?thesis by auto
  qed
  from free_prev [OF sh1 c1 safe1] obtain h2 xs' where
    prev2: "(if cl_type (node h1 (pv h1 c)) = FREE \<and> nx h1 c \<noteq> pv h1 c
      then coalesce_next (pv h1 c) h1 else Inr h1) = Inr h2"
    and same2: "same_blocks p (us @ c # ws) h1 xs' h2" "set us \<subseteq> set xs'" "us = [] \<Longrightarrow> xs' = c # ws"
    by metis
  have run: "cluster_free c h = Inr h2"
    unfolding cluster_free_def Let_def h0_def [symmetric] next1 rbind_Inr prev2 using used by simp
  have "pv h c \<in> set xs'"
    using ring_prev [OF shapeD(3) [OF sh]] last same2(2,3) last_in_set [of us] last_in_set [of ws]
    by (cases "us = []"; cases "vs = []") auto
  with run same_blocks_trans [OF same1 same2(1)] un(2,3) show thesis
    by (intro that [of h2 xs']) (auto simp: same_blocks_def h0_def)
qed

text \<open>\<open>ClusterPool::free\<close> of an address no cluster starts at changes nothing.\<close>

lemma free_unknown:
  assumes inv: "heap_inv p xs h" and no: "\<forall>x \<in> set xs. cl_start (node h x) \<noteq> address"
  obtains h' where "clusterpool_free p address h = Inr h'" "heap_inv p xs h'" "hp_nodes h' = hp_nodes h"
proof -
  note hd = heap_invD [OF inv]
  define h1 where "h1 = cp_locked p h"
  let ?c = "cp_cursor (hp_pools h p)"
  have "ring (nx h1) (pv h1) xs" using shapeD(3) [OF hd(1)] by (simp add: h1_def)
  then have find: "find_start h1 ?c address ?c = Some None"
    by (rule find_start_total [OF _ hd(3), of _ address]) (use no in \<open>auto simp: h1_def\<close>)
  have "clusterpool_free p address h = Inr (cp_unlock p h1)"
    using find hd(2)
    by (simp add: clusterpool_free_def cp_locked_def [symmetric] Let_def h1_def)
  moreover have "shape p xs (cp_unlock p h1)"
    using hd(1) by (subst shape_cong [of _ h]) (simp_all add: h1_def)
  then have "heap_inv p xs (cp_unlock p h1)"
    using hd by (simp add: heap_inv_def h1_def)
  ultimately show thesis by (rule that) (simp add: h1_def)
qed

lemma free_block:
  assumes inv: "heap_inv p xs h" and c: "c \<in> set xs" "cl_type (node h c) = USED"
    and safe: "c = hd xs \<Longrightarrow> xs \<noteq> [c] \<Longrightarrow> cl_type (node h (last xs)) = USED"
  obtains h' xs' where "clusterpool_free p (cl_start (node h c)) h = Inr h'" "heap_inv p xs' h'"
    "blocks (node h') xs' =
       blocks (node h) xs - {(unat (cl_start (node h c)), unat (cl_size (node h c)))}"
proof -
  note hd = heap_invD [OF inv]
  note sd = shapeD [OF hd(1)]
  define h1 where "h1 = cp_locked p h"
  define h2 where "h2 = upd_pool p (\<lambda>q. q\<lparr>cp_bytes_used := cp_bytes_used q - cl_size (node h c)\<rparr>)
    (upd_pool p (\<lambda>q. q\<lparr>cp_cursor := pv h c\<rparr>) h1)"
  let ?c = "cp_cursor (hp_pools h p)" and ?a = "cl_start (node h c)"
  have "ring (nx h1) (pv h1) xs" using sd(3) by (simp add: h1_def)
  then obtain t where find: "find_start h1 ?c ?a ?c = Some (Some t)" "t \<in> set xs" "cl_start (node h1 t) = ?a"
    by (rule find_start_total [OF _ hd(3), of _ ?a]) (use c in \<open>auto simp: h1_def\<close>)
  then have t: "t = c" using tiled_start_inj [OF sd(8), of t c] sd(5) c by (simp add: h1_def)
  obtain us vs where xs: "xs = us @ c # vs" using c(1) by (meson split_list)
  have "shape p (us @ c # vs) h2"
    using hd(1) by (subst shape_cong [of _ h]) (simp_all add: h2_def h1_def xs)
  then obtain h3 xs' where
    run: "cluster_free c h2 = Inr h3" "shape p xs' h3" "hp_pools h3 = hp_pools h2"
      "used_bytes (node h2) xs = used_bytes (node h3) xs' + unat (cl_size (node h2 c))"
      "blocks (node h3) xs' =
         blocks (node h2) xs - {(unat (cl_start (node h2 c)), unat (cl_size (node h2 c)))}"
      "pv h2 c \<in> set xs'"
    by (rule cluster_free_shape) (use c safe in \<open>auto simp: h2_def h1_def xs\<close>)
  have "unat (cp_bytes_used (hp_pools h p) - cl_size (node h c)) = used_bytes (node h3) xs'"
    using run(4) hd(4) by (simp add: h2_def h1_def unat_sub_if')
  moreover have "shape p xs' (cp_unlock p h3)"
    using run(2) by (subst shape_cong [of _ h3]) simp_all
  ultimately have "heap_inv p xs' (cp_unlock p h3)"
    using run(3,6) by (simp add: heap_inv_def h2_def h1_def)
  moreover have "clusterpool_free p ?a h = Inr (cp_unlock p h3)"
    using find(1) run(1) hd(2)
    by (simp add: clusterpool_free_def cp_locked_def [symmetric] Let_def h1_def h2_def t)
  ultimately show thesis
    by (intro that [of "cp_unlock p h3" xs']) (use run(5) in \<open>simp_all add: h2_def h1_def\<close>)
qed

section \<open>The cluster pool as a byte allocator\<close>

text \<open>The blocks of pool \<open>p\<close>, read off the live cluster records.\<close>

definition live_blocks :: "nat \<Rightarrow> heap \<Rightarrow> (nat \<times> nat) set" where
  "live_blocks p h = {(unat (cl_start (node h x)), unat (cl_size (node h x))) | x.
     x \<in> pool_used (hp_nodes h) \<and> cl_parent (node h x) = p \<and> cl_type (node h x) = USED}"

definition node_room :: "heap \<Rightarrow> bool" where
  "node_room h \<longleftrightarrow> card (pool_used (hp_nodes h)) < pool_cap (hp_nodes h)"

text \<open>
  \<open>ClusterPool::free\<close> is not safe for the first cluster of the region while the last one,
  its neighbour in the ring, is free: see the section on boundary merges below.
\<close>

definition freeable :: "nat \<Rightarrow> u32 \<Rightarrow> heap \<Rightarrow> bool" where
  "freeable p address h \<longleftrightarrow>
     (\<forall>x \<in> pool_used (hp_nodes h). cl_parent (node h x) = p \<and> cl_start (node h x) = address \<and>
        address = cp_start (hp_pools h p) \<longrightarrow>
        cl_prev (node h x) = x \<or> cl_type (node h (cl_prev (node h x))) = USED)"

definition cp_inv :: "nat \<Rightarrow> heap \<Rightarrow> bool" where
  "cp_inv p h \<longleftrightarrow> (\<exists>xs. heap_inv p xs h)"

lemma live_blocks_eq: "heap_inv p xs h \<Longrightarrow> live_blocks p h = blocks (node h) xs"
  using shapeD(2,4,9) [OF heap_invD(1)] by (fastforce simp: live_blocks_def blocks_def)

lemma shape_hd:
  assumes "shape p xs h"
  shows "xs = hd xs # tl xs" "cl_start (node h (hd xs)) = cp_start (hp_pools h p)"
    "pv h (hd xs) = last xs"
  using shapeD(3,8) [OF assms] ring_wrap [of "nx h" "pv h" "hd xs" "tl xs"]
  by (cases xs; auto simp: ring_def word_unat_eq_iff)+

lemma free_freeable:
  assumes inv: "heap_inv p xs h" and b: "(unat a, n) \<in> live_blocks p h" and f: "freeable p a h"
  obtains h' xs' where "clusterpool_free p a h = Inr h'" "heap_inv p xs' h'"
    "blocks (node h') xs' = live_blocks p h - {(unat a, n)}"
proof -
  note sh = heap_invD(1) [OF inv]
  note sd = shapeD [OF sh]
  from b obtain c where c: "c \<in> set xs" "cl_type (node h c) = USED" "cl_start (node h c) = a"
      "n = unat (cl_size (node h c))"
    by (auto simp: live_blocks_eq [OF inv] blocks_def word_unat_eq_iff)
  have "cl_type (node h (last xs)) = USED" if "c = hd xs" "xs \<noteq> [c]"
  proof -
    from shape_hd [OF sh] that have "tl xs \<noteq> []" "last xs = last (tl xs)" by (metis last_tl)+
    with ring_distinct [OF sd(3)] shape_hd(1) [OF sh] that have "last xs \<noteq> c"
      by (metis distinct.simps(2) last_in_set)
    moreover have "c \<in> pool_used (hp_nodes h) \<and> cl_parent (node h c) = p" using sd(2,4) c(1) by auto
    then have "pv h c = c \<or> cl_type (node h (pv h c)) = USED"
      using f c(3) that shape_hd(2) [OF sh] unfolding freeable_def by blast
    ultimately show ?thesis using shape_hd(3) [OF sh] that by auto
  qed
  from free_block [OF inv c(1,2) this] c(3,4) live_blocks_eq [OF inv] that show thesis by metis
qed

interpretation cp: byte_allocator "cp_inv p" "live_blocks p" node_room "freeable p"
    "clusterpool_allocate p" "clusterpool_free p" for p
proof unfold_locales
  fix h assume "cp_inv p h"
  then obtain xs where inv: "heap_inv p xs h" by (auto simp: cp_inv_def)
  note sh = heap_invD(1) [OF inv]
  show "separate (live_blocks p h)"
    using shape_blocks(1) [OF sh] by (simp add: live_blocks_eq [OF inv])
  show "0 < a \<and> 0 < n" if "(a, n) \<in> live_blocks p h" for a n
    using shape_blocks(2) [OF sh] shapeD(6) [OF sh] that by (auto simp: live_blocks_eq [OF inv])
  show "\<exists>a h'. clusterpool_allocate p n h = Inr (a, h') \<and> cp_inv p h' \<and>
      (if a = 0 then live_blocks p h' = live_blocks p h
       else live_blocks p h' = insert (unat a, unat n) (live_blocks p h) \<and>
         (unat a, unat n) \<notin> live_blocks p h)" if room: "node_room h" and n: "0 < unat n" for n
  proof (cases "\<exists>x \<in> set xs. fits h n x")
    case True
    then obtain x where x: "x \<in> set xs" "fits h n x" by blast
    from allocate_fit [OF inv x n room [unfolded node_room_def]] obtain rt h' xs' where
      run: "clusterpool_allocate p n h = Inr (rt, h')" "heap_inv p xs' h'"
        "blocks (node h') xs' = insert (unat rt, unat n) (blocks (node h) xs)"
        "(unat rt, unat n) \<notin> blocks (node h) xs" by metis
    have "0 < unat rt"
      using shape_blocks(2) [OF heap_invD(1) [OF run(2)]] shapeD(6) [OF heap_invD(1) [OF run(2)]] run(3)
      by auto
    with run inv show ?thesis by (auto simp: live_blocks_eq cp_inv_def)
  next
    case False
    with allocate_nofit [OF inv, of n] obtain h' where
      "clusterpool_allocate p n h = Inr (0, h')" "heap_inv p xs h'" "hp_nodes h' = hp_nodes h" by metis
    with inv show ?thesis by (auto simp: live_blocks_eq cp_inv_def)
  qed
  show "\<exists>h'. clusterpool_free p a h = Inr h' \<and> cp_inv p h' \<and> live_blocks p h' = live_blocks p h - {(unat a, n)}"
    if "(unat a, n) \<in> live_blocks p h" "freeable p a h" for a n
    using free_freeable [OF inv that] by (metis cp_inv_def live_blocks_eq)
qed

declare splituse_def [run] coalesce_next_def [run] cluster_free_def [run] cp_unlock_def [run]
  clusterpool_allocate_def [run] clusterpool_free_def [run] upd_node_def [run] upd_pool_def [run]
  cluster_limit_def [run] cp_limit_def [run] find_fit.simps [run] find_start.simps [run]

section \<open>The region is fixed\<close>

lemma splituse_pools: "splituse x n h = Inr (a, h') \<Longrightarrow> hp_cps h' = hp_cps h"
  by (auto simp: splituse_def rbind_eq_Inr Let_def split: if_splits)

lemma allocate_region:
  assumes "clusterpool_allocate p n h = Inr (a, h')"
  shows "cp_start (hp_pools h' p) = cp_start (hp_pools h p)" "cp_size (hp_pools h' p) = cp_size (hp_pools h p)"
proof -
  from assms obtain l where "lock_acquire (cp_lock (hp_pools h p)) = Inr l"
    by (auto simp: clusterpool_allocate_def rbind_eq_Inr)
  with assms show "cp_start (hp_pools h' p) = cp_start (hp_pools h p)"
    "cp_size (hp_pools h' p) = cp_size (hp_pools h p)"
    by (auto simp: clusterpool_allocate_def rbind_eq_Inr Let_def cp_unlock_def
        split: option.split_asm if_split_asm dest!: splituse_pools)
qed

lemma coalesce_next_pools: "coalesce_next x h = Inr h' \<Longrightarrow> hp_cps h' = hp_cps h"
  by (auto simp: coalesce_next_def rbind_eq_Inr Let_def split: if_splits)

lemma cluster_free_pools: "cluster_free x h = Inr h' \<Longrightarrow> hp_cps h' = hp_cps h"
  by (auto simp: cluster_free_def rbind_eq_Inr Let_def split: if_splits dest!: coalesce_next_pools)

lemma free_region:
  assumes "clusterpool_free p a h = Inr h'"
  shows "cp_start (hp_pools h' p) = cp_start (hp_pools h p)" "cp_size (hp_pools h' p) = cp_size (hp_pools h p)"
proof -
  from assms obtain l where "lock_acquire (cp_lock (hp_pools h p)) = Inr l"
    by (auto simp: clusterpool_free_def rbind_eq_Inr)
  with assms show "cp_start (hp_pools h' p) = cp_start (hp_pools h p)"
    "cp_size (hp_pools h' p) = cp_size (hp_pools h p)"
    by (auto simp: clusterpool_free_def rbind_eq_Inr Let_def cp_unlock_def
        split: option.split_asm dest!: cluster_free_pools)
qed

end
