(* ===== verification/Memory.thy ===== *)
theory Memory
  imports ClusterPool
begin

text \<open>
  The kernel heap of \<open>kernel/memory.cpp\<close> and \<open>memory.hpp\<close>: the two metadata pools at fixed
  addresses, the kernel's own cluster pool after them, and \<open>kmalloc\<close>, \<open>kcalloc\<close> and
  \<open>kfree\<close> on it. A structure that the code initialises with \<open>{}\<close> is all zero.
\<close>

section \<open>Layout\<close>

definition MEM_CLUSTER_POOLS_MAX :: u32 where "MEM_CLUSTER_POOLS_MAX = 64"

definition MEM_CLUSTERS_MAX :: u32 where "MEM_CLUSTERS_MAX = 2048"

definition ALL_MEM_CLUSTER_POOLS_START :: u32 where "ALL_MEM_CLUSTER_POOLS_START = 0x120000"

text \<open>
  The sizes of the two structures on the 32-bit target: seven words (the lock has two), and
  five words with a \<open>bool\<close> padded to a word.
\<close>

definition sizeof_ClusterPool :: u32 where "sizeof_ClusterPool = 28"

definition sizeof_Cluster :: u32 where "sizeof_Cluster = 24"

definition ALL_MEM_CLUSTER_POOLS_BYTES :: u32 where
  "ALL_MEM_CLUSTER_POOLS_BYTES = MEM_CLUSTER_POOLS_MAX * sizeof_ClusterPool"

definition ALL_MEM_CLUSTERS_START :: u32 where
  "ALL_MEM_CLUSTERS_START = ALL_MEM_CLUSTER_POOLS_START + ALL_MEM_CLUSTER_POOLS_BYTES"

definition ALL_MEM_CLUSTERS_BYTES :: u32 where
  "ALL_MEM_CLUSTERS_BYTES = MEM_CLUSTERS_MAX * sizeof_Cluster"

definition KPOOL_START :: u32 where
  "KPOOL_START = ALL_MEM_CLUSTERS_START + ALL_MEM_CLUSTERS_BYTES"

definition KPOOL_BYTES :: u32 where "KPOOL_BYTES = 256 * 1024"

lemmas layout_defs =
  MEM_CLUSTER_POOLS_MAX_def MEM_CLUSTERS_MAX_def ALL_MEM_CLUSTER_POOLS_START_def
  sizeof_ClusterPool_def sizeof_Cluster_def ALL_MEM_CLUSTER_POOLS_BYTES_def
  ALL_MEM_CLUSTERS_START_def ALL_MEM_CLUSTERS_BYTES_def KPOOL_START_def KPOOL_BYTES_def

section \<open>Operations\<close>

definition cluster_zero :: cluster where
  "cluster_zero = \<lparr>cl_parent = 0, cl_start = 0, cl_size = 0, cl_next = 0, cl_prev = 0, cl_type = FREE\<rparr>"

definition cluster_pool_zero :: cluster_pool where
  "cluster_pool_zero =
     \<lparr>cp_cursor = 0, cp_start = 0, cp_size = 0, cp_bytes_used = 0, cp_lock = lock_init\<rparr>"

text \<open>
  \<open>_create_cluster_pool\<close>: one free cluster covers the whole region. \<open>pool\<close> is the id of the
  pool's record.
\<close>

definition create_cluster_pool :: "nat \<Rightarrow> u32 \<Rightarrow> u32 \<Rightarrow> heap \<Rightarrow> heap result" where
  "create_cluster_pool pool start sz h =
     rbind (pool_allocate (hp_nodes h)) (\<lambda>(i, nodes).
       if i = - 1 then Inl OutOfBounds
       else
         let first = unat i;
             h = h\<lparr>hp_nodes := nodes\<rparr>;
             h = upd_pool pool (\<lambda>_. \<lparr>cp_cursor = first, cp_start = start, cp_size = sz,
                   cp_bytes_used = 0, cp_lock = lock_init\<rparr>) h;
             h = upd_node first (\<lambda>_. \<lparr>cl_parent = pool, cl_start = start, cl_size = sz,
                   cl_next = first, cl_prev = first, cl_type = FREE\<rparr>) h
         in Inr h)"

definition create_memory_cluster_pool :: "u32 \<Rightarrow> u32 \<Rightarrow> heap \<Rightarrow> (nat \<times> heap) result" where
  "create_memory_cluster_pool start sz h =
     rbind (pool_allocate (hp_cps h)) (\<lambda>(i, cps).
       if i = - 1 then Inl OutOfBounds
       else rbind (create_cluster_pool (unat i) start sz (h\<lparr>hp_cps := cps\<rparr>)) (\<lambda>h.
              Inr (unat i, h)))"

text \<open>\<open>init_memory\<close> returns the id of \<open>kpool\<close> and the heap.\<close>

definition init_memory :: "(nat \<times> heap) result" where
  "init_memory =
     (let cps = create_pool cluster_pool_zero MEM_CLUSTER_POOLS_MAX ALL_MEM_CLUSTER_POOLS_START;
          nodes = create_pool cluster_zero MEM_CLUSTERS_MAX ALL_MEM_CLUSTERS_START
      in create_memory_cluster_pool KPOOL_START KPOOL_BYTES \<lparr>hp_nodes = nodes, hp_cps = cps\<rparr>)"

definition kmalloc :: "nat \<Rightarrow> u32 \<Rightarrow> heap \<Rightarrow> (u32 \<times> heap) result" where
  "kmalloc kpool n h = clusterpool_allocate kpool n h"

definition kfree :: "nat \<Rightarrow> u32 \<Rightarrow> heap \<Rightarrow> heap result" where
  "kfree kpool address h = clusterpool_free kpool address h"

text \<open>
  \<open>kcalloc\<close> clears the memory of the block; memory is a function from addresses to bytes.
  The size is converted to a signed integer for \<open>buffer_zero\<close>.
\<close>

fun zero_bytes :: "(u32 \<Rightarrow> u8) \<Rightarrow> u32 \<Rightarrow> nat \<Rightarrow> (u32 \<Rightarrow> u8)" where
  "zero_bytes mem a 0 = mem"
| "zero_bytes mem a (Suc k) = zero_bytes (mem(a := 0)) (a + 1) k"

definition kcalloc :: "nat \<Rightarrow> u32 \<Rightarrow> heap \<Rightarrow> (u32 \<Rightarrow> u8) \<Rightarrow> (u32 \<times> heap \<times> (u32 \<Rightarrow> u8)) result" where
  "kcalloc kpool n h mem =
     rbind (kmalloc kpool n h) (\<lambda>(allocation, h).
       Inr (allocation, h, zero_bytes mem allocation (nat (sint n))))"

section \<open>Start-up\<close>

lemma create_cluster_pool_inv:
  assumes inv: "pool_inv (hp_nodes h)" and room: "node_room h"
    and fresh: "\<forall>x \<in> pool_used (hp_nodes h). cl_parent (node h x) \<noteq> p"
    and region: "0 < unat start" "0 < unat sz" "unat start + unat sz < 2 ^ 32"
  obtains h' where "create_cluster_pool p start sz h = Inr h'" "cp_inv p h'" "live_blocks p h' = {}"
    "card (pool_used (hp_nodes h')) = Suc (card (pool_used (hp_nodes h)))"
    "pool_cap (hp_nodes h') = pool_cap (hp_nodes h)"
proof -
  from inv obtain n nodes where
    alloc: "pool_allocate (hp_nodes h) = Inr (of_nat n, nodes)" "n < pool_cap (hp_nodes h)"
      "n \<notin> pool_used (hp_nodes h)" "pool_inv nodes"
      "pool_used nodes = insert n (pool_used (hp_nodes h))" "datamap nodes = node h"
      "pool_cap nodes = pool_cap (hp_nodes h)"
    by (cases rule: pool_allocate_cases) (use room in \<open>auto simp: node_room_def\<close>)
  define h' where "h' = upd_node n (\<lambda>_. \<lparr>cl_parent = p, cl_start = start, cl_size = sz,
      cl_next = n, cl_prev = n, cl_type = FREE\<rparr>)
    (upd_pool p (\<lambda>_. \<lparr>cp_cursor = n, cp_start = start, cp_size = sz, cp_bytes_used = 0,
      cp_lock = lock_init\<rparr>) (h\<lparr>hp_nodes := nodes\<rparr>))"
  have "create_cluster_pool p start sz h = Inr h'"
    unfolding create_cluster_pool_def alloc(1) rbind_Inr Let_def prod.case h'_def
    by (simp only: of_nat_less_cap [OF alloc(2)] if_False)
  moreover have "heap_inv p [n] h'"
    using alloc fresh region
    by (auto simp: heap_inv_def shape_def h'_def ring_self word_unat_eq_iff)
  ultimately show thesis
    using alloc pl.finite_used [OF inv]
    by (intro that [of h']) (auto simp: cp_inv_def live_blocks_eq h'_def blocks_def)
qed

text \<open>The first cluster pool, made in two empty metadata pools.\<close>

lemma first_pool_ready:
  assumes nodes: "pool_inv nodes" "pool_used nodes = {}" "0 < pool_cap nodes"
    and cps: "pool_inv cps" "pool_used cps = {}" "0 < pool_cap cps"
    and region: "0 < unat start" "0 < unat sz" "unat start + unat sz < 2 ^ 32"
  shows "\<exists>h. create_memory_cluster_pool start sz \<lparr>hp_nodes = nodes, hp_cps = cps\<rparr> = Inr (0, h) \<and>
     cp_inv 0 h \<and> live_blocks 0 h = {} \<and> cp_start (hp_pools h 0) = start \<and> cp_size (hp_pools h 0) = sz \<and>
     card (pool_used (hp_nodes h)) = 1 \<and> pool_cap (hp_nodes h) = pool_cap nodes"
proof -
  have ne: "{} \<noteq> {..<pool_cap cps}" using lessThan_empty_iff [of "pool_cap cps"] cps(3) by auto
  obtain i cps' where cps': "pool_allocate cps = Inr (of_nat i, cps')" "i = 0"
    by (rule pool_allocate_cases [OF cps(1)]) (use cps ne in \<open>auto simp: lessThan_empty_iff\<close>)
  obtain h where h: "create_cluster_pool 0 start sz \<lparr>hp_nodes = nodes, hp_cps = cps'\<rparr> = Inr h"
    "cp_inv 0 h" "live_blocks 0 h = {}" "card (pool_used (hp_nodes h)) = Suc (card (pool_used nodes))"
    "pool_cap (hp_nodes h) = pool_cap nodes"
    by (rule create_cluster_pool_inv [of "\<lparr>hp_nodes = nodes, hp_cps = cps'\<rparr>" 0 start sz])
      (use nodes region in \<open>auto simp: node_room_def\<close>)
  moreover from h(1) have "cp_start (hp_pools h 0) = start" "cp_size (hp_pools h 0) = sz"
    by (auto simp: create_cluster_pool_def rbind_eq_Inr Let_def split: if_splits)
  ultimately show ?thesis
    using cps' nodes by (simp add: create_memory_cluster_pool_def)
qed

lemma init_memory_run:
  "\<exists>h. init_memory = Inr (0, h) \<and> cp_inv 0 h \<and> live_blocks 0 h = {} \<and>
     cp_start (hp_pools h 0) = KPOOL_START \<and> cp_size (hp_pools h 0) = KPOOL_BYTES \<and>
     card (pool_used (hp_nodes h)) = 1 \<and> pool_cap (hp_nodes h) = 2048"
  using first_pool_ready [of "create_pool cluster_zero MEM_CLUSTERS_MAX ALL_MEM_CLUSTERS_START"
      "create_pool cluster_pool_zero MEM_CLUSTER_POOLS_MAX ALL_MEM_CLUSTER_POOLS_START" KPOOL_START KPOOL_BYTES]
  by (simp add: init_memory_def create_pool_inv layout_defs)

section \<open>Blocks\<close>

lemma cp_inv_fits:
  assumes "heap_inv p xs h"
  shows "(\<exists>x \<in> set xs. fits h n x) \<longleftrightarrow>
    (\<exists>x \<in> pool_used (hp_nodes h). cl_parent (node h x) = p \<and> fits h n x)"
  using shapeD(2,4,9) [OF heap_invD(1) [OF assms]] by blast

lemma cp_inv_region:
  assumes "cp_inv p h" "(a, m) \<in> live_blocks p h"
  shows "unat (cp_start (hp_pools h p)) \<le> a \<and>
    a + m \<le> unat (cp_start (hp_pools h p)) + unat (cp_size (hp_pools h p))"
proof -
  from assms(1) obtain xs where inv: "heap_inv p xs h" by (auto simp: cp_inv_def)
  with shape_blocks(2) [OF heap_invD(1) [OF inv]] assms(2) show ?thesis
    by (auto simp: live_blocks_eq [OF inv])
qed

lemma kmalloc_found:
  assumes inv: "cp_inv p h" and room: "node_room h" and n: "0 < unat n"
    and x: "x \<in> pool_used (hp_nodes h)" "cl_parent (node h x) = p" "fits h n x"
  shows "\<exists>a h'. kmalloc p n h = Inr (a, h') \<and> cp_inv p h' \<and> a \<noteq> 0 \<and>
     live_blocks p h' = insert (unat a, unat n) (live_blocks p h) \<and>
     unat (cp_start (hp_pools h p)) \<le> unat a \<and>
     unat a + unat n \<le> unat (cp_start (hp_pools h p)) + unat (cp_size (hp_pools h p)) \<and>
     (\<forall>(b, m) \<in> live_blocks p h. unat a + unat n \<le> b \<or> b + m \<le> unat a)"
proof -
  from inv obtain xs where hi: "heap_inv p xs h" by (auto simp: cp_inv_def)
  with x obtain y where "y \<in> set xs" "fits h n y" using cp_inv_fits [OF hi, of n] by blast
  from allocate_fit [OF hi this n room [unfolded node_room_def]] obtain a h' xs' where
    run: "clusterpool_allocate p n h = Inr (a, h')" "heap_inv p xs' h'"
      "blocks (node h') xs' = insert (unat a, unat n) (blocks (node h) xs)" by metis
  then have b: "cp_inv p h'" "live_blocks p h' = insert (unat a, unat n) (live_blocks p h)"
    using hi by (auto simp: cp_inv_def live_blocks_eq)
  then have "a \<noteq> 0" using cp.blks_nonempty [OF b(1), of "unat a" "unat n"] by auto
  moreover note cp_inv_region [OF b(1), of "unat a" "unat n"] allocate_region [OF run(1)]
    cp.malloc_fresh [OF inv run(1) \<open>a \<noteq> 0\<close> room n]
  ultimately show ?thesis using run(1) b by (auto simp: kmalloc_def)
qed

lemma kmalloc_none:
  assumes inv: "cp_inv p h"
    and x: "\<not> (\<exists>x \<in> pool_used (hp_nodes h). cl_parent (node h x) = p \<and> fits h n x)"
  shows "\<exists>h'. kmalloc p n h = Inr (0, h') \<and> cp_inv p h' \<and> hp_nodes h' = hp_nodes h"
proof -
  from inv obtain xs where hi: "heap_inv p xs h" by (auto simp: cp_inv_def)
  with x have "\<forall>x \<in> set xs. \<not> fits h n x" using cp_inv_fits [OF hi, of n] by blast
  from allocate_nofit [OF hi this] obtain h' where "clusterpool_allocate p n h = Inr (0, h')"
    "heap_inv p xs h'" "hp_nodes h' = hp_nodes h" .
  then show ?thesis by (auto simp: kmalloc_def cp_inv_def)
qed

lemma zero_bytes_apply:
  "k \<le> 2 ^ 32 \<Longrightarrow> zero_bytes mem a k x = (if unat (x - a) < k then 0 else mem x)"
proof (induction k arbitrary: mem a)
  case (Suc k)
  show ?case
  proof (cases "x = a")
    case False
    then have "unat (x - a) \<noteq> 0" by (simp add: unat_gt_0)
    moreover have "unat (x - (a + 1)) = unat (x - a) - 1"
      using False by (simp add: diff_diff_eq [symmetric] unat_minus_one)
    ultimately show ?thesis using Suc False by auto
  qed (use Suc in \<open>auto simp: unat_minus_1\<close>)
qed simp

section \<open>Evaluation\<close>

declare create_cluster_pool_def [run] create_memory_cluster_pool_def [run]
  cluster_zero_def [run] cluster_pool_zero_def [run] kmalloc_def [run] kfree_def [run]

text \<open>A heap of the same layout with one cluster pool of 100 bytes, for examples.\<close>

definition small_heap :: heap where
  "small_heap =
     \<lparr>hp_nodes = create_pool cluster_zero 8 0, hp_cps = create_pool cluster_pool_zero 2 0\<rparr>"

declare small_heap_def [run]

section \<open>Properties\<close>

text \<open>C26: \<open>init_memory\<close> leaves a well-formed heap with \<open>kpool\<close> as its first pool, nothing
  allocated, and all but one of the cluster records unused.\<close>

theorem init_memory_ready:
  "\<exists>h. init_memory = Inr (0, h) \<and> cp_inv 0 h \<and> live_blocks 0 h = {} \<and>
     cp_start (hp_pools h 0) = KPOOL_START \<and> cp_size (hp_pools h 0) = KPOOL_BYTES \<and>
     card (pool_used (hp_nodes h)) = 1 \<and> pool_cap (hp_nodes h) = unat MEM_CLUSTERS_MAX"
  using init_memory_run by (simp add: MEM_CLUSTERS_MAX_def)

text \<open>C1: in a well-formed heap with a cluster record to spare, \<open>kmalloc\<close> returns. If some free
  cluster is large enough, the result is a new block inside the pool's region that overlaps no
  allocated block; otherwise it is 0 and no cluster changes. The heap stays well formed.\<close>

theorem kmalloc_block:
  assumes "cp_inv kpool h" "node_room h" "0 < unat n"
  shows "\<exists>a h'. kmalloc kpool n h = Inr (a, h') \<and> cp_inv kpool h' \<and>
    (if \<exists>x \<in> pool_used (hp_nodes h). cl_parent (node h x) = kpool \<and> fits h n x
     then a \<noteq> 0 \<and> live_blocks kpool h' = insert (unat a, unat n) (live_blocks kpool h) \<and>
       unat (cp_start (hp_pools h kpool)) \<le> unat a \<and>
       unat a + unat n \<le> unat (cp_start (hp_pools h kpool)) + unat (cp_size (hp_pools h kpool)) \<and>
       (\<forall>(b, m) \<in> live_blocks kpool h. unat a + unat n \<le> b \<or> b + m \<le> unat a)
     else a = 0 \<and> hp_nodes h' = hp_nodes h)"
proof (cases "\<exists>x \<in> pool_used (hp_nodes h). cl_parent (node h x) = kpool \<and> fits h n x")
  case True
  with kmalloc_found [OF assms] show ?thesis unfolding if_P [OF True] by blast
next
  case False
  with kmalloc_none [OF assms(1) False] show ?thesis unfolding if_not_P [OF False] by blast
qed

theorem kmalloc_block_witness:
  "\<exists>h a h'. init_memory = Inr (0, h) \<and> kmalloc 0 64 h = Inr (a, h') \<and> cp_inv 0 h'"
proof -
  obtain h where "init_memory = Inr (0, h)" "cp_inv 0 h" "node_room h"
    using init_memory_run by (auto simp: node_room_def)
  with kmalloc_block [of 0 h 64] show ?thesis by auto
qed


lemma small_pool:
  "\<exists>h. create_memory_cluster_pool 1000 100 small_heap = Inr (0, h) \<and> cp_inv 0 h \<and> node_room h \<and>
     live_blocks 0 h = {} \<and> cp_start (hp_pools h 0) = 1000"
  using first_pool_ready [of "create_pool cluster_zero 8 0" "create_pool cluster_pool_zero 2 0" 1000 100]
  by (auto simp: small_heap_def create_pool_inv node_room_def)

lemma small_pool_kmalloc:
  "\<exists>h h'. create_memory_cluster_pool 1000 100 small_heap = Inr (0, h) \<and> cp_inv 0 h \<and> node_room h \<and>
     live_blocks 0 h = {} \<and> kmalloc 0 50 h = Inr (1050, h') \<and> cp_inv 0 h' \<and>
     (1050, 50) \<in> live_blocks 0 h' \<and> freeable 0 1050 h'"
proof -
  from small_pool obtain h where h: "create_memory_cluster_pool 1000 100 small_heap = Inr (0, h)"
    "cp_inv 0 h" "node_room h" "live_blocks 0 h = {}" "cp_start (hp_pools h 0) = 1000" by blast
  have "rbind (create_memory_cluster_pool 1000 100 small_heap) (\<lambda>(k, h).
      rbind (kmalloc k 50 h) (\<lambda>(a, h). Inr a)) = Inr 1050"
    by (simp add: run cong: rbind_weak_cong let_weak_cong)
  with h obtain h' where h': "kmalloc 0 50 h = Inr (1050, h')" by (auto simp: rbind_eq_Inr)
  then have "clusterpool_allocate 0 50 h = Inr (1050, h')" by (simp add: kmalloc_def)
  with h cp.malloc_cases [OF h(2,3), of 50] allocate_region(1) [of 0 50 h 1050 h'] h'
  show ?thesis by (auto simp: freeable_def)
qed




text \<open>\<open>kfree\<close> of an address at which no cluster starts changes no cluster.\<close>

theorem kfree_unknown:
  assumes "cp_inv kpool h" "\<forall>x \<in> pool_used (hp_nodes h). cl_parent (node h x) = kpool \<longrightarrow> cl_start (node h x) \<noteq> a"
  shows "\<exists>h'. kfree kpool a h = Inr h' \<and> cp_inv kpool h' \<and> hp_nodes h' = hp_nodes h"
proof -
  from assms(1) obtain xs where hi: "heap_inv kpool xs h" by (auto simp: cp_inv_def)
  have "\<forall>x \<in> set xs. cl_start (node h x) \<noteq> a"
    using assms(2) shapeD(2,4) [OF heap_invD(1) [OF hi]] by blast
  from free_unknown [OF hi this] show ?thesis by (metis kfree_def cp_inv_def)
qed

theorem kfree_unknown_witness:
  "\<exists>h h'. create_memory_cluster_pool 1000 100 small_heap = Inr (0, h) \<and>
     kfree 0 7 h = Inr h' \<and> hp_nodes h' = hp_nodes h"
proof -
  from small_pool obtain h where h: "create_memory_cluster_pool 1000 100 small_heap = Inr (0, h)"
    "cp_inv 0 h" "cp_start (hp_pools h 0) = 1000" by blast
  from h(2) obtain xs where hi: "heap_inv 0 xs h" by (auto simp: cp_inv_def)
  note sd = shapeD [OF heap_invD(1) [OF hi]]
  have "\<forall>x \<in> pool_used (hp_nodes h). cl_parent (node h x) = 0 \<longrightarrow> cl_start (node h x) \<noteq> 7"
    using tiled_within [OF sd(8)] sd(9) h(3) by force
  with kfree_unknown [OF h(2), of 7] h(1) show ?thesis by blast
qed

text \<open>\<open>kcalloc\<close> of less than 2 GiB returns what \<open>kmalloc\<close> returns and clears exactly the
  bytes of the block, given a block that lies below the end of the address space.\<close>

theorem kcalloc_clears:
  assumes "kmalloc kpool n h = Inr (a, h')" "unat n < 2 ^ 31" "unat a + unat n \<le> 2 ^ 32"
  shows "\<exists>mem'. kcalloc kpool n h mem = Inr (a, h', mem') \<and>
    (\<forall>x. mem' x = (if unat a \<le> unat x \<and> unat x < unat a + unat n then 0 else mem x))"
proof -
  have "unat (x - a) < unat n \<longleftrightarrow> unat a \<le> unat x \<and> unat x < unat a + unat n" for x :: u32
    using assms(2,3) unat_u32_less [of x] unat_u32_less [of a] by (auto simp: unat_sub_if' split: if_splits)
  then show ?thesis
    using assms by (simp add: kcalloc_def nat_sint_u32 zero_bytes_apply)
qed

theorem kcalloc_clears_witness:
  "\<exists>h h' mem'. create_memory_cluster_pool 1000 100 small_heap = Inr (0, h) \<and>
     kcalloc 0 50 h (\<lambda>_. 7) = Inr (1050, h', mem') \<and> mem' 1060 = 0 \<and> mem' 1049 = 7"
  using small_pool_kmalloc kcalloc_clears [of 0 50 _ 1050 _ "\<lambda>_. 7"] by fastforce

section \<open>Boundary merges\<close>

text \<open>
  \<open>Cluster::free\<close> merges a cluster with its ring predecessor without asking whether the
  predecessor lies before it. The predecessor of the first cluster of the region is the last.
\<close>


text \<open>Three blocks fill a pool of 100 bytes at 1000; the highest is freed, then the lowest.
  The last cluster is merged with the first across the end of the region: a request for 60
  bytes is given the block from 1065 to 1125, past the end of the pool at 1100.\<close>

theorem boundary_free_past_the_end:
  "rbind (create_memory_cluster_pool 1000 100 small_heap) (\<lambda>(kpool, h).
   rbind (kmalloc kpool 50 h) (\<lambda>(high, h).
   rbind (kmalloc kpool 25 h) (\<lambda>(mid, h).
   rbind (kmalloc kpool 25 h) (\<lambda>(low, h).
   rbind (kfree kpool high h) (\<lambda>h.
   rbind (kfree kpool low h) (\<lambda>h.
   rbind (kmalloc kpool 60 h) (\<lambda>(a, h).
     Inr (high, mid, low, a, cp_limit (hp_pools h kpool))))))))) = Inr (1050, 1025, 1000, 1065, 1100)"
  by (simp add: run cong: rbind_weak_cong let_weak_cong)

text \<open>A block and the free rest of the region are a ring of two clusters. Freeing the block
  merges nothing, so the whole region can no longer be had at once.\<close>

theorem two_clusters_never_merge:
  "rbind (create_memory_cluster_pool 1000 100 small_heap) (\<lambda>(kpool, h).
   rbind (kmalloc kpool 50 h) (\<lambda>(a, h).
   rbind (kfree kpool a h) (\<lambda>h.
   rbind (kmalloc kpool 100 h) (\<lambda>(b, h).
     Inr (a, cp_bytes_used (hp_pools h kpool), b))))) = Inr (1050, 0, 0)"
  by (simp add: run cong: rbind_weak_cong let_weak_cong)

section \<open>The layout of the metadata\<close>


end
