(* ===== verification/Sched.thy ===== *)
theory Sched
  imports Memory
begin

text \<open>
  The scheduler of \<open>kernel/scheduler.cpp\<close> with the thread control blocks of
  \<open>kernel/structs/controlblock.hpp\<close>, at pointer level: the ready threads form a ring through
  \<open>next\<close> and \<open>prev\<close>, the blocked ones lists through \<open>next\<close> that end in null. A \<open>Thread *\<close> is an
  address, 0 is null; a \<open>Thread **\<close> (the queue field of a lock, condition, semaphore or
  barrier) is the number of the queue. The theorems relate this to the lists of threads.
\<close>

section \<open>State\<close>

datatype task_state = READY | RUNNING | BLOCKED | EXITED | EXITED_NO_ZOMBIE

record stack =
  bottom :: u32
  sp :: u32

record thread =
  tid :: u32
  state :: task_state
  kernel_stack :: stack
  user_stack :: stack
  page_directory :: u32
  t_next :: u32
  t_prev :: u32

record sched =
  threads :: "u32 \<Rightarrow> thread"
  current_running :: u32
  zombie :: u32
  queues :: "nat \<Rightarrow> u32"
  tss_esp0 :: u32
  cr3 :: u32
  kheap :: heap
  kpool :: nat

abbreviation cur :: "sched \<Rightarrow> thread" where
  "cur s \<equiv> threads s (current_running s)"

abbreviation tnext :: "sched \<Rightarrow> u32 \<Rightarrow> u32" where
  "tnext s \<equiv> \<lambda>t. t_next (threads s t)"

abbreviation tprev :: "sched \<Rightarrow> u32 \<Rightarrow> u32" where
  "tprev s \<equiv> \<lambda>t. t_prev (threads s t)"

definition upd_thread :: "u32 \<Rightarrow> (thread \<Rightarrow> thread) \<Rightarrow> sched \<Rightarrow> sched" where
  "upd_thread t f s = s\<lparr>threads := (threads s)(t := f (threads s t))\<rparr>"

definition STACK_SIZE :: u32 where "STACK_SIZE = 0x2000"

definition configure_stack :: "u32 \<Rightarrow> u32 \<Rightarrow> stack" where
  "configure_stack in_bottom sz = \<lparr>bottom = in_bottom, sp = in_bottom + sz\<rparr>"

section \<open>Operations\<close>

definition pop_ready_queue :: "sched \<Rightarrow> (u32 \<times> sched) result" where
  "pop_ready_queue s =
     (if t_next (cur s) = current_running s then Inl Halted
      else
        let to_remove = current_running s;
            s = s\<lparr>current_running := t_next (cur s)\<rparr>;
            s = upd_thread (tprev s to_remove) (\<lambda>t. t\<lparr>t_next := tnext s to_remove\<rparr>) s;
            s = upd_thread (tnext s to_remove) (\<lambda>t. t\<lparr>t_prev := tprev s to_remove\<rparr>) s;
            s = upd_thread to_remove (\<lambda>t. t\<lparr>t_next := 0\<rparr>) s;
            s = upd_thread to_remove (\<lambda>t. t\<lparr>t_prev := 0\<rparr>) s
        in Inr (to_remove, s))"

definition free_kstack :: "stack \<Rightarrow> sched \<Rightarrow> sched result" where
  "free_kstack stk s = rbind (kfree (kpool s) (bottom stk) (kheap s)) (\<lambda>h. Inr (s\<lparr>kheap := h\<rparr>))"

definition thread_reap :: "u32 \<Rightarrow> sched \<Rightarrow> sched result" where
  "thread_reap t s =
     rbind (free_kstack (kernel_stack (threads s t)) s) (\<lambda>s.
     rbind (kfree (kpool s) t (kheap s)) (\<lambda>h. Inr (s\<lparr>kheap := h\<rparr>)))"

text \<open>The parts of \<open>scheduler\<close>: reap the last zombie, leave the running thread, enter the next.\<close>

definition reap_zombie :: "sched \<Rightarrow> sched result" where
  "reap_zombie s =
     (if zombie s \<noteq> 0
      then rbind (thread_reap (zombie s) s) (\<lambda>s. Inr (s\<lparr>zombie := 0\<rparr>))
      else Inr s)"

definition leave_current :: "sched \<Rightarrow> sched result" where
  "leave_current s =
     (case state (cur s) of
        READY \<Rightarrow> Inr (s\<lparr>current_running := t_next (cur s)\<rparr>)
      | EXITED_NO_ZOMBIE \<Rightarrow> rbind (pop_ready_queue s) (\<lambda>(_, s). Inr s)
      | BLOCKED \<Rightarrow> rbind (pop_ready_queue s) (\<lambda>(_, s). Inr s)
      | EXITED \<Rightarrow> rbind (pop_ready_queue s) (\<lambda>(z, s). Inr (s\<lparr>zombie := z\<rparr>))
      | RUNNING \<Rightarrow> Inr s)"

definition enter_current :: "sched \<Rightarrow> u32 \<times> sched" where
  "enter_current s =
     (let s = upd_thread (current_running s) (\<lambda>t. t\<lparr>state := READY\<rparr>) s;
          s = s\<lparr>tss_esp0 := bottom (kernel_stack (cur s)) + STACK_SIZE\<rparr>;
          s = (if page_directory (cur s) \<noteq> 0 then s\<lparr>cr3 := page_directory (cur s)\<rparr> else s)
      in (sp (kernel_stack (cur s)), s))"

definition scheduler :: "u32 \<Rightarrow> sched \<Rightarrow> (u32 \<times> sched) result" where
  "scheduler old_esp s =
     (let s = upd_thread (current_running s)
                (\<lambda>t. t\<lparr>kernel_stack := (kernel_stack t)\<lparr>sp := old_esp\<rparr>\<rparr>) s
      in rbind (reap_zombie s) (\<lambda>s. rbind (leave_current s) (\<lambda>s. Inr (enter_current s))))"

text \<open>
  Calls of the scheduler by the running thread. The argument \<open>esp\<close> is the stack pointer that
  \<open>scheduler_entry\<close> passes after it saved the registers.
\<close>

definition r0_yield :: "u32 \<Rightarrow> sched \<Rightarrow> (u32 \<times> sched) result" where
  "r0_yield esp s = scheduler esp s"

definition r0_exit_no_zombie :: "u32 \<Rightarrow> sched \<Rightarrow> (u32 \<times> sched) result" where
  "r0_exit_no_zombie esp s =
     scheduler esp (upd_thread (current_running s) (\<lambda>t. t\<lparr>state := EXITED_NO_ZOMBIE\<rparr>) s)"

definition r3_exit :: "u32 \<Rightarrow> sched \<Rightarrow> (u32 \<times> sched) result" where
  "r3_exit esp s = scheduler esp (upd_thread (current_running s) (\<lambda>t. t\<lparr>state := EXITED\<rparr>) s)"

text \<open>The loop of \<open>block\<close> that walks to the last thread of a queue.\<close>

partial_function (option) find_tail :: "sched \<Rightarrow> u32 \<Rightarrow> u32 option" where
  "find_tail s t = (if t_next (threads s t) \<noteq> 0 then find_tail s (t_next (threads s t)) else Some t)"

definition block :: "nat \<Rightarrow> u32 \<Rightarrow> sched \<Rightarrow> (u32 \<times> sched) result" where
  "block q esp s =
     (let s = upd_thread (current_running s) (\<lambda>t. t\<lparr>state := BLOCKED\<rparr>) s
      in rbind (if queues s q = 0 then Inr (s\<lparr>queues := (queues s)(q := current_running s)\<rparr>)
                else case find_tail s (queues s q) of
                  None \<Rightarrow> Inl Diverges
                | Some t \<Rightarrow> Inr (upd_thread t (\<lambda>x. x\<lparr>t_next := current_running s\<rparr>) s))
           (scheduler esp))"

text \<open>\<open>unblock\<close> of a queue that is not empty.\<close>

definition wake :: "nat \<Rightarrow> sched \<Rightarrow> sched" where
  "wake q s =
     (let t = queues s q;
          s = s\<lparr>queues := (queues s)(q := tnext s (queues s q))\<rparr>;
          s = upd_thread t (\<lambda>x. x\<lparr>state := READY\<rparr>) s;
          s = upd_thread t (\<lambda>x. x\<lparr>t_next := t_next (cur s)\<rparr>) s;
          s = upd_thread t (\<lambda>x. x\<lparr>t_prev := current_running s\<rparr>) s;
          s = upd_thread (t_next (cur s)) (\<lambda>x. x\<lparr>t_prev := t\<rparr>) s
      in upd_thread (current_running s) (\<lambda>x. x\<lparr>t_next := t\<rparr>) s)"

definition unblock :: "nat \<Rightarrow> sched \<Rightarrow> sched result" where
  "unblock q s = (if queues s q = 0 then Inl NullDeref else Inr (wake q s))"

text \<open>The loop \<open>while (queue != nullptr) unblock(&queue)\<close>.\<close>

partial_function (option) wake_all :: "nat \<Rightarrow> sched \<Rightarrow> sched option" where
  "wake_all q s = (if queues s q = 0 then Some s else wake_all q (wake q s))"

text \<open>The splice at the end of \<open>thread_create\<close>: the new thread is the last of the ready ring.\<close>

definition splice :: "u32 \<Rightarrow> sched \<Rightarrow> sched" where
  "splice t s =
     (if current_running s \<noteq> 0
      then
        let s = upd_thread t (\<lambda>x. x\<lparr>t_next := current_running s\<rparr>) s;
            s = upd_thread t (\<lambda>x. x\<lparr>t_prev := t_prev (cur s)\<rparr>) s;
            s = upd_thread (t_prev (cur s)) (\<lambda>x. x\<lparr>t_next := t\<rparr>) s
        in upd_thread (current_running s) (\<lambda>x. x\<lparr>t_prev := t\<rparr>) s
      else (upd_thread t (\<lambda>x. x\<lparr>t_next := t, t_prev := t\<rparr>) s)\<lparr>current_running := t\<rparr>)"

section \<open>The lists of threads\<close>

text \<open>\<open>nlist nxt a xs\<close>: from \<open>a\<close>, the links \<open>nxt\<close> visit \<open>xs\<close> and end in null.\<close>

fun nlist :: "(u32 \<Rightarrow> u32) \<Rightarrow> u32 \<Rightarrow> u32 list \<Rightarrow> bool" where
  "nlist nxt a [] \<longleftrightarrow> a = 0"
| "nlist nxt a (x # xs) \<longleftrightarrow> a = x \<and> x \<noteq> 0 \<and> nlist nxt (nxt x) xs"

text \<open>
  \<open>sched_rel s rs bs\<close>: the ready threads are \<open>rs\<close>, starting with the running one, and the
  threads of queue \<open>q\<close> are \<open>bs q\<close>. It says nothing of the state of the running thread, which
  is about to change when the scheduler is called.
\<close>

definition sched_rel :: "sched \<Rightarrow> u32 list \<Rightarrow> (nat \<Rightarrow> u32 list) \<Rightarrow> bool" where
  "sched_rel s rs bs \<longleftrightarrow>
     ring (tnext s) (tprev s) rs \<and> current_running s = hd rs \<and> 0 \<notin> set rs \<and>
     (\<forall>t \<in> set (tl rs). state (threads s t) = READY) \<and>
     (\<forall>q. nlist (tnext s) (queues s q) (bs q) \<and> distinct (bs q) \<and> set rs \<inter> set (bs q) = {} \<and>
        (\<forall>t \<in> set (bs q). state (threads s t) = BLOCKED)) \<and>
     (\<forall>q q'. q \<noteq> q' \<longrightarrow> set (bs q) \<inter> set (bs q') = {})"

definition sched_inv :: "sched \<Rightarrow> u32 list \<Rightarrow> (nat \<Rightarrow> u32 list) \<Rightarrow> bool" where
  "sched_inv s rs bs \<longleftrightarrow> sched_rel s rs bs \<and> state (cur s) = READY"


section \<open>Links\<close>

text \<open>The operations change the links of the threads; this sets all links at once.\<close>

definition relink :: "(u32 \<Rightarrow> u32) \<Rightarrow> (u32 \<Rightarrow> u32) \<Rightarrow> sched \<Rightarrow> sched" where
  "relink n p s = s\<lparr>threads := (\<lambda>t. (threads s t)\<lparr>t_next := n t, t_prev := p t\<rparr>)\<rparr>"

lemma upd_thread_simps [simp]:
  "threads (upd_thread t f s) = (threads s)(t := f (threads s t))"
  "current_running (upd_thread t f s) = current_running s"
  "zombie (upd_thread t f s) = zombie s"
  "queues (upd_thread t f s) = queues s"
  "kheap (upd_thread t f s) = kheap s"
  "kpool (upd_thread t f s) = kpool s"
  "cr3 (upd_thread t f s) = cr3 s"
  by (simp_all add: upd_thread_def)

lemma relink_simps [simp]:
  "threads (relink n p s) = (\<lambda>t. (threads s t)\<lparr>t_next := n t, t_prev := p t\<rparr>)"
  "current_running (relink n p s) = current_running s"
  "zombie (relink n p s) = zombie s"
  "queues (relink n p s) = queues s"
  "kheap (relink n p s) = kheap s"
  "kpool (relink n p s) = kpool s"
  "cr3 (relink n p s) = cr3 s"
  by (simp_all add: relink_def)

lemma pop_ready_queue_run:
  assumes "tnext s (current_running s) \<noteq> current_running s"
  defines "c \<equiv> current_running s"
  shows "pop_ready_queue s = Inr (c,
    (relink ((tnext s)(tprev s c := tnext s c, c := 0)) ((tprev s)(tnext s c := tprev s c, c := 0)) s)
      \<lparr>current_running := tnext s c\<rparr>)"
  using assms(1) unfolding c_def
  by (auto simp: pop_ready_queue_def Let_def upd_thread_def relink_def fun_eq_iff)

lemma wake_run:
  assumes "queues s q \<noteq> 0" "queues s q \<noteq> current_running s" 
  defines "t \<equiv> queues s q" and "c \<equiv> current_running s"
  shows "wake q s =
    (upd_thread t (\<lambda>x. x\<lparr>state := READY\<rparr>)
      (relink ((tnext s)(c := t, t := tnext s c)) ((tprev s)(t := c, tnext s c := t)) s))
        \<lparr>queues := (queues s)(q := tnext s t)\<rparr>"
proof -
  have tc: "t \<noteq> c" using assms(2) by (simp add: t_def c_def)
  have "threads (wake q s) x = threads (upd_thread t (\<lambda>x. x\<lparr>state := READY\<rparr>)
      (relink ((tnext s)(c := t, t := tnext s c)) ((tprev s)(t := c, tnext s c := t)) s)) x" for x
    using tc by (simp add: wake_def Let_def t_def [symmetric] c_def [symmetric])
  then have "threads (wake q s) = threads (upd_thread t (\<lambda>x. x\<lparr>state := READY\<rparr>)
      (relink ((tnext s)(c := t, t := tnext s c)) ((tprev s)(t := c, tnext s c := t)) s))" ..
  then show ?thesis
    by (simp add: wake_def Let_def upd_thread_def relink_def t_def)
qed

section \<open>Null-terminated queues\<close>

lemma nlist_cong: "(\<And>x. x \<in> set xs \<Longrightarrow> nxt x = nxt' x) \<Longrightarrow> nlist nxt a xs = nlist nxt' a xs"
  by (induction xs arbitrary: a) auto

lemma nlist_other [simp]: "c \<notin> set xs \<Longrightarrow> nlist (nxt(c := v)) a xs = nlist nxt a xs"
  by (rule nlist_cong) auto

lemma nlist_not_null: "nlist nxt a xs \<Longrightarrow> 0 \<notin> set xs"
  by (induction xs arbitrary: a) auto

lemma nlist_snoc:
  "nlist nxt a xs \<Longrightarrow> distinct xs \<Longrightarrow> xs \<noteq> [] \<Longrightarrow> c \<noteq> 0 \<Longrightarrow> c \<notin> set xs \<Longrightarrow>
     nlist (nxt(last xs := c, c := 0)) a (xs @ [c])"
proof (induction xs arbitrary: a)
  case (Cons x xs)
  show ?case
  proof (cases xs)
    case (Cons y ys)
    with Cons.IH [of "nxt x"] Cons.prems show ?thesis by (auto split: if_splits)
  qed (use Cons.prems in auto)
qed simp

lemma find_tail_last: "nlist (tnext s) a xs \<Longrightarrow> xs \<noteq> [] \<Longrightarrow> find_tail s a = Some (last xs)"
proof (induction xs arbitrary: a)
  case (Cons x xs)
  then show ?case by (cases xs; subst find_tail.simps) auto
qed simp

section \<open>Switching\<close>

text \<open>The heap after the memory of the last zombie is given back.\<close>

definition reap_heap :: "sched \<Rightarrow> heap result" where
  "reap_heap s =
     (if zombie s = 0 then Inr (kheap s)
      else rbind (kfree (kpool s) (bottom (kernel_stack (threads s (zombie s)))) (kheap s))
             (kfree (kpool s) (zombie s)))"

lemma reap_zombie_heap: "reap_zombie s = rbind (reap_heap s) (\<lambda>h. Inr (s\<lparr>kheap := h, zombie := 0\<rparr>))"
  by (auto simp: reap_zombie_def reap_heap_def thread_reap_def free_kstack_def rbind_def split: sum.splits)

lemma reap_heap_cong:
  "zombie s' = zombie s \<Longrightarrow> kpool s' = kpool s \<Longrightarrow> kheap s' = kheap s \<Longrightarrow>
     (\<And>t. bottom (kernel_stack (threads s' t)) = bottom (kernel_stack (threads s t))) \<Longrightarrow>
     reap_heap s' = reap_heap s"
  by (simp add: reap_heap_def)

text \<open>
  What a switch does to the contexts: the stack pointer of the thread that is left is saved,
  all other contexts are kept, and the processor is set up for the thread that is entered.
\<close>

definition switched :: "u32 \<Rightarrow> u32 \<Rightarrow> sched \<Rightarrow> sched \<Rightarrow> bool" where
  "switched old_esp new_esp s s' \<longleftrightarrow>
     (\<forall>t. kernel_stack (threads s' t) =
        (if t = current_running s then (kernel_stack (threads s t))\<lparr>sp := old_esp\<rparr>
         else kernel_stack (threads s t)) \<and>
       user_stack (threads s' t) = user_stack (threads s t) \<and>
       page_directory (threads s' t) = page_directory (threads s t) \<and>
       tid (threads s' t) = tid (threads s t)) \<and>
     new_esp = sp (kernel_stack (cur s')) \<and>
     tss_esp0 s' = bottom (kernel_stack (cur s')) + STACK_SIZE \<and>
     cr3 s' = (if page_directory (cur s') \<noteq> 0 then page_directory (cur s') else cr3 s) \<and>
     kpool s' = kpool s \<and> reap_heap s = Inr (kheap s')"

lemma enter_current_simps [simp]:
  "fst (enter_current s) = sp (kernel_stack (cur s))"
  "threads (snd (enter_current s)) = (threads s)(current_running s := (cur s)\<lparr>state := READY\<rparr>)"
  "current_running (snd (enter_current s)) = current_running s"
  "queues (snd (enter_current s)) = queues s"
  "zombie (snd (enter_current s)) = zombie s"
  "kheap (snd (enter_current s)) = kheap s"
  "kpool (snd (enter_current s)) = kpool s"
  "tss_esp0 (snd (enter_current s)) = bottom (kernel_stack (cur s)) + STACK_SIZE"
  "cr3 (snd (enter_current s)) = (if page_directory (cur s) \<noteq> 0 then page_directory (cur s) else cr3 s)"
  by (simp_all add: enter_current_def Let_def)

lemma scheduler_ready_run:
  assumes "state (cur s) = READY" "reap_heap s = Inr h"
  obtains s' new_esp where "scheduler esp s = Inr (new_esp, s')" "switched esp new_esp s s'"
    "tnext s' = tnext s" "tprev s' = tprev s" "queues s' = queues s" "zombie s' = 0"
    "current_running s' = tnext s (current_running s)"
    "\<And>t. state (threads s' t) = (if t = current_running s' then READY else state (threads s t))"
proof -
  let ?c = "current_running s"
  define s1 where "s1 = upd_thread ?c (\<lambda>t. t\<lparr>kernel_stack := (kernel_stack t)\<lparr>sp := esp\<rparr>\<rparr>) s"
  have "reap_heap s1 = reap_heap s" by (intro reap_heap_cong) (simp_all add: s1_def)
  define s2 where "s2 = s1\<lparr>kheap := h, zombie := 0, current_running := tnext s ?c\<rparr>"
  have run: "scheduler esp s = Inr (enter_current s2)"
    using assms \<open>reap_heap s1 = reap_heap s\<close>
    by (simp add: scheduler_def reap_zombie_heap leave_current_def Let_def s1_def s2_def)
  show thesis
    by (rule that [of "fst (enter_current s2)" "snd (enter_current s2)"])
      (use run assms(2) in \<open>simp_all add: s2_def s1_def switched_def fun_eq_iff prod_eq_iff\<close>)
qed

lemma scheduler_pop_run:
  assumes st: "state (cur s) \<in> {BLOCKED, EXITED, EXITED_NO_ZOMBIE}" and h: "reap_heap s = Inr h"
    and more: "tnext s (current_running s) \<noteq> current_running s"
  defines "c \<equiv> current_running s"
  obtains s' new_esp where "scheduler esp s = Inr (new_esp, s')" "switched esp new_esp s s'"
    "tnext s' = (tnext s)(tprev s c := tnext s c, c := 0)"
    "tprev s' = (tprev s)(tnext s c := tprev s c, c := 0)" "queues s' = queues s"
    "zombie s' = (if state (cur s) = EXITED then c else 0)" "current_running s' = tnext s c"
    "\<And>t. state (threads s' t) = (if t = tnext s c then READY else state (threads s t))"
proof -
  define s1 where "s1 = upd_thread c (\<lambda>t. t\<lparr>kernel_stack := (kernel_stack t)\<lparr>sp := esp\<rparr>\<rparr>) s"
  define s2 where "s2 = (relink ((tnext s)(tprev s c := tnext s c, c := 0))
      ((tprev s)(tnext s c := tprev s c, c := 0)) (s1\<lparr>kheap := h, zombie := 0\<rparr>))
      \<lparr>current_running := tnext s c, zombie := (if state (cur s) = EXITED then c else 0)\<rparr>"
  have "reap_heap s1 = Inr h" using h by (subst reap_heap_cong [of s1 s]) (simp_all add: s1_def)
  moreover have links: "t_next (threads s1 t) = t_next (threads s t)"
      "t_prev (threads s1 t) = t_prev (threads s t)" "current_running s1 = c"
      "state (threads s1 t) = state (threads s t)" for t
    by (auto simp: s1_def c_def)
  moreover have "leave_current (s1\<lparr>kheap := h, zombie := 0\<rparr>) = Inr s2"
    using st more pop_ready_queue_run [of "s1\<lparr>kheap := h, zombie := 0\<rparr>"]
    by (auto simp: leave_current_def s2_def links c_def [symmetric])
  ultimately have run: "scheduler esp s = Inr (enter_current s2)"
    by (simp add: scheduler_def reap_zombie_heap Let_def s1_def c_def [symmetric])
  have n: "tnext s c \<noteq> c" using more by (simp add: c_def)
  have k: "kernel_stack (threads s2 t) = (if t = c then (kernel_stack (threads s t))\<lparr>sp := esp\<rparr> else kernel_stack (threads s t))"
      "user_stack (threads s2 t) = user_stack (threads s t)"
      "page_directory (threads s2 t) = page_directory (threads s t)" "tid (threads s2 t) = tid (threads s t)"
      "state (threads s2 t) = state (threads s t)"
      "t_next (threads s2 t) = ((tnext s)(tprev s c := tnext s c, c := 0)) t"
      "t_prev (threads s2 t) = ((tprev s)(tnext s c := tprev s c, c := 0)) t" for t
    by (simp_all add: s2_def s1_def)
  have f: "current_running s2 = tnext s c" "queues s2 = queues s" "kpool s2 = kpool s" "cr3 s2 = cr3 s"
      "kheap s2 = h" "zombie s2 = (if state (cur s) = EXITED then c else 0)"
    by (simp_all add: s2_def s1_def)
  show thesis
    by (rule that [of "fst (enter_current s2)" "snd (enter_current s2)"])
      (use run h n in \<open>simp_all add: k f switched_def fun_eq_iff prod_eq_iff c_def [symmetric]\<close>)
qed

section \<open>Simulation\<close>

lemma sched_relD:
  assumes "sched_rel s rs bs"
  shows "ring (tnext s) (tprev s) rs" "current_running s = hd rs" "0 \<notin> set rs"
    "t \<in> set (tl rs) \<Longrightarrow> state (threads s t) = READY"
    "nlist (tnext s) (queues s q) (bs q)" "distinct (bs q)" "set rs \<inter> set (bs q) = {}"
    "t \<in> set (bs q) \<Longrightarrow> state (threads s t) = BLOCKED"
    "q \<noteq> q' \<Longrightarrow> set (bs q) \<inter> set (bs q') = {}"
  using assms by (simp_all add: sched_rel_def)

lemma sched_invD:
  assumes "sched_inv s rs bs"
  shows "sched_rel s rs bs" "state (cur s) = READY"
  using assms by (simp_all add: sched_inv_def)

lemma queue_null_iff: "sched_rel s rs bs \<Longrightarrow> queues s q = 0 \<longleftrightarrow> bs q = []"
  using sched_relD(5) [of s rs bs q] by (cases "bs q") auto

lemma yield_sim:
  assumes inv: "sched_inv s (c # rs) bs" and h: "reap_heap s = Inr h"
  obtains s' e where "scheduler esp s = Inr (e, s')" "switched esp e s s'"
    "sched_inv s' (rs @ [c]) bs" "zombie s' = 0"
proof -
  note i = sched_relD [OF sched_invD(1) [OF inv]]
  obtain e s' where run: "scheduler esp s = Inr (e, s')" "switched esp e s s'"
      "tnext s' = tnext s" "tprev s' = tprev s" "queues s' = queues s" "zombie s' = 0"
      "current_running s' = tnext s (current_running s)"
      "\<And>t. state (threads s' t) = (if t = current_running s' then READY else state (threads s t))"
    by (rule scheduler_ready_run [OF sched_invD(2) [OF inv] h]) blast
  have hd: "current_running s' = hd (rs @ [c])"
    using run(7) ring_hd_next [OF i(1)] i(2) by simp
  have c: "current_running s = c" using i(2) by simp
  have st: "state (threads s' t) = READY" if "t \<in> set (rs @ [c])" for t
    using run(8) that i(4) [of t] sched_invD(2) [OF inv] c by auto
  have bst: "state (threads s' t) = BLOCKED" if "t \<in> set (bs q)" for t q
  proof -
    have "current_running s' \<in> set (c # rs)" unfolding hd by (cases rs) auto
    then have "t \<noteq> current_running s'" using i(7) [of q] that by blast
    with run(8) i(8) that show ?thesis by simp
  qed
  have "sched_rel s' (rs @ [c]) bs"
    unfolding sched_rel_def
    using i(1,3,5,6,7,9) run(3-5) hd st bst ring_rotate1 [of "tnext s" "tprev s" c rs]
    by (auto dest: list.set_sel(2) [rotated])
  moreover have "state (cur s') = READY" using run(8) by simp
  ultimately show thesis using that run(1,2,6) by (simp add: sched_inv_def)
qed

text \<open>
  Leaving the ring. When \<open>block\<close> calls the scheduler, the running thread is at the end of a
  queue already, but its own link still points into the ring.
\<close>

lemma pop_sim:
  assumes r: "ring (tnext s) (tprev s) (c # d # rs)" "current_running s = c" "0 \<notin> set (d # rs)"
    and st: "state (cur s) \<in> {BLOCKED, EXITED, EXITED_NO_ZOMBIE}"
    and ready: "\<And>t. t \<in> set (d # rs) \<Longrightarrow> state (threads s t) = READY"
    and q: "\<And>q. nlist ((tnext s)(c := 0)) (queues s q) (bs q)" "\<And>q. distinct (bs q)"
      "\<And>q. set (d # rs) \<inter> set (bs q) = {}"
      "\<And>q t. t \<in> set (bs q) \<Longrightarrow> state (threads s t) = BLOCKED"
      "\<And>q q'. q \<noteq> q' \<Longrightarrow> set (bs q) \<inter> set (bs q') = {}"
    and h: "reap_heap s = Inr h"
  obtains s' e where "scheduler esp s = Inr (e, s')" "switched esp e s s'" "sched_inv s' (d # rs) bs"
    "zombie s' = (if state (cur s) = EXITED then c else 0)"
proof -
  have d: "tnext s c = d" "tprev s c = last (d # rs)"
    using ring_next [of "tnext s" "tprev s" "[]" c d rs] ring_wrap [OF r(1)] r(1) by auto
  have c: "c \<notin> set (d # rs)" using ring_distinct [OF r(1)] by simp
  have "d \<noteq> c" using c by auto
  then obtain e s' where run: "scheduler esp s = Inr (e, s')" "switched esp e s s'"
      "tnext s' = (tnext s)(tprev s c := d, c := 0)" "tprev s' = (tprev s)(d := tprev s c, c := 0)"
      "queues s' = queues s" "zombie s' = (if state (threads s c) = EXITED then c else 0)"
      "current_running s' = d" "\<And>t. state (threads s' t) = (if t = d then READY else state (threads s t))"
    by (rule scheduler_pop_run [where esp = esp, OF st h, unfolded r(2) d(1)]) blast
  have "ring (tnext s') (tprev s') (d # rs)"
    by (rule ring_cong [OF ring_pop [OF r(1)]]) (use c d(1) in \<open>auto simp: fun_cong [OF run(3)] fun_cong [OF run(4)]\<close>)
  moreover have "nlist (tnext s') (queues s' q) (bs q)" for q
  proof -
    have "last (d # rs) \<notin> set (bs q)" using q(3) [of q] last_in_set [of "d # rs"] by blast
    then have "nlist ((tnext s)(c := 0)) (queues s q) (bs q) = nlist (tnext s') (queues s q) (bs q)"
      by (intro nlist_cong) (auto simp: fun_cong [OF run(3)] d)
    with q(1) [of q] show ?thesis by (simp add: run(5))
  qed
  moreover have "state (threads s' t) = BLOCKED" if "t \<in> set (bs q)" for t q
    using q(3) [of q] q(4) that run(8) by auto
  ultimately have "sched_inv s' (d # rs) bs"
    unfolding sched_inv_def sched_rel_def using r(3) q(2,3,5) ready run(7,8) by auto
  with that run(1,2,6) r(2) show thesis by simp
qed

lemma exit_sim:
  assumes inv: "sched_inv s (c # d # rs) bs" and h: "reap_heap s = Inr h"
    and z: "z \<in> {EXITED, EXITED_NO_ZOMBIE}"
  obtains s' e where "scheduler esp (upd_thread c (\<lambda>t. t\<lparr>state := z\<rparr>) s) = Inr (e, s')"
    "switched esp e (upd_thread c (\<lambda>t. t\<lparr>state := z\<rparr>) s) s'" "sched_inv s' (d # rs) bs"
    "zombie s' = (if z = EXITED then c else 0)"
proof -
  let ?s = "upd_thread c (\<lambda>t. t\<lparr>state := z\<rparr>) s"
  note i = sched_relD [OF sched_invD(1) [OF inv]]
  have cd: "c \<notin> set (d # rs)" using ring_distinct [OF i(1)] by simp
  have links: "tnext ?s = tnext s" "tprev ?s = tprev s" by (auto simp: fun_eq_iff)
  have cq: "c \<notin> set (bs q)" for q using i(7) [of q] by auto
  show thesis
  proof (rule pop_sim [of ?s c d rs bs h esp])
    show "ring (tnext ?s) (tprev ?s) (c # d # rs)" unfolding links by (rule i(1))
    show "nlist ((tnext ?s)(c := 0)) (queues ?s q) (bs q)" for q
      unfolding links using i(5) [of q] cq [of q] by simp
    show "set (d # rs) \<inter> set (bs q) = {}" for q using i(7) [of q] by auto
    show "state (threads ?s t) = BLOCKED" if "t \<in> set (bs q)" for q t using that i(8) cq [of q] by auto
    show "reap_heap ?s = Inr h" using h by (subst reap_heap_cong [of ?s s]) simp_all
    show "state (threads ?s t) = READY" if "t \<in> set (d # rs)" for t using that i(4) [of t] cd by auto
  qed (use that i(2,3,6,9) z in auto)
qed

text \<open>The state in which \<open>block\<close> calls the scheduler.\<close>

definition enqueued :: "nat \<Rightarrow> u32 list \<Rightarrow> sched \<Rightarrow> sched" where
  "enqueued q ts s =
     (let s = upd_thread (current_running s) (\<lambda>t. t\<lparr>state := BLOCKED\<rparr>) s
      in if ts = [] then s\<lparr>queues := (queues s)(q := current_running s)\<rparr>
         else upd_thread (last ts) (\<lambda>x. x\<lparr>t_next := current_running s\<rparr>) s)"

lemma block_run:
  assumes "sched_inv s (c # rs) bs"
  shows "block q esp s = scheduler esp (enqueued q (bs q) s)"
proof -
  note i = sched_relD [OF sched_invD(1) [OF assms]]
  let ?s = "upd_thread (current_running s) (\<lambda>t. t\<lparr>state := BLOCKED\<rparr>) s"
  have "tnext ?s = tnext s" by (auto simp: fun_eq_iff)
  then have "bs q \<noteq> [] \<Longrightarrow> find_tail ?s (queues s q) = Some (last (bs q))"
    using i(5) [of q] find_tail_last [of ?s "queues s q" "bs q"] by simp
  with queue_null_iff [OF sched_invD(1) [OF assms], of q] show ?thesis
    by (simp add: block_def enqueued_def Let_def)
qed

lemma enqueued_simps [simp]:
  "current_running (enqueued q ts s) = current_running s"
  "zombie (enqueued q ts s) = zombie s"
  "kheap (enqueued q ts s) = kheap s"
  "kpool (enqueued q ts s) = kpool s"
  "cr3 (enqueued q ts s) = cr3 s"
  "queues (enqueued q ts s) = (if ts = [] then (queues s)(q := current_running s) else queues s)"
  "t_next (threads (enqueued q ts s) t) =
     (if ts \<noteq> [] \<and> t = last ts then current_running s else t_next (threads s t))"
  "t_prev (threads (enqueued q ts s) t) = t_prev (threads s t)"
  "state (threads (enqueued q ts s) t) = (if t = current_running s then BLOCKED else state (threads s t))"
  "kernel_stack (threads (enqueued q ts s) t) = kernel_stack (threads s t)"
  "user_stack (threads (enqueued q ts s) t) = user_stack (threads s t)"
  "page_directory (threads (enqueued q ts s) t) = page_directory (threads s t)"
  "tid (threads (enqueued q ts s) t) = tid (threads s t)"
  by (simp_all add: enqueued_def Let_def)

lemma enqueued_nlist:
  assumes rel: "sched_rel s (c # rs) bs"
  shows "nlist ((tnext (enqueued q (bs q) s))(c := 0)) (queues (enqueued q (bs q) s) q')
    ((bs(q := bs q @ [c])) q')"
proof -
  let ?s = "enqueued q (bs q) s"
  note i = sched_relD [OF rel]
  have c: "current_running s = c" "c \<noteq> 0" "c \<notin> set (bs q)" for q using i(2,3) i(7) [of q] by auto
  show ?thesis
  proof (cases "q' = q")
    case True
    have "nlist ((tnext ?s)(c := 0)) (queues ?s q) (bs q @ [c])"
    proof (cases "bs q = []")
      case False
      with nlist_snoc [OF i(5) i(6), of q c] c
      have "nlist ((tnext s)(last (bs q) := c, c := 0)) (queues s q) (bs q @ [c])" by simp
      moreover have "(tnext s)(last (bs q) := c, c := 0) = (tnext ?s)(c := 0)"
        using False c by (auto simp: fun_eq_iff)
      ultimately show ?thesis using False by simp
    qed (use c in simp)
    with True show ?thesis by simp
  next
    case False
    have "last (bs q) \<notin> set (bs q')" if "bs q \<noteq> []"
      using i(9) [of q q'] False last_in_set [OF that] by blast
    then have "nlist (tnext s) (queues s q') (bs q') = nlist ((tnext ?s)(c := 0)) (queues s q') (bs q')"
      using c(3) [of q'] by (intro nlist_cong) auto
    moreover have "queues ?s q' = queues s q'" using False by simp
    ultimately show ?thesis using i(5) [of q'] False by simp
  qed
qed

lemma block_sim:
  assumes inv: "sched_inv s (c # d # rs) bs" and h: "reap_heap s = Inr h"
  obtains s' e where "block q esp s = Inr (e, s')" "switched esp e s s'"
    "sched_inv s' (d # rs) (bs(q := bs q @ [c]))" "zombie s' = 0"
proof -
  define s1 where "s1 = enqueued q (bs q) s"
  note i = sched_relD [OF sched_invD(1) [OF inv]]
  have cd: "c \<notin> set (d # rs)" using ring_distinct [OF i(1)] by simp
  have c: "current_running s = c" "c \<noteq> 0" using i(2,3) by auto
  have cq: "c \<notin> set (bs q)" "set (d # rs) \<inter> set (bs q) = {}" for q using i(7) [of q] by auto
  show thesis
  proof (rule pop_sim [of s1 c d rs "bs(q := bs q @ [c])" h esp])
    have "last (bs q) \<notin> set (c # d # rs)" if "bs q \<noteq> []"
      using cq [of q] last_in_set [OF that] by auto
    then show "ring (tnext s1) (tprev s1) (c # d # rs)"
      by (intro ring_cong [OF i(1)]) (auto simp: s1_def)
    show "nlist ((tnext s1)(c := 0)) (queues s1 q') ((bs(q := bs q @ [c])) q')" for q'
      unfolding s1_def by (rule enqueued_nlist [OF sched_invD(1) [OF inv]])
    show "distinct ((bs(q := bs q @ [c])) q')" for q' using i(6) cq(1) by auto
    show "set (d # rs) \<inter> set ((bs(q := bs q @ [c])) q') = {}" for q' using cd cq(2) [of q] cq(2) [of q'] by auto
    show "set ((bs(q := bs q @ [c])) q1) \<inter> set ((bs(q := bs q @ [c])) q2) = {}" if "q1 \<noteq> q2" for q1 q2
      using i(9) [OF that] cq(1) that by auto
    show "state (threads s1 t) = BLOCKED" if "t \<in> set ((bs(q := bs q @ [c])) q')" for q' t
      using that i(8) c by (auto simp: s1_def split: if_splits)
    show "reap_heap s1 = Inr h" using h by (subst reap_heap_cong [of s1 s]) (simp_all add: s1_def)
    show "state (threads s1 t) = READY" if "t \<in> set (d # rs)" for t using that i(4) [of t] cd c by (auto simp: s1_def)
    fix e s' assume run: "scheduler esp s1 = Inr (e, s')" "switched esp e s1 s'"
      "sched_inv s' (d # rs) (bs(q := bs q @ [c]))" "zombie s' = (if state (cur s1) = EXITED then c else 0)"
    have "reap_heap s1 = reap_heap s" by (intro reap_heap_cong) (simp_all add: s1_def)
    then have "switched esp e s s'" using run(2) by (simp add: switched_def s1_def)
    with run show thesis using that block_run [OF inv] by (simp add: s1_def)
  qed (use i(3) c in \<open>auto simp: s1_def\<close>)
qed

lemma block_alone:
  assumes inv: "sched_inv s [c] bs" and h: "reap_heap s = Inr h"
  shows "block q esp s = Inl Halted"
proof -
  note i = sched_relD [OF sched_invD(1) [OF inv]]
  have c: "current_running s = c" "c \<notin> set (bs q)" using i(2) i(7) [of q] by auto
  have "reap_heap (upd_thread c (\<lambda>t. t\<lparr>kernel_stack := (kernel_stack t)\<lparr>sp := esp\<rparr>\<rparr>) (enqueued q (bs q) s)) = Inr h"
    using h by (subst reap_heap_cong [of _ s]) simp_all
  moreover have "tnext s c = c" using i(1) by (simp add: ring_self)
  ultimately show ?thesis
    unfolding block_run [OF inv]
    using c last_in_set [of "bs q"]
    by (auto simp: scheduler_def Let_def reap_zombie_heap leave_current_def pop_ready_queue_def)
qed

text \<open>The context of every thread is the same in the two states.\<close>

definition same_contexts :: "sched \<Rightarrow> sched \<Rightarrow> bool" where
  "same_contexts s s' \<longleftrightarrow>
     (\<forall>t. kernel_stack (threads s' t) = kernel_stack (threads s t) \<and>
       user_stack (threads s' t) = user_stack (threads s t) \<and>
       page_directory (threads s' t) = page_directory (threads s t) \<and>
       tid (threads s' t) = tid (threads s t)) \<and>
     zombie s' = zombie s \<and> kheap s' = kheap s \<and> kpool s' = kpool s"

lemma same_contexts_trans: "same_contexts s s' \<Longrightarrow> same_contexts s' s'' \<Longrightarrow> same_contexts s s''"
  by (simp add: same_contexts_def)

lemma same_contexts_reap: "same_contexts s s' \<Longrightarrow> reap_heap s' = reap_heap s"
  by (intro reap_heap_cong) (simp_all add: same_contexts_def)

lemma wake_sim:
  assumes inv: "sched_inv s (c # rs) bs" and q: "bs q = t # ts"
  shows "sched_inv (wake q s) (c # t # rs) (bs(q := ts))" "same_contexts s (wake q s)"
proof -
  note i = sched_relD [OF sched_invD(1) [OF inv]]
  have t: "queues s q = t" "t \<noteq> 0" "nlist (tnext s) (tnext s t) ts" using i(5) [of q] q by auto
  have c: "current_running s = c" using i(2) by simp
  have tr: "t \<notin> set (c # rs)" using i(7) [of q] q by auto
  let ?n = "(tnext s)(c := t, t := tnext s c)" and ?p = "(tprev s)(t := c, tnext s c := t)"
  have w: "wake q s = (upd_thread t (\<lambda>x. x\<lparr>state := READY\<rparr>) (relink ?n ?p s))
      \<lparr>queues := (queues s)(q := tnext s t)\<rparr>"
    using wake_run [of s q] t c tr by simp
  then have links: "tnext (wake q s) = ?n" "tprev (wake q s) = ?p" by (auto simp: fun_eq_iff)
  have r: "ring ?n ?p (c # t # rs)" by (rule ring_insert_hd [OF i(1) tr])
  have nl: "nlist ?n (queues (wake q s) q') ((bs(q := ts)) q')" for q'
  proof -
    have "set ((bs(q := ts)) q') \<inter> set (c # t # rs) = {}"
      using i(6) [of q] i(7) [of q'] i(9) [of q' q] q by (auto split: if_splits)
    then have "c \<notin> set ((bs(q := ts)) q')" "t \<notin> set ((bs(q := ts)) q')" by auto
    then show ?thesis using t(3) i(5) [of q'] by (simp add: w)
  qed
  have "set (c # t # rs) \<inter> set ((bs(q := ts)) q') = {}" for q'
    using i(6) [of q] i(7) [of q'] i(9) [of q' q] q by (auto split: if_splits)
  moreover have "set ((bs(q := ts)) q1) \<inter> set ((bs(q := ts)) q2) = {}" if "q1 \<noteq> q2" for q1 q2
    using i(9) [OF that] q that i(9) [of q1 q2] by (auto split: if_splits)
  moreover have "state (threads (wake q s) x) = BLOCKED" if "x \<in> set ((bs(q := ts)) q')" for x q'
    using that i(8) [of x q'] i(6) [of q] i(9) [of q' q] q by (auto simp: w split: if_splits)
  moreover have "state (threads (wake q s) x) = READY" if "x \<in> set (c # t # rs)" for x
    using that i(4) [of x] sched_invD(2) [OF inv] c by (auto simp: w)
  moreover have "distinct ((bs(q := ts)) q')" for q' using i(6) [of q'] q by auto
  ultimately show "sched_inv (wake q s) (c # t # rs) (bs(q := ts))"
    unfolding sched_inv_def sched_rel_def links using r nl i(3) t(2) c by (auto simp: w)
  show "same_contexts s (wake q s)" by (simp add: same_contexts_def w)
qed

lemma splice_sim:
  assumes inv: "sched_inv s (c # rs) bs" and t: "t \<noteq> 0" "t \<notin> set (c # rs)" "\<And>q. t \<notin> set (bs q)"
    "state (threads s t) = READY"
  shows "sched_inv (splice t s) (c # rs @ [t]) bs" "same_contexts s (splice t s)"
proof -
  note i = sched_relD [OF sched_invD(1) [OF inv]]
  have c: "current_running s = c" "c \<noteq> 0" using i(2,3) by auto
  obtain us a where us: "c # rs = us @ [a]" by (meson list.discI rev_exhaust)
  with ring_wrap [OF i(1)] have a: "tprev s c = a" "tnext s a = c" by simp_all
  have "a \<in> set (c # rs)" using us by simp
  with t(2) have ta: "t \<noteq> a" "t \<noteq> c" by auto
  let ?n = "(tnext s)(a := t, t := c)" and ?p = "(tprev s)(t := a, c := t)"
  have w: "splice t s = relink ?n ?p s"
    using c ta a by (auto simp: splice_def Let_def upd_thread_def relink_def fun_eq_iff)
  then have links: "tnext (splice t s) = ?n" "tprev (splice t s) = ?p" by (auto simp: fun_eq_iff)
  have "ring ?n ?p (us @ a # [t])"
    using ring_insert [of "tnext s" "tprev s" us a "[]" t] i(1) t(2) us a by simp
  moreover have "us @ a # [t] = c # rs @ [t]" using us by (metis append.assoc append_Cons append_Nil)
  ultimately have r: "ring ?n ?p (c # rs @ [t])" by simp
  have nl: "nlist ?n (queues s q) (bs q)" for q
  proof -
    have "a \<in> set (c # rs)" using us by auto
    then have "a \<notin> set (bs q)" using i(7) [of q] by blast
    with t(3) [of q] i(5) [of q] show ?thesis by simp
  qed
  show "sched_inv (splice t s) (c # rs @ [t]) bs"
    unfolding sched_inv_def sched_rel_def links
    using r nl c i(3,4,6,7,8,9) t sched_invD(2) [OF inv] by (auto simp: w)
  show "same_contexts s (splice t s)" by (simp add: same_contexts_def w)
qed

section \<open>Waking several threads\<close>

text \<open>What the synchronisation primitives rely on when they wake the threads of a queue.\<close>

locale wait_queues =
  fixes inv :: "'s \<Rightarrow> 't list \<Rightarrow> ('q \<Rightarrow> 't list) \<Rightarrow> bool"
    and none :: "'q \<Rightarrow> 's \<Rightarrow> bool"
    and awake :: "'q \<Rightarrow> 's \<Rightarrow> 's"
  assumes none_iff: "inv s rs bs \<Longrightarrow> none q s \<longleftrightarrow> bs q = []"
    and awake_first: "inv s (c # rs) bs \<Longrightarrow> bs q = t # ts \<Longrightarrow> inv (awake q s) (c # t # rs) (bs(q := ts))"
begin

text \<open>The threads woken last run first.\<close>

lemma awake_many:
  "inv s (c # rs) bs \<Longrightarrow> k \<le> length (bs q) \<Longrightarrow>
     inv ((awake q ^^ k) s) (c # rev (take k (bs q)) @ rs) (bs(q := drop k (bs q)))"
proof (induction k)
  case (Suc k)
  then have k: "k < length (bs q)" by simp
  let ?bs = "bs(q := drop k (bs q))"
  have "?bs q = bs q ! k # drop (Suc k) (bs q)" using k by (simp add: Cons_nth_drop_Suc)
  moreover have "inv ((awake q ^^ k) s) (c # rev (take k (bs q)) @ rs) ?bs"
    by (rule Suc.IH [OF Suc.prems(1)]) (use k in simp)
  ultimately have "inv (awake q ((awake q ^^ k) s)) (c # bs q ! k # rev (take k (bs q)) @ rs)
      (?bs(q := drop (Suc k) (bs q)))"
    using awake_first by blast
  then show ?case
    unfolding fun_upd_upd funpow.simps o_apply take_Suc_conv_app_nth [OF k] rev_append rev.simps
      append.simps .
qed (simp add: fun_upd_idem)

lemma awake_all_none:
  assumes "inv s (c # rs) bs"
  shows "none q ((awake q ^^ length (bs q)) s)"
  using awake_many [OF assms order_refl, of q] by (simp add: none_iff)

end

interpretation wq: wait_queues sched_inv "\<lambda>q s. queues s q = 0" wake
  using queue_null_iff sched_invD(1) wake_sim(1) by unfold_locales blast+

lemma wake_all_funpow:
  "sched_inv s (c # rs) bs \<Longrightarrow> wake_all q s = Some ((wake q ^^ length (bs q)) s)"
proof (induction "bs q" arbitrary: s rs bs)
  case Nil
  with queue_null_iff [OF sched_invD(1)] show ?case by (subst wake_all.simps) fastforce
next
  case (Cons t ts)
  from Cons.hyps(2) have "queues s q \<noteq> 0"
    using queue_null_iff [OF sched_invD(1) [OF Cons.prems], of q] by auto
  moreover have "wake_all q (wake q s) = Some ((wake q ^^ length ts) (wake q s))"
    using Cons.hyps(1) [of "bs(q := ts)"] wake_sim(1) [OF Cons.prems Cons.hyps(2) [symmetric]] by simp
  ultimately show ?case
    using Cons.hyps(2) [symmetric] by (subst wake_all.simps) (simp add: funpow_swap1)
qed

lemma wake_many_contexts:
  "sched_inv s (c # rs) bs \<Longrightarrow> k \<le> length (bs q) \<Longrightarrow> same_contexts s ((wake q ^^ k) s)"
proof (induction k)
  case (Suc k)
  then have k: "k < length (bs q)" by simp
  have "sched_inv ((wake q ^^ k) s) (c # rev (take k (bs q)) @ rs) (bs(q := drop k (bs q)))"
    using wq.awake_many [OF Suc.prems(1), of k q] k by simp
  from wake_sim(2) [OF this, of q "bs q ! k" "drop (Suc k) (bs q)"] k
  have "same_contexts ((wake q ^^ k) s) (wake q ((wake q ^^ k) s))" by (simp add: Cons_nth_drop_Suc)
  with Suc k show ?case by (auto intro: same_contexts_trans)
qed (simp add: same_contexts_def)

lemma wake_all_sim:
  assumes "sched_inv s (c # rs) bs"
  obtains s' where "wake_all q s = Some s'" "sched_inv s' (c # rev (bs q) @ rs) (bs(q := []))"
    "same_contexts s s'"
  using wake_all_funpow [OF assms, of q] wq.awake_many [OF assms order_refl, of q]
    wake_many_contexts [OF assms order_refl, of q] by simp

section \<open>Runs of yields\<close>

text \<open>The running threads yield one after the other; the result lists the stack pointers that
  the scheduler returned.\<close>

fun yields :: "u32 list \<Rightarrow> sched \<Rightarrow> (u32 list \<times> sched) result" where
  "yields [] s = Inr ([], s)"
| "yields (e # es) s =
     rbind (r0_yield e s) (\<lambda>(r, s). rbind (yields es s) (\<lambda>(out, s). Inr (r # out, s)))"

abbreviation saved_sp :: "sched \<Rightarrow> u32 \<Rightarrow> u32" where
  "saved_sp s t \<equiv> sp (kernel_stack (threads s t))"

lemma yields_run:
  assumes "sched_inv s rs bs" "reap_heap s = Inr h"
  shows "\<exists>s'. yields es s = Inr (take (length es) (map (saved_sp s) (tl rs) @ es), s') \<and>
    sched_inv s' (rotate (length es) rs) bs"
  using assms
proof (induction es arbitrary: s rs h)
  case (Cons e es)
  then obtain c ts where rs: "rs = c # ts"
    using ring_not_Nil [OF sched_relD(1) [OF sched_invD(1)]] by (meson neq_Nil_conv)
  obtain s' r where run: "scheduler e s = Inr (r, s')" "switched e r s s'" "sched_inv s' (ts @ [c]) bs" "zombie s' = 0"
    by (rule yield_sim [OF Cons.prems(1) [unfolded rs] Cons.prems(2)])
  have c: "current_running s = c" "current_running s' = hd (ts @ [c])" "c \<notin> set ts"
    using sched_relD(2) [OF sched_invD(1)] Cons.prems(1) run(3)
      ring_distinct [OF sched_relD(1) [OF sched_invD(1) [OF Cons.prems(1)]]] by (auto simp: rs)
  have "map (saved_sp s') (ts @ [c]) = map (saved_sp s) ts @ [e]"
    using run(2) c by (auto simp: switched_def)
  moreover from this have "r # map (saved_sp s') (tl (ts @ [c])) = map (saved_sp s) ts @ [e]"
    using run(2) c(2) by (cases "ts @ [c]") (auto simp: switched_def)
  ultimately have "r # take (length es) (map (saved_sp s') (tl (ts @ [c])) @ es) =
      take (Suc (length es)) (map (saved_sp s) ts @ e # es)"
    by (metis append.assoc append_Cons append_Nil take_Suc_Cons)
  moreover have "reap_heap s' = Inr (kheap s')" using run(4) by (simp add: reap_heap_def)
  ultimately show ?case
    using Cons.IH [OF run(3)] run(1) by (auto simp: r0_yield_def rs rotate_Suc rotate1_rotate_swap)
qed simp

section \<open>Giving back the memory of a zombie\<close>

lemma freeable_inside: "a \<noteq> cp_start (hp_pools h p) \<Longrightarrow> freeable p a h"
  by (auto simp: freeable_def)

lemma kfree_inside:
  assumes "cp_inv p h" "(unat a, m) \<in> live_blocks p h" "a \<noteq> cp_start (hp_pools h p)"
  obtains h' where "kfree p a h = Inr h'" "cp_inv p h'" "live_blocks p h' = live_blocks p h - {(unat a, m)}"
    "cp_start (hp_pools h' p) = cp_start (hp_pools h p)"
  using cp.free_block [OF assms(1,2) freeable_inside [OF assms(3)]] free_region(1)
  by (fastforce simp: kfree_def)

lemma reap_heap_frees:
  assumes inv: "cp_inv (kpool s) (kheap s)" and z: "zombie s \<noteq> 0"
  defines "b \<equiv> bottom (kernel_stack (threads s (zombie s)))"
  assumes live: "(unat b, m) \<in> live_blocks (kpool s) (kheap s)"
      "(unat (zombie s), n) \<in> live_blocks (kpool s) (kheap s)" "b \<noteq> zombie s"
    and inside: "b \<noteq> cp_start (hp_pools (kheap s) (kpool s))"
      "zombie s \<noteq> cp_start (hp_pools (kheap s) (kpool s))"
  obtains h where "reap_heap s = Inr h" "cp_inv (kpool s) h"
    "live_blocks (kpool s) h = live_blocks (kpool s) (kheap s) - {(unat b, m), (unat (zombie s), n)}"
proof -
  obtain h1 where h1: "kfree (kpool s) b (kheap s) = Inr h1" "cp_inv (kpool s) h1"
      "live_blocks (kpool s) h1 = live_blocks (kpool s) (kheap s) - {(unat b, m)}"
      "cp_start (hp_pools h1 (kpool s)) = cp_start (hp_pools (kheap s) (kpool s))"
    by (rule kfree_inside [OF inv live(1) inside(1)])
  have "(unat (zombie s), n) \<in> live_blocks (kpool s) h1"
    using live h1(3) by (auto simp: word_unat_eq_iff)
  then obtain h where "kfree (kpool s) (zombie s) h1 = Inr h" "cp_inv (kpool s) h"
      "live_blocks (kpool s) h = live_blocks (kpool s) h1 - {(unat (zombie s), n)}"
    by (rule kfree_inside [OF h1(2)]) (use inside h1(4) in auto)
  with that h1 z show thesis by (auto simp: reap_heap_def b_def)
qed

section \<open>Properties\<close>

text \<open>A state for examples: threads 16 and 32 are ready, 48 waits in queue 0.\<close>

definition demo_thread :: "task_state \<Rightarrow> u32 \<Rightarrow> u32 \<Rightarrow> u32 \<Rightarrow> thread" where
  "demo_thread st n p e =
     \<lparr>tid = 1, state = st, kernel_stack = \<lparr>bottom = 4096, sp = e\<rparr>, user_stack = \<lparr>bottom = 0, sp = 0\<rparr>,
      page_directory = 0, t_next = n, t_prev = p\<rparr>"

definition demo_sched :: sched where
  "demo_sched =
     \<lparr>threads = (\<lambda>_. demo_thread READY 0 0 0)(16 := demo_thread READY 32 32 100,
        32 := demo_thread READY 16 16 200, 48 := demo_thread BLOCKED 0 0 300),
      current_running = 16, zombie = 0, queues = (\<lambda>_. 0)(0 := 48), tss_esp0 = 0, cr3 = 0,
      kheap = small_heap, kpool = 0\<rparr>"

lemma demo_sched_inv: "sched_inv demo_sched [16, 32] ((\<lambda>_. [])(0 := [48]))" "reap_heap demo_sched = Inr small_heap"
  by (auto simp: sched_inv_def sched_rel_def demo_sched_def demo_thread_def ring_def reap_heap_def)

text \<open>C9: round robin. When the running threads yield one after the other, the ready ring turns by
  one thread per call, the queues keep their threads, and each thread is resumed with exactly
  the stack pointer it saved: the scheduler returns first the saved stack pointers of the other
  ready threads, in ring order, then those of the calls themselves.\<close>

theorem yield_round_robin:
  assumes "sched_inv s rs bs" "reap_heap s = Inr h"
  shows "\<exists>s'. yields es s = Inr (take (length es) (map (saved_sp s) (tl rs) @ es), s') \<and>
    sched_inv s' (rotate (length es) rs) bs"
  by (rule yields_run [OF assms])

theorem yield_round_robin_witness:
  "\<exists>s'. yields [7, 8, 9] demo_sched = Inr ([200, 7, 8], s') \<and> current_running s' = 32"
proof -
  have "saved_sp demo_sched 32 = 200" by (simp add: demo_sched_def demo_thread_def)
  then obtain s' where "yields [7, 8, 9] demo_sched = Inr ([200, 7, 8], s')"
      "sched_inv s' [32, 16] ((\<lambda>_. [])(0 := [48]))"
    using yield_round_robin [OF demo_sched_inv, of "[7, 8, 9]"]
    by (auto simp: numeral_3_eq_3 rotate_def simp del: yields.simps)
  then show ?thesis using sched_relD(2) [OF sched_invD(1)] by fastforce
qed

text \<open>C14: \<open>block\<close> puts the running thread at the end of the queue, takes it out of the ready ring
  and switches to the next ready thread; when it is the only ready thread, the machine halts.\<close>

theorem block_behaviour:
  assumes "sched_inv s (c # rs) bs" "reap_heap s = Inr h"
  shows "if rs = [] then block q esp s = Inl Halted
    else \<exists>e s'. block q esp s = Inr (e, s') \<and> switched esp e s s' \<and>
      sched_inv s' rs (bs(q := bs q @ [c])) \<and> zombie s' = 0"
proof (cases rs)
  case (Cons d ds)
  with assms block_sim [of s c d ds bs h q esp] show ?thesis by (metis list.distinct(1))
qed (use assms block_alone in auto)

theorem block_behaviour_witness:
  "\<exists>e s'. block 0 7 demo_sched = Inr (e, s') \<and> sched_inv s' [32] ((\<lambda>_. [])(0 := [48, 16]))"
  using block_behaviour [OF demo_sched_inv, of 0 7] by auto



text \<open>\<open>r3_exit\<close> takes the running thread out of the ready ring for good and leaves it as the
  zombie; the next ready thread runs.\<close>

theorem r3_exit_zombie:
  assumes "sched_inv s (c # d # rs) bs" "reap_heap s = Inr h"
  shows "\<exists>e s'. r3_exit esp s = Inr (e, s') \<and> sched_inv s' (d # rs) bs \<and> zombie s' = c \<and>
    current_running s' = d \<and> e = saved_sp s' d"
proof -
  have c: "current_running s = c" using sched_relD(2) [OF sched_invD(1) [OF assms(1)]] by simp
  obtain s' e where run: "r3_exit esp s = Inr (e, s')"
      "switched esp e (upd_thread c (\<lambda>t. t\<lparr>state := EXITED\<rparr>) s) s'" "sched_inv s' (d # rs) bs" "zombie s' = c"
    by (rule exit_sim [OF assms, of EXITED esp]) (auto simp: r3_exit_def c)
  with sched_relD(2) [OF sched_invD(1) [OF run(3)]] show ?thesis by (auto simp: switched_def)
qed

theorem r3_exit_zombie_witness:
  "\<exists>e s'. r3_exit 7 demo_sched = Inr (e, s') \<and> zombie s' = 16 \<and> current_running s' = 32"
  using r3_exit_zombie [OF demo_sched_inv, of 7] by auto

end
