(* ===== verification/Sync.thy ===== *)
theory Sync
  imports Sched
begin

text \<open>
  The synchronisation primitives of \<open>kernel/sync.cpp\<close> on top of the scheduler. Each call runs
  between \<open>enter_critical\<close> and \<open>leave_critical\<close>, so it is one step of the running thread, up to
  the point where it blocks; what a blocked thread still has to do when it runs again is kept
  in \<open>kont\<close>. Queue numbers tell the queues of locks, conditions, semaphores and barriers apart.
\<close>

section \<open>State\<close>

definition lockq :: "nat \<Rightarrow> nat" where "lockq l = 4 * l"
definition condq :: "nat \<Rightarrow> nat" where "condq c = 4 * c + 1"
definition semq :: "nat \<Rightarrow> nat" where "semq m = 4 * m + 2"
definition barq :: "nat \<Rightarrow> nat" where "barq b = 4 * b + 3"

text \<open>
  Between calls; back in the loop of \<open>lock_acquire_helper\<close>; at the end of a call that blocked.
\<close>

datatype kont = Running | Retest nat | Finish

text \<open>The field \<open>holds\<close> records which locks a thread has acquired; no code reads it.\<close>

record conf =
  sc :: sched
  status :: "nat \<Rightarrow> lock_status"
  slots :: "nat \<Rightarrow> int"
  counter :: "nat \<Rightarrow> int"
  kont :: "u32 \<Rightarrow> kont"
  holds :: "u32 \<Rightarrow> nat set"

abbreviation self :: "conf \<Rightarrow> u32" where
  "self k \<equiv> current_running (sc k)"

section \<open>Operations\<close>

definition suspend :: "nat \<Rightarrow> kont \<Rightarrow> u32 \<Rightarrow> conf \<Rightarrow> conf result" where
  "suspend q kt esp k =
     rbind (block q esp (sc k)) (\<lambda>(_, s). Inr (k\<lparr>sc := s, kont := (kont k)(self k := kt)\<rparr>))"

definition lock_acquire_helper :: "nat \<Rightarrow> u32 \<Rightarrow> conf \<Rightarrow> conf result" where
  "lock_acquire_helper l esp k =
     (if status k l = LOCKED then suspend (lockq l) (Retest l) esp k
      else Inr (k\<lparr>status := (status k)(l := LOCKED), kont := (kont k)(self k := Running),
                  holds := (holds k)(self k := insert l (holds k (self k)))\<rparr>))"

definition lock_release_helper :: "nat \<Rightarrow> conf \<Rightarrow> conf result" where
  "lock_release_helper l k =
     (let k = k\<lparr>status := (status k)(l := UNLOCKED),
                holds := (holds k)(self k := holds k (self k) - {l})\<rparr>
      in if queues (sc k) (lockq l) \<noteq> 0
         then rbind (unblock (lockq l) (sc k)) (\<lambda>s. Inr (k\<lparr>sc := s\<rparr>))
         else Inr k)"

definition Lock_acquire :: "nat \<Rightarrow> u32 \<Rightarrow> conf \<Rightarrow> conf result" where
  "Lock_acquire l esp k = lock_acquire_helper l esp k"

definition Lock_release :: "nat \<Rightarrow> conf \<Rightarrow> conf result" where
  "Lock_release l k = lock_release_helper l k"

definition Condition_wait :: "nat \<Rightarrow> nat \<Rightarrow> u32 \<Rightarrow> conf \<Rightarrow> conf result" where
  "Condition_wait c l esp k = rbind (lock_release_helper l k) (suspend (condq c) (Retest l) esp)"

definition Condition_signal :: "nat \<Rightarrow> conf \<Rightarrow> conf result" where
  "Condition_signal c k =
     (if queues (sc k) (condq c) \<noteq> 0
      then rbind (unblock (condq c) (sc k)) (\<lambda>s. Inr (k\<lparr>sc := s\<rparr>))
      else Inr k)"

definition Condition_broadcast :: "nat \<Rightarrow> conf \<Rightarrow> conf result" where
  "Condition_broadcast c k =
     (case wake_all (condq c) (sc k) of None \<Rightarrow> Inl Diverges | Some s \<Rightarrow> Inr (k\<lparr>sc := s\<rparr>))"

definition Semaphore_up :: "nat \<Rightarrow> conf \<Rightarrow> conf result" where
  "Semaphore_up m k =
     (if queues (sc k) (semq m) = 0 then Inr (k\<lparr>slots := (slots k)(m := slots k m + 1)\<rparr>)
      else rbind (unblock (semq m) (sc k)) (\<lambda>s. Inr (k\<lparr>sc := s\<rparr>)))"

definition Semaphore_down :: "nat \<Rightarrow> u32 \<Rightarrow> conf \<Rightarrow> conf result" where
  "Semaphore_down m esp k =
     (if slots k m > 0 then Inr (k\<lparr>slots := (slots k)(m := slots k m - 1)\<rparr>)
      else suspend (semq m) Finish esp k)"

text \<open>The loop of \<open>Barrier::wait\<close>, with the counter.\<close>

partial_function (option) barrier_release :: "nat \<Rightarrow> sched \<Rightarrow> int \<Rightarrow> (sched \<times> int) option" where
  "barrier_release b s n =
     (if queues s (barq b) = 0 then Some (s, n) else barrier_release b (wake (barq b) s) (n + 1))"

definition Barrier_wait :: "nat \<Rightarrow> u32 \<Rightarrow> conf \<Rightarrow> conf result" where
  "Barrier_wait b esp k =
     (let k = k\<lparr>counter := (counter k)(b := counter k b - 1)\<rparr>
      in if counter k b > 0 then suspend (barq b) Finish esp k
         else case barrier_release b (sc k) (counter k b) of
           None \<Rightarrow> Inl Diverges
         | Some (s, n) \<Rightarrow> Inr (k\<lparr>sc := s, counter := (counter k)(b := n + 1)\<rparr>))"

text \<open>What the running thread does first when the scheduler has entered it.\<close>

definition resume :: "u32 \<Rightarrow> conf \<Rightarrow> conf result" where
  "resume esp k =
     (case kont k (self k) of
        Running \<Rightarrow> Inr k
      | Retest l \<Rightarrow> lock_acquire_helper l esp k
      | Finish \<Rightarrow> Inr (k\<lparr>kont := (kont k)(self k := Running)\<rparr>))"

definition preempt :: "u32 \<Rightarrow> conf \<Rightarrow> conf result" where
  "preempt esp k = rbind (scheduler esp (sc k)) (\<lambda>(_, s). Inr (k\<lparr>sc := s\<rparr>))"

text \<open>
  The steps of the system. A thread calls a primitive only between calls, and releases or waits
  with a lock only when it holds it; in between it may be preempted.
\<close>

inductive step :: "conf \<Rightarrow> conf \<Rightarrow> bool" where
  acquire: "kont k (self k) = Running \<Longrightarrow> Lock_acquire l esp k = Inr k' \<Longrightarrow> step k k'"
| release: "kont k (self k) = Running \<Longrightarrow> l \<in> holds k (self k) \<Longrightarrow> Lock_release l k = Inr k' \<Longrightarrow> step k k'"
| cwait: "kont k (self k) = Running \<Longrightarrow> l \<in> holds k (self k) \<Longrightarrow> Condition_wait c l esp k = Inr k' \<Longrightarrow> step k k'"
| signal: "kont k (self k) = Running \<Longrightarrow> Condition_signal c k = Inr k' \<Longrightarrow> step k k'"
| broadcast: "kont k (self k) = Running \<Longrightarrow> Condition_broadcast c k = Inr k' \<Longrightarrow> step k k'"
| up: "kont k (self k) = Running \<Longrightarrow> Semaphore_up m k = Inr k' \<Longrightarrow> step k k'"
| down: "kont k (self k) = Running \<Longrightarrow> Semaphore_down m esp k = Inr k' \<Longrightarrow> step k k'"
| barrier: "kont k (self k) = Running \<Longrightarrow> Barrier_wait b esp k = Inr k' \<Longrightarrow> step k k'"
| resumed: "kont k (self k) \<noteq> Running \<Longrightarrow> resume esp k = Inr k' \<Longrightarrow> step k k'"
| preempted: "kont k (self k) = Running \<Longrightarrow> preempt esp k = Inr k' \<Longrightarrow> step k k'"

inductive_cases stepE: "step k k'"

section \<open>Invariant\<close>

lemma queue_numbers [simp]:
  "lockq l = lockq l' \<longleftrightarrow> l = l'" "condq c = condq c' \<longleftrightarrow> c = c'" "semq m = semq m' \<longleftrightarrow> m = m'"
  "barq b = barq b' \<longleftrightarrow> b = b'"
  "lockq l \<noteq> condq c" "lockq l \<noteq> semq m" "lockq l \<noteq> barq b"
  "condq c \<noteq> lockq l" "condq c \<noteq> semq m" "condq c \<noteq> barq b"
  "semq m \<noteq> lockq l" "semq m \<noteq> condq c" "semq m \<noteq> barq b"
  "barq b \<noteq> lockq l" "barq b \<noteq> condq c" "barq b \<noteq> semq m"
  by (simp_all add: lockq_def condq_def semq_def barq_def) presburger+

text \<open>
  \<open>rs\<close> are the ready threads, starting with the running one, \<open>bs\<close> the queues. A lock is
  LOCKED when some thread holds it, and only one does; the threads of a lock's queue are in its
  loop; and when a lock is UNLOCKED while threads wait for it, one thread that was woken for it
  is ready and will test it again. No thread waits at a semaphore with slots left. A barrier
  for \<open>N b\<close> threads counts down the threads that wait at it.
\<close>

definition locks_inv :: "conf \<Rightarrow> u32 list \<Rightarrow> (nat \<Rightarrow> u32 list) \<Rightarrow> bool" where
  "locks_inv k rs bs \<longleftrightarrow>
     (\<forall>l. status k l = LOCKED \<longleftrightarrow> (\<exists>t. l \<in> holds k t)) \<and>
     (\<forall>l t t'. l \<in> holds k t \<longrightarrow> l \<in> holds k t' \<longrightarrow> t = t') \<and>
     (\<forall>l. \<forall>t \<in> set (bs (lockq l)). kont k t = Retest l) \<and>
     (\<forall>l. status k l = UNLOCKED \<longrightarrow> bs (lockq l) \<noteq> [] \<longrightarrow> (\<exists>t \<in> set rs. kont k t = Retest l))"

definition counts_inv :: "(nat \<Rightarrow> nat) \<Rightarrow> conf \<Rightarrow> (nat \<Rightarrow> u32 list) \<Rightarrow> bool" where
  "counts_inv N k bs \<longleftrightarrow>
     (\<forall>m. 0 \<le> slots k m \<and> (0 < slots k m \<longrightarrow> bs (semq m) = [])) \<and>
     (\<forall>b. 0 < counter k b \<and> counter k b + int (length (bs (barq b))) = int (N b))"

definition conf_inv :: "(nat \<Rightarrow> nat) \<Rightarrow> conf \<Rightarrow> u32 list \<Rightarrow> (nat \<Rightarrow> u32 list) \<Rightarrow> bool" where
  "conf_inv N k rs bs \<longleftrightarrow>
     sched_inv (sc k) rs bs \<and> zombie (sc k) = 0 \<and> locks_inv k rs bs \<and> counts_inv N k bs"

lemma conf_inv_ready:
  assumes "conf_inv N k rs bs"
  obtains ts where "rs = self k # ts" "self k \<notin> set ts" "\<forall>q. self k \<notin> set (bs q)"
proof -
  note i = sched_relD [OF sched_invD(1)]
  from assms have inv: "sched_inv (sc k) rs bs" by (simp add: conf_inv_def)
  with ring_not_Nil [OF i(1)] i(2) have "rs = self k # tl rs" by (metis list.collapse)
  with that ring_distinct [OF i(1) [OF inv]] i(7) [OF inv] show thesis
    by (metis disjoint_iff distinct.simps(2) list.set_intros(1))
qed

section \<open>Preservation\<close>

lemma reap_none: "zombie s = 0 \<Longrightarrow> reap_heap s = Inr (kheap s)"
  by (simp add: reap_heap_def)

lemma suspend_sim:
  assumes inv: "sched_inv (sc k) (c # rs) bs" "zombie (sc k) = 0" and run: "suspend q kt esp k = Inr k'"
  shows "rs \<noteq> []" "sched_inv (sc k') rs (bs(q := bs q @ [c]))" "zombie (sc k') = 0"
    "k' = k\<lparr>sc := sc k', kont := (kont k)(c := kt)\<rparr>"
proof -
  have c: "self k = c" using sched_relD(2) [OF sched_invD(1) [OF inv(1)]] by simp
  obtain e s' where b: "block q esp (sc k) = Inr (e, s')" "k' = k\<lparr>sc := s', kont := (kont k)(c := kt)\<rparr>"
    using run c by (auto simp: suspend_def rbind_eq_Inr)
  show "rs \<noteq> []" using block_alone [OF _ reap_none [OF inv(2)]] inv(1) b(1) by auto
  then obtain d ds where d: "rs = d # ds" by (cases rs) auto
  from block_sim [OF inv(1) [unfolded d] reap_none [OF inv(2)], of q esp] b(1)
  have "sched_inv s' rs (bs(q := bs q @ [c]))" "zombie s' = 0" unfolding d by (metis Inr_inject prod.inject)+
  with b(2) show "sched_inv (sc k') rs (bs(q := bs q @ [c]))" "zombie (sc k') = 0"
    "k' = k\<lparr>sc := sc k', kont := (kont k)(c := kt)\<rparr>" by simp_all
qed

lemma counts_invD:
  assumes "counts_inv N k bs"
  shows "0 \<le> slots k m" "0 < slots k m \<Longrightarrow> bs (semq m) = []" "0 < counter k b"
    "counter k b + int (length (bs (barq b))) = int (N b)"
  using assms by (simp_all add: counts_inv_def)

lemma counts_inv_cong:
  "counts_inv N k bs \<Longrightarrow> slots k' = slots k \<Longrightarrow> counter k' = counter k \<Longrightarrow>
     (\<And>m. bs' (semq m) = bs (semq m)) \<Longrightarrow> (\<And>b. bs' (barq b) = bs (barq b)) \<Longrightarrow> counts_inv N k' bs'"
  by (simp add: counts_inv_def)

text \<open>The running thread leaves the ready ring in the middle of a call.\<close>

lemma locks_inv_suspend:
  assumes "locks_inv k (c # rs) bs" "\<forall>q. c \<notin> set (bs q)" "kont k c = Running \<or> kont k c = Retest l \<and> status k l = LOCKED"
    "status k' = status k" "holds k' = holds k" "kont k' = (kont k)(c := kt)"
    "\<And>l'. q = lockq l' \<Longrightarrow> kt = Retest l' \<and> status k l' = LOCKED"
  shows "locks_inv k' rs (bs(q := bs q @ [c]))"
  unfolding locks_inv_def
proof (intro conjI allI)
  fix l'
  show "status k' l' = LOCKED \<longleftrightarrow> (\<exists>t. l' \<in> holds k' t)" using assms(1,4,5) by (simp add: locks_inv_def)
  show "l' \<in> holds k' t \<longrightarrow> l' \<in> holds k' t' \<longrightarrow> t = t'" for t t' using assms(1,5) by (auto simp: locks_inv_def)
  show "\<forall>t \<in> set ((bs(q := bs q @ [c])) (lockq l')). kont k' t = Retest l'"
    using assms(1,2,6,7) by (auto simp: locks_inv_def)
  show "status k' l' = UNLOCKED \<longrightarrow> (bs(q := bs q @ [c])) (lockq l') \<noteq> [] \<longrightarrow> (\<exists>t \<in> set rs. kont k' t = Retest l')"
  proof (intro impI)
    assume u: "status k' l' = UNLOCKED" and ne: "(bs(q := bs q @ [c])) (lockq l') \<noteq> []"
    from u assms(4,7) have "lockq l' \<noteq> q" by force
    with ne u assms(1,4) obtain t where "t \<in> set (c # rs)" "kont k t = Retest l'"
      unfolding locks_inv_def by (metis fun_upd_other)
    moreover from this have "t \<noteq> c" using assms(3,4) u by auto
    ultimately show "\<exists>t \<in> set rs. kont k' t = Retest l'" using assms(6) by auto
  qed
qed

lemma locks_inv_take:
  assumes inv: "locks_inv k (c # rs) bs" "\<forall>q. c \<notin> set (bs q)" "kont k c \<in> {Running, Retest l}" "status k l = UNLOCKED"
    and k': "status k' = (status k)(l := LOCKED)" "kont k' = (kont k)(c := Running)"
      "holds k' = (holds k)(c := insert l (holds k c))"
  shows "locks_inv k' (c # rs) bs"
proof -
  note i = inv(1) [unfolded locks_inv_def]
  have free: "l \<notin> holds k t" for t using i inv(4) by (metis lock_status.distinct(1))
  have h: "l' \<in> holds k' t \<longleftrightarrow> l' \<in> holds k t \<or> l' = l \<and> t = c" for l' t using k'(3) by auto
  have "(status k' l' = LOCKED) = (\<exists>t. l' \<in> holds k' t)" for l'
    using i unfolding h k'(1) by auto
  moreover have "l' \<in> holds k' t \<longrightarrow> l' \<in> holds k' t' \<longrightarrow> t = t'" for l' t t'
    using i free unfolding h by metis
  moreover have "kont k' t = Retest l'" if "t \<in> set (bs (lockq l'))" for l' t
    using i inv(2) k'(2) that by auto
  moreover have "\<exists>t \<in> set (c # rs). kont k' t = Retest l'" if "status k' l' = UNLOCKED" "bs (lockq l') \<noteq> []" for l'
  proof -
    from that k'(1) i obtain t where t: "t \<in> set (c # rs)" "kont k t = Retest l'" "l' \<noteq> l"
      by (metis fun_upd_apply lock_status.distinct(1))
    with inv(3) have "t \<noteq> c" by auto
    with t k'(2) show ?thesis by (intro bexI [of _ t]) simp_all
  qed
  ultimately show ?thesis by (simp add: locks_inv_def)
qed

lemma acquire_inv:
  assumes inv: "conf_inv N k rs bs" and kt: "kont k (self k) \<in> {Running, Retest l}"
    and run: "lock_acquire_helper l esp k = Inr k'"
  shows "\<exists>rs bs. conf_inv N k' rs bs"
proof -
  obtain ts where rs: "rs = self k # ts" "self k \<notin> set ts" "\<forall>q. self k \<notin> set (bs q)"
    by (rule conf_inv_ready [OF inv])
  note i = inv [unfolded conf_inv_def rs(1)]
  show ?thesis
  proof (cases "status k l")
    case LOCKED
    then have run': "suspend (lockq l) (Retest l) esp k = Inr k'" using run by (simp add: lock_acquire_helper_def)
    note s = suspend_sim [OF i [THEN conjunct1] i [THEN conjunct2, THEN conjunct1] run']
    have k': "status k' = status k" "holds k' = holds k" "kont k' = (kont k)(self k := Retest l)"
        "slots k' = slots k" "counter k' = counter k"
      by (subst s(4), simp)+
    have "locks_inv k' ts (bs(lockq l := bs (lockq l) @ [self k]))"
      by (rule locks_inv_suspend [where l = l, OF _ rs(3) _ k'(1-3)]) (use i kt LOCKED in auto)
    moreover have "counts_inv N k' (bs(lockq l := bs (lockq l) @ [self k]))"
      by (rule counts_inv_cong [of N k bs]) (use i k' in auto)
    ultimately show ?thesis using s(2,3) unfolding conf_inv_def by blast
  next
    case UNLOCKED
    then have k': "k' = k\<lparr>status := (status k)(l := LOCKED), kont := (kont k)(self k := Running),
                    holds := (holds k)(self k := insert l (holds k (self k)))\<rparr>"
      using run by (simp add: lock_acquire_helper_def)
    have "locks_inv k' rs bs"
      unfolding rs(1) by (rule locks_inv_take [OF _ rs(3) kt UNLOCKED]) (use i k' in auto)
    moreover have "counts_inv N k' bs" using i by (auto simp: counts_inv_def k')
    ultimately show ?thesis using inv unfolding conf_inv_def by (auto simp: k')
  qed
qed

lemma locks_inv_give:
  assumes inv: "locks_inv k rs bs" "l \<in> holds k c"
    and k': "status k' = (status k)(l := UNLOCKED)" "kont k' = kont k"
      "holds k' = (holds k)(c := holds k c - {l})"
    and q: "set rs \<subseteq> set rs'" "\<And>l'. set (bs' (lockq l')) \<subseteq> set (bs (lockq l'))"
      "bs' (lockq l) \<noteq> [] \<Longrightarrow> \<exists>t \<in> set rs'. kont k t = Retest l"
  shows "locks_inv k' rs' bs'"
proof -
  note i = inv(1) [unfolded locks_inv_def]
  have h: "l' \<in> holds k' t \<longleftrightarrow> l' \<in> holds k t \<and> l' \<noteq> l" for l' t
    using i inv(2) k'(3) by auto
  have "(status k' l' = LOCKED) = (\<exists>t. l' \<in> holds k' t)" for l'
    using i unfolding h k'(1) by auto
  moreover have "l' \<in> holds k' t \<longrightarrow> l' \<in> holds k' t' \<longrightarrow> t = t'" for l' t t' using i unfolding h by metis
  moreover have "kont k' t = Retest l'" if "t \<in> set (bs' (lockq l'))" for l' t
    using i q(2) k'(2) that by (metis subsetD)
  moreover have "\<exists>t \<in> set rs'. kont k' t = Retest l'" if "status k' l' = UNLOCKED" "bs' (lockq l') \<noteq> []" for l'
  proof (cases "l' = l")
    case False
    with that k'(1) q(2) [of l'] have "status k l' = UNLOCKED" "bs (lockq l') \<noteq> []" by auto
    with i k'(2) q(1) show ?thesis by (metis subsetD)
  qed (use q(3) that k'(2) in simp)
  ultimately show ?thesis by (simp add: locks_inv_def)
qed

lemma conf_invD:
  assumes "conf_inv N k rs bs"
  shows "sched_inv (sc k) rs bs" "zombie (sc k) = 0" "locks_inv k rs bs" "counts_inv N k bs"
  using assms by (simp_all add: conf_inv_def)

lemma conf_invI:
  "sched_inv (sc k) rs bs \<Longrightarrow> zombie (sc k) = 0 \<Longrightarrow> locks_inv k rs bs \<Longrightarrow> counts_inv N k bs \<Longrightarrow> conf_inv N k rs bs"
  by (simp add: conf_inv_def)

text \<open>The two cases of \<open>if (queue != nullptr) unblock(&queue)\<close>.\<close>

lemma conf_queue_cases:
  assumes inv: "conf_inv N k (c # rs) bs"
  obtains (none) "queues (sc k) q = 0" "bs q = []"
    | (some) t ts where "queues (sc k) q \<noteq> 0" "bs q = t # ts" "unblock q (sc k) = Inr (wake q (sc k))"
      "sched_inv (wake q (sc k)) (c # t # rs) (bs(q := ts))" "zombie (wake q (sc k)) = 0"
      "current_running (wake q (sc k)) = c"
proof (cases "bs q")
  case Nil
  with queue_null_iff [OF sched_invD(1) [OF conf_invD(1) [OF inv]], of q] none show thesis by simp
next
  case (Cons t ts)
  note w = wake_sim [OF conf_invD(1) [OF inv] Cons]
  have "queues (sc k) q \<noteq> 0"
    using queue_null_iff [OF sched_invD(1) [OF conf_invD(1) [OF inv]], of q] Cons by simp
  moreover have "current_running (wake q (sc k)) = c" using sched_relD(2) [OF sched_invD(1) [OF w(1)]] by simp
  ultimately show thesis
    using some Cons w conf_invD(2) [OF inv] by (simp add: unblock_def same_contexts_def)
qed

lemma release_inv:
  assumes inv: "conf_inv N k (c # rs) bs" and c: "self k = c" "l \<in> holds k c"
    and run: "lock_release_helper l k = Inr k'"
  shows "\<exists>rs bs. conf_inv N k' (c # rs) bs \<and> self k' = c \<and> kont k' = kont k"
  using inv
proof (cases rule: conf_queue_cases [where q = "lockq l"])
  case none
  with run c have k': "k' = k\<lparr>status := (status k)(l := UNLOCKED),
      holds := (holds k)(c := holds k c - {l})\<rparr>" by (simp add: lock_release_helper_def Let_def)
  have "locks_inv k' (c # rs) bs"
    by (rule locks_inv_give [OF conf_invD(3) [OF inv] c(2)]) (simp_all add: k' none)
  moreover have "counts_inv N k' bs" by (rule counts_inv_cong [OF conf_invD(4) [OF inv]]) (simp_all add: k')
  ultimately have "conf_inv N k' (c # rs) bs" using conf_invD(1,2) [OF inv] by (simp add: conf_inv_def k')
  then show ?thesis using c by (auto simp: k')
next
  case (some t ts)
  with run c have k': "k' = k\<lparr>sc := wake (lockq l) (sc k), status := (status k)(l := UNLOCKED),
      holds := (holds k)(c := holds k c - {l})\<rparr>" by (auto simp: lock_release_helper_def Let_def)
  have t: "kont k t = Retest l" using conf_invD(3) [OF inv] some(2) by (auto simp: locks_inv_def)
  have "locks_inv k' (c # t # rs) (bs(lockq l := ts))"
  proof (rule locks_inv_give [OF conf_invD(3) [OF inv] c(2)])
    show "set ((bs(lockq l := ts)) (lockq l')) \<subseteq> set (bs (lockq l'))" for l' using some(2) by auto
  qed (use t in \<open>auto simp: k'\<close>)
  moreover have "counts_inv N k' (bs(lockq l := ts))"
    by (rule counts_inv_cong [OF conf_invD(4) [OF inv]]) (simp_all add: k')
  ultimately have "conf_inv N k' (c # t # rs) (bs(lockq l := ts))" using some by (simp add: conf_inv_def k')
  then show ?thesis using some(6) by (auto simp: k')
qed

text \<open>The running thread blocks in a queue that is not a lock's.\<close>

lemma suspend_inv:
  assumes inv: "sched_inv (sc k) (c # rs) bs" "zombie (sc k) = 0" "locks_inv k (c # rs) bs"
    and kt: "kont k c = Running" and q: "\<And>l. q \<noteq> lockq l" and run: "suspend q kt' esp k = Inr k'"
    and counts: "\<And>k'. slots k' = slots k \<Longrightarrow> counter k' = counter k \<Longrightarrow> counts_inv N k' (bs(q := bs q @ [c]))"
  shows "\<exists>rs bs. conf_inv N k' rs bs"
proof -
  have c: "\<forall>q. c \<notin> set (bs q)" using sched_relD(7) [OF sched_invD(1) [OF inv(1)]] by fastforce
  note s = suspend_sim [OF inv(1,2) run]
  have k': "status k' = status k" "holds k' = holds k" "kont k' = (kont k)(c := kt')"
      "slots k' = slots k" "counter k' = counter k"
    by (subst s(4), simp)+
  have "locks_inv k' rs (bs(q := bs q @ [c]))"
    by (rule locks_inv_suspend [OF inv(3) c _ k'(1-3)]) (use kt q in auto)
  with s(2,3) counts [OF k'(4,5)] show ?thesis unfolding conf_inv_def by blast
qed

text \<open>Threads become ready; nothing else changes for the locks.\<close>

lemma locks_inv_more:
  assumes "locks_inv k rs bs" "status k' = status k" "holds k' = holds k"
    "\<And>t l. kont k' t = Retest l \<longleftrightarrow> kont k t = Retest l" "set rs \<subseteq> set rs'" "\<And>l. bs' (lockq l) = bs (lockq l)"
  shows "locks_inv k' rs' bs'"
  using assms(1,5) unfolding locks_inv_def assms(2-4,6) by blast

lemma cond_wait_inv:
  assumes inv: "conf_inv N k (c # rs) bs" and c: "self k = c" "l \<in> holds k c" "kont k c = Running"
    and run: "Condition_wait cv l esp k = Inr k'"
  shows "\<exists>rs bs. conf_inv N k' rs bs"
proof -
  from run obtain k1 where k1: "lock_release_helper l k = Inr k1" "suspend (condq cv) (Retest l) esp k1 = Inr k'"
    by (auto simp: Condition_wait_def rbind_eq_Inr)
  from release_inv [OF inv c(1,2) k1(1)] obtain rs1 bs1 where
    r: "conf_inv N k1 (c # rs1) bs1" "kont k1 = kont k" by blast
  show ?thesis
    by (rule suspend_inv [OF conf_invD(1-3) [OF r(1)] _ _ k1(2)])
      (use r(2) c(3) in \<open>auto intro: counts_inv_cong [OF conf_invD(4) [OF r(1)]]\<close>)
qed

lemma signal_inv:
  assumes inv: "conf_inv N k (c # rs) bs" and run: "Condition_signal cv k = Inr k'"
  shows "\<exists>rs bs. conf_inv N k' rs bs"
  using inv
proof (cases rule: conf_queue_cases [where q = "condq cv"])
  case none
  with run inv show ?thesis by (auto simp: Condition_signal_def)
next
  case (some t ts)
  with run have k': "k' = k\<lparr>sc := wake (condq cv) (sc k)\<rparr>" by (simp add: Condition_signal_def)
  have "conf_inv N k' (c # t # rs) (bs(condq cv := ts))"
    by (rule conf_invI, use some in \<open>simp_all add: k'\<close>)
      (auto intro: locks_inv_more [OF conf_invD(3) [OF inv]] counts_inv_cong [OF conf_invD(4) [OF inv]])
  then show ?thesis by blast
qed

lemma broadcast_inv:
  assumes inv: "conf_inv N k (c # rs) bs" and run: "Condition_broadcast cv k = Inr k'"
  shows "conf_inv N k' (c # rev (bs (condq cv)) @ rs) (bs(condq cv := []))"
proof -
  obtain s where s: "wake_all (condq cv) (sc k) = Some s"
      "sched_inv s (c # rev (bs (condq cv)) @ rs) (bs(condq cv := []))" "same_contexts (sc k) s"
    by (rule wake_all_sim [OF conf_invD(1) [OF inv]])
  with run have k': "k' = k\<lparr>sc := s\<rparr>" by (simp add: Condition_broadcast_def)
  show ?thesis
    by (rule conf_invI, use s conf_invD(2) [OF inv] in \<open>simp_all add: k' same_contexts_def\<close>)
      (auto intro: locks_inv_more [OF conf_invD(3) [OF inv]] counts_inv_cong [OF conf_invD(4) [OF inv]])
qed

lemma up_inv:
  assumes inv: "conf_inv N k (c # rs) bs" and run: "Semaphore_up m k = Inr k'"
  shows "\<exists>rs bs. conf_inv N k' rs bs"
  using inv
proof (cases rule: conf_queue_cases [where q = "semq m"])
  case none
  with run have k': "k' = k\<lparr>slots := (slots k)(m := slots k m + 1)\<rparr>" by (simp add: Semaphore_up_def)
  have "counts_inv N k' bs" using conf_invD(4) [OF inv] none by (simp add: counts_inv_def k')
  moreover have "locks_inv k' (c # rs) bs" by (rule locks_inv_more [OF conf_invD(3) [OF inv]]) (simp_all add: k')
  ultimately have "conf_inv N k' (c # rs) bs" using conf_invD(1,2) [OF inv] by (simp add: conf_inv_def k')
  then show ?thesis by blast
next
  case (some t ts)
  with run have k': "k' = k\<lparr>sc := wake (semq m) (sc k)\<rparr>" by (simp add: Semaphore_up_def)
  have "counts_inv N k' (bs(semq m := ts))"
    using conf_invD(4) [OF inv] some(2) unfolding counts_inv_def by (auto simp: k')
  moreover have "locks_inv k' (c # t # rs) (bs(semq m := ts))"
    by (rule locks_inv_more [OF conf_invD(3) [OF inv]]) (auto simp: k')
  ultimately have "conf_inv N k' (c # t # rs) (bs(semq m := ts))" using some by (simp add: conf_inv_def k')
  then show ?thesis by blast
qed

lemma down_inv:
  assumes inv: "conf_inv N k (c # rs) bs" and c: "kont k c = Running" and run: "Semaphore_down m esp k = Inr k'"
  shows "\<exists>rs bs. conf_inv N k' rs bs"
proof (cases "slots k m > 0")
  case True
  with run have k': "k' = k\<lparr>slots := (slots k)(m := slots k m - 1)\<rparr>" by (simp add: Semaphore_down_def)
  have "counts_inv N k' bs" using conf_invD(4) [OF inv] True by (simp add: counts_inv_def k')
  moreover have "locks_inv k' (c # rs) bs" by (rule locks_inv_more [OF conf_invD(3) [OF inv]]) (simp_all add: k')
  ultimately have "conf_inv N k' (c # rs) bs" using conf_invD(1,2) [OF inv] by (simp add: conf_inv_def k')
  then show ?thesis by blast
next
  case False
  then have run': "suspend (semq m) Finish esp k = Inr k'" using run by (simp add: Semaphore_down_def)
  have "counts_inv N k2 (bs(semq m := bs (semq m) @ [c]))" if "slots k2 = slots k" "counter k2 = counter k" for k2
    using conf_invD(4) [OF inv] False that unfolding counts_inv_def by auto
  with suspend_inv [OF conf_invD(1-3) [OF inv] c _ run'] show ?thesis by simp
qed

lemma barrier_release_funpow:
  "sched_inv s (c # rs) bs \<Longrightarrow>
     barrier_release b s n = Some ((wake (barq b) ^^ length (bs (barq b))) s, n + int (length (bs (barq b))))"
proof (induction "bs (barq b)" arbitrary: s rs bs n)
  case Nil
  with queue_null_iff [OF sched_invD(1)] show ?case by (subst barrier_release.simps) fastforce
next
  case (Cons t ts)
  from Cons.hyps(2) have "queues s (barq b) \<noteq> 0"
    using queue_null_iff [OF sched_invD(1) [OF Cons.prems], of "barq b"] by auto
  moreover have "barrier_release b (wake (barq b) s) (n + 1) =
      Some ((wake (barq b) ^^ length ts) (wake (barq b) s), n + 1 + int (length ts))"
    using Cons.hyps(1) [of "bs(barq b := ts)"] wake_sim(1) [OF Cons.prems Cons.hyps(2) [symmetric]] by simp
  ultimately show ?case
    using Cons.hyps(2) [symmetric] by (subst barrier_release.simps) (simp add: funpow_swap1)
qed

text \<open>The last thread to arrive wakes the others and sets the counter back.\<close>

lemma barrier_last:
  assumes inv: "conf_inv N k (c # rs) bs" and last: "counter k b = 1"
  obtains k' where "Barrier_wait b esp k = Inr k'"
    "conf_inv N k' (c # rev (bs (barq b)) @ rs) (bs(barq b := []))" "counter k' b = int (N b)"
    "kont k' = kont k"
proof -
  let ?q = "barq b" and ?n = "length (bs (barq b))"
  define k' where "k' = k\<lparr>sc := (wake ?q ^^ ?n) (sc k), counter := (counter k)(b := int ?n + 1)\<rparr>"
  have run: "Barrier_wait b esp k = Inr k'"
    using last barrier_release_funpow [OF conf_invD(1) [OF inv], of b 0]
    by (simp add: Barrier_wait_def Let_def k'_def)
  have N: "int (N b) = int ?n + 1" using counts_invD(4) [OF conf_invD(4) [OF inv], of b] last by simp
  have "counts_inv N k' (bs(?q := []))" using conf_invD(4) [OF inv] N by (auto simp: counts_inv_def k'_def)
  moreover have "locks_inv k' (c # rev (bs ?q) @ rs) (bs(?q := []))"
    by (rule locks_inv_more [OF conf_invD(3) [OF inv]]) (auto simp: k'_def)
  moreover have "zombie (sc k') = 0"
    using wake_many_contexts [OF conf_invD(1) [OF inv] order_refl, of ?q] conf_invD(2) [OF inv]
    by (simp add: k'_def same_contexts_def)
  ultimately have "conf_inv N k' (c # rev (bs ?q) @ rs) (bs(?q := []))"
    using wq.awake_many [OF conf_invD(1) [OF inv] order_refl, of ?q] by (simp add: conf_inv_def k'_def)
  with that run N show thesis by (simp add: k'_def)
qed

lemma barrier_inv:
  assumes inv: "conf_inv N k (c # rs) bs" and c: "kont k c = Running" and run: "Barrier_wait b esp k = Inr k'"
  shows "\<exists>rs bs. conf_inv N k' rs bs"
proof (cases "counter k b = 1")
  case True
  from barrier_last [OF inv True, of esp] run show ?thesis by (metis Inr_inject)
next
  case False
  with counts_invD(3) [OF conf_invD(4) [OF inv], of b] have "counter k b > 1" by simp
  let ?k = "k\<lparr>counter := (counter k)(b := counter k b - 1)\<rparr>"
  have run': "suspend (barq b) Finish esp ?k = Inr k'"
    using run \<open>counter k b > 1\<close> by (simp add: Barrier_wait_def Let_def)
  have "counts_inv N k2 (bs(barq b := bs (barq b) @ [c]))" if "slots k2 = slots ?k" "counter k2 = counter ?k" for k2
    using conf_invD(4) [OF inv] \<open>counter k b > 1\<close> that unfolding counts_inv_def by auto
  moreover have "locks_inv ?k (c # rs) bs" by (rule locks_inv_more [OF conf_invD(3) [OF inv]]) simp_all
  ultimately show ?thesis
    using suspend_inv [of ?k c rs bs "barq b", OF _ _ _ _ _ run'] conf_invD(1,2) [OF inv] c by simp
qed

lemma preempt_inv:
  assumes inv: "conf_inv N k (c # rs) bs" and run: "preempt esp k = Inr k'"
  shows "conf_inv N k' (rs @ [c]) bs"
proof -
  obtain s e where s: "scheduler esp (sc k) = Inr (e, s)" "sched_inv s (rs @ [c]) bs" "zombie s = 0"
    by (rule yield_sim [OF conf_invD(1) [OF inv] reap_none [OF conf_invD(2) [OF inv]]])
  with run have k': "k' = k\<lparr>sc := s\<rparr>" by (simp add: preempt_def)
  have "locks_inv k' (rs @ [c]) bs" by (rule locks_inv_more [OF conf_invD(3) [OF inv]]) (auto simp: k')
  moreover have "counts_inv N k' bs" by (rule counts_inv_cong [OF conf_invD(4) [OF inv]]) (simp_all add: k')
  ultimately show ?thesis using s by (simp add: conf_inv_def k')
qed

lemma finish_inv:
  assumes inv: "conf_inv N k (c # rs) bs" and c: "kont k c = Finish"
  shows "conf_inv N (k\<lparr>kont := (kont k)(c := Running)\<rparr>) (c # rs) bs"
proof -
  let ?k = "k\<lparr>kont := (kont k)(c := Running)\<rparr>"
  have "locks_inv ?k (c # rs) bs" by (rule locks_inv_more [OF conf_invD(3) [OF inv]]) (use c in auto)
  then show ?thesis using conf_invD [OF inv] by (simp add: conf_inv_def counts_inv_def)
qed

text \<open>Every step keeps the invariant.\<close>

lemma step_inv:
  assumes "step k k'" "conf_inv N k rs bs"
  shows "\<exists>rs bs. conf_inv N k' rs bs"
proof -
  obtain ts where rs: "rs = self k # ts" by (rule conf_inv_ready [OF assms(2)])
  note inv = assms(2) [unfolded rs]
  from assms(1) show ?thesis
  proof cases
    case (acquire l esp)
    then show ?thesis using acquire_inv [OF inv] by (auto simp: Lock_acquire_def)
  next
    case (release l)
    then show ?thesis using release_inv [OF inv refl] unfolding Lock_release_def by blast
  next
    case (resumed esp)
    then show ?thesis
      using acquire_inv [OF inv, of _ esp k'] finish_inv [OF inv]
      by (auto simp: resume_def split: kont.splits)
  qed (use cond_wait_inv [OF inv refl] signal_inv [OF inv] broadcast_inv [OF inv] up_inv [OF inv]
      down_inv [OF inv] barrier_inv [OF inv] preempt_inv [OF inv] in blast)+
qed

lemma steps_inv:
  assumes "step\<^sup>*\<^sup>* k k'" "conf_inv N k rs bs"
  shows "\<exists>rs bs. conf_inv N k' rs bs"
  using assms
proof (induction)
  case (step y z)
  then show ?case using step_inv by blast
qed blast

section \<open>Properties\<close>

text \<open>For examples: thread 16 runs and holds lock 0, 32 is ready, 48 waits for the lock.\<close>

definition demo_conf :: conf where
  "demo_conf =
     \<lparr>sc = demo_sched, status = (\<lambda>_. UNLOCKED)(0 := LOCKED), slots = (\<lambda>_. 1), counter = (\<lambda>_. 2),
      kont = (\<lambda>_. Running)(48 := Retest 0), holds = (\<lambda>_. {})(16 := {0})\<rparr>"

lemma demo_lockq: "((\<lambda>_. [])(0 := ts)) (lockq l) = (if l = 0 then ts else [])"
    "((\<lambda>_. [])(0 := ts)) (semq m) = []" "((\<lambda>_. [])(0 := ts)) (barq b) = []"
  by (simp_all add: lockq_def semq_def barq_def)

lemma demo_locks_inv:
  assumes "status k = (\<lambda>_. UNLOCKED)(0 := LOCKED)" "holds k = (\<lambda>_. {})(16 := {0})"
    "\<forall>t \<in> set ts. kont k t = Retest 0"
  shows "locks_inv k rs ((\<lambda>_. [])(0 := ts))"
  unfolding locks_inv_def demo_lockq assms(1,2) using assms(3) by (auto split: if_splits)

lemma demo_counts_inv:
  "slots k = (\<lambda>_. 1) \<Longrightarrow> counter k = (\<lambda>_. 2) \<Longrightarrow> counts_inv (\<lambda>_. 2) k ((\<lambda>_. [])(0 := ts))"
  unfolding counts_inv_def demo_lockq by simp

lemma demo_conf_inv: "conf_inv (\<lambda>_. 2) demo_conf [16, 32] ((\<lambda>_. [])(0 := [48]))"
  by (rule conf_invI)
    (simp_all add: demo_conf_def demo_sched_inv(1) demo_locks_inv demo_counts_inv, simp add: demo_sched_def)

lemma demo_release:
  obtains k' where "step demo_conf k'" "Lock_release 0 demo_conf = Inr k'" "status k' 0 = UNLOCKED"
proof -
  have run: "Lock_release 0 demo_conf = Inr (demo_conf\<lparr>sc := wake 0 demo_sched,
      status := (status demo_conf)(0 := UNLOCKED), holds := (holds demo_conf)(16 := {})\<rparr>)"
    by (simp add: Lock_release_def lock_release_helper_def Let_def demo_conf_def demo_sched_def
        lockq_def unblock_def)
  show thesis
    by (rule that [OF step.release [OF _ _ run] run]) (simp_all add: demo_conf_def demo_sched_def)
qed

text \<open>C4: mutual exclusion. However the threads call the primitives and are preempted, a lock is
  LOCKED exactly when some thread holds it, and no two threads hold the same lock.\<close>

theorem mutual_exclusion:
  assumes "conf_inv N k rs bs" "step\<^sup>*\<^sup>* k k'"
  shows "(status k' l = LOCKED \<longleftrightarrow> (\<exists>t. l \<in> holds k' t)) \<and>
    (l \<in> holds k' t \<longrightarrow> l \<in> holds k' t' \<longrightarrow> t = t')"
proof -
  from steps_inv [OF assms(2,1)] obtain rs' bs' where "conf_inv N k' rs' bs'" by blast
  from conf_invD(3) [OF this] show ?thesis by (auto simp: locks_inv_def)
qed

theorem mutual_exclusion_witness:
  "\<exists>k'. step demo_conf k' \<and> \<not> (\<exists>t. 0 \<in> holds k' t)"
proof -
  obtain k' where k': "step demo_conf k'" "status k' 0 = UNLOCKED" by (rule demo_release)
  with mutual_exclusion [OF demo_conf_inv r_into_rtranclp, of k' 0] show ?thesis by auto
qed


text \<open>For its witness: two threads wait for the lock.\<close>

definition demo_conf2 :: conf where
  "demo_conf2 = demo_conf\<lparr>sc := demo_sched\<lparr>threads := (threads demo_sched)(48 := demo_thread BLOCKED 64 0 300,
     64 := demo_thread BLOCKED 0 0 400)\<rparr>, kont := (\<lambda>_. Running)(48 := Retest 0, 64 := Retest 0)\<rparr>"

lemma demo_conf2_sched: "sched_inv (sc demo_conf2) [16, 32] ((\<lambda>_. [])(0 := [48, 64]))"
  by (auto simp: sched_inv_def sched_rel_def demo_conf2_def demo_sched_def demo_thread_def ring_def)

lemma demo_conf2_inv: "conf_inv (\<lambda>_. 2) demo_conf2 [16, 32] ((\<lambda>_. [])(0 := [48, 64]))"
  by (rule conf_invI [OF demo_conf2_sched])
    (simp_all add: demo_conf2_def demo_conf_def demo_locks_inv demo_counts_inv, simp add: demo_sched_def)


lemma suspend_runs:
  assumes "sched_inv (sc k) (c # d # rs) bs" "zombie (sc k) = 0"
  obtains k' where "suspend q kt esp k = Inr k'" "sched_inv (sc k') (d # rs) (bs(q := bs q @ [c]))"
    "counter k' = counter k" "slots k' = slots k" "kont k' = (kont k)(c := kt)"
proof -
  have c: "self k = c" using sched_relD(2) [OF sched_invD(1) [OF assms(1)]] by simp
  obtain s e where "block q esp (sc k) = Inr (e, s)" "sched_inv s (d # rs) (bs(q := bs q @ [c]))"
    by (rule block_sim [OF assms(1) reap_none [OF assms(2)]])
  with that [of "k\<lparr>sc := s, kont := (kont k)(c := kt)\<rparr>"] c show thesis by (simp add: suspend_def)
qed





text \<open>The lock as its users see it: its status and the threads in its queue.\<close>

definition lock_view :: "nat \<Rightarrow> conf \<Rightarrow> (nat \<Rightarrow> u32 list) \<Rightarrow> lock" where
  "lock_view l k bs = \<lparr>lk_status = status k l, lk_queue = map unat (bs (lockq l))\<rparr>"

text \<open>C8: the locks of the data structures are the locks of the kernel, seen through status and
  queue. \<open>Lock::acquire\<close> on a free lock changes the view as \<open>lock_acquire\<close> does, and the caller
  goes on holding the lock; on a held lock \<open>lock_acquire\<close> says \<open>Blocked\<close>, and the caller is then
  the last thread of the queue while another thread runs.\<close>

theorem lock_acquire_refines:
  assumes "conf_inv N k (c # d # rs) bs"
  shows "\<exists>k' bs' rs'. Lock_acquire l esp k = Inr k' \<and> sched_inv (sc k') rs' bs' \<and>
    (case lock_acquire (lock_view l k bs) of
       Inr v \<Rightarrow> lock_view l k' bs' = v \<and> l \<in> holds k' c \<and> current_running (sc k') = c
     | Inl e \<Rightarrow> e = Blocked \<and> bs' (lockq l) = bs (lockq l) @ [c] \<and> current_running (sc k') = d)"
proof (cases "status k l")
  case LOCKED
  obtain k' where k': "suspend (lockq l) (Retest l) esp k = Inr k'"
      "sched_inv (sc k') (d # rs) (bs(lockq l := bs (lockq l) @ [c]))"
    by (rule suspend_runs [OF conf_invD(1,2) [OF assms]])
  moreover have "self k' = d" using sched_relD(2) [OF sched_invD(1) [OF k'(2)]] by simp
  ultimately show ?thesis
    using LOCKED by (auto simp: Lock_acquire_def lock_acquire_helper_def lock_acquire_def lock_view_def)
next
  case UNLOCKED
  moreover have "self k = c" using sched_relD(2) [OF sched_invD(1) [OF conf_invD(1) [OF assms]]] by simp
  ultimately show ?thesis
    using conf_invD(1) [OF assms]
    by (auto simp: Lock_acquire_def lock_acquire_helper_def lock_acquire_def lock_view_def)
qed

theorem lock_acquire_refines_witness:
  "\<exists>k'. Lock_acquire 1 7 demo_conf = Inr k' \<and> current_running (sc k') = 16 \<and> 1 \<in> holds k' 16"
  using lock_acquire_refines [OF demo_conf_inv, of 1 7]
  by (auto simp: lock_acquire_def lock_view_def demo_conf_def)

text \<open>C9: \<open>Lock::release\<close> changes the view of the lock as \<open>lock_release\<close> does: the lock is free and
  its first waiter, if any, has left the queue for the ready ring.\<close>

theorem lock_release_refines:
  assumes "conf_inv N k (c # rs) bs"
  shows "\<exists>k' bs' rs'. Lock_release l k = Inr k' \<and> lock_view l k' bs' = lock_release (lock_view l k bs) \<and>
    sched_inv (sc k') (c # rs') bs' \<and> rs' = take 1 (bs (lockq l)) @ rs"
  using assms
proof (cases rule: conf_queue_cases [where q = "lockq l"])
  case none
  then show ?thesis
    using conf_invD(1) [OF assms]
    by (auto simp: Lock_release_def lock_release_helper_def Let_def lock_view_def lock_release_def)
next
  case (some t ts)
  then have "\<exists>k'. Lock_release l k = Inr k' \<and>
      lock_view l k' (bs(lockq l := ts)) = lock_release (lock_view l k bs) \<and>
      sched_inv (sc k') (c # t # rs) (bs(lockq l := ts))"
    by (auto simp: Lock_release_def lock_release_helper_def Let_def lock_view_def lock_release_def)
  with some(2) show ?thesis by fastforce
qed

theorem lock_release_refines_witness:
  "\<exists>k' bs. Lock_release 0 demo_conf = Inr k' \<and> sched_inv (sc k') [16, 48, 32] bs"
  using lock_release_refines [OF demo_conf_inv, of 0] by (auto simp: lockq_def)

end
