(* ===== verification/Channel.thy ===== *)
theory Channel
  imports Prelude
begin

text \<open>
  The contract of the kernel's queues between a producer and a consumer, the mailboxes of
  \<open>kernel/mbox.cpp\<close> and the keyboard buffer of \<open>kernel/drivers/keyboard.cpp\<close>: what is put in comes out
  whole and in order. Each discharges the contract by an interpretation in its own theory.
\<close>

fun put_all :: "('m \<Rightarrow> 's \<Rightarrow> 's result) \<Rightarrow> 'm list \<Rightarrow> 's \<Rightarrow> 's result" where
  "put_all put [] s = Inr s"
| "put_all put (m # ms) s = rbind (put m s) (put_all put ms)"

fun get_all :: "('s \<Rightarrow> ('m \<times> 's) result) \<Rightarrow> nat \<Rightarrow> 's \<Rightarrow> ('m list \<times> 's) result" where
  "get_all get 0 s = Inr ([], s)"
| "get_all get (Suc n) s =
     rbind (get s) (\<lambda>(m, s). rbind (get_all get n s) (\<lambda>(ms, s). Inr (m # ms, s)))"

locale channel =
  fixes queued :: "'s \<Rightarrow> 'm list \<Rightarrow> bool"
    and fits_in :: "'m list \<Rightarrow> 'm \<Rightarrow> bool"
    and put :: "'m \<Rightarrow> 's \<Rightarrow> 's result"
    and get :: "'s \<Rightarrow> ('m \<times> 's) result"
  assumes put_last: "queued s ms \<Longrightarrow> fits_in ms m \<Longrightarrow> \<exists>s'. put m s = Inr s' \<and> queued s' (ms @ [m])"
    and get_first: "queued s (m # ms) \<Longrightarrow> \<exists>s'. get s = Inr (m, s') \<and> queued s' ms"
begin

lemma put_all_queued:
  "queued s ms \<Longrightarrow> (\<And>i. i < length ns \<Longrightarrow> fits_in (ms @ take i ns) (ns ! i)) \<Longrightarrow>
     \<exists>s'. put_all put ns s = Inr s' \<and> queued s' (ms @ ns)"
proof (induction ns arbitrary: s ms)
  case (Cons n ns)
  from Cons.prems(2) [of 0] put_last [OF Cons.prems(1)] obtain s1 where
    s1: "put n s = Inr s1" "queued s1 (ms @ [n])" by auto
  have "fits_in ((ms @ [n]) @ take i ns) (ns ! i)" if "i < length ns" for i
    using Cons.prems(2) [of "Suc i"] that by simp
  from Cons.IH [OF s1(2) this] s1(1) show ?case by auto
qed auto

lemma get_all_queued:
  "queued s (ms @ ns) \<Longrightarrow> \<exists>s'. get_all get (length ms) s = Inr (ms, s') \<and> queued s' ns"
proof (induction ms arbitrary: s)
  case (Cons m ms)
  from get_first [of s m "ms @ ns"] Cons.prems obtain s1 where "get s = Inr (m, s1)" "queued s1 (ms @ ns)" by auto
  with Cons.IH show ?case by fastforce
qed simp

lemma put_get_all:
  assumes "queued s []" "\<And>i. i < length ms \<Longrightarrow> fits_in (take i ms) (ms ! i)"
  shows "\<exists>s' s''. put_all put ms s = Inr s' \<and> get_all get (length ms) s' = Inr (ms, s'') \<and> queued s'' []"
  using put_all_queued [OF assms(1), of ms] assms(2) get_all_queued [of _ ms "[]"] by fastforce

end

end
