(* ===== verification/Mbox.thy ===== *)
theory Mbox
  imports Lock Minstd Channel
begin

text \<open>
  The mailboxes of \<open>kernel/mbox.cpp\<close>: messages of different lengths in a ring buffer of bytes.
  A call that waits on a condition does not go on (\<open>Blocked\<close>); it has changed nothing but the
  queue it waits in, and tests its condition again when it is woken. A condition is the list of
  the threads that wait for it. Each message starts with the size of its content.
\<close>

section \<open>State\<close>

definition MBUFFER_SIZE :: int where "MBUFFER_SIZE = 1024"

definition MAX_MBOX :: int where "MAX_MBOX = 12"

record mbox =
  owners :: int
  messages :: int
  mhead :: int
  mtail :: int
  mlock :: lock
  freed_space :: "nat list"
  arrived_data :: "nat list"
  mbuffer :: "u8 list"

text \<open>The remainder of C, which has the sign of the dividend.\<close>

definition c_mod :: "int \<Rightarrow> int \<Rightarrow> int" where
  "c_mod a b = (if a < 0 then - ((- a) mod b) else a mod b)"

definition content_size :: "u8 list \<Rightarrow> u32 result" where
  "content_size m =
     (if length m < 4 then Inl OutOfBounds
      else Inr (le32 (m ! 0) (m ! 1) (m ! 2) (m ! 3)))"

text \<open>\<open>MSG_SIZE\<close> is an unsigned sum, converted to \<open>int\<close> where it is used.\<close>

definition MSG_SIZE :: "u8 list \<Rightarrow> int result" where
  "MSG_SIZE m = rbind (content_size m) (\<lambda>c. Inr (sint (4 + c)))"

section \<open>Operations\<close>

definition space_available :: "mbox \<Rightarrow> int" where
  "space_available mb =
     (if mtail mb = mhead mb \<and> messages mb \<noteq> 0 then 0
      else if mtail mb > mhead mb then mtail mb - mhead mb
      else mtail mb + MBUFFER_SIZE - mhead mb)"

definition mbox_signal :: "nat list \<Rightarrow> nat list" where
  "mbox_signal q = (if q \<noteq> [] then tl q else q)"

definition mbox_broadcast :: "nat list \<Rightarrow> nat list" where
  "mbox_broadcast q = []"

text \<open>\<open>mbox_open\<close> on the table of all mailboxes; the result is the number of the mailbox or -1.\<close>

definition mbox_open :: "int \<Rightarrow> mbox list \<Rightarrow> (int \<times> mbox list) result" where
  "mbox_open key mboxes =
     (if key \<ge> MAX_MBOX \<or> key < 0 then Inr (- 1, mboxes)
      else if nat key < length mboxes
      then
        let mb = mboxes ! nat key
        in rbind (lock_acquire (mlock mb)) (\<lambda>l.
             let mb = mb\<lparr>mlock := l\<rparr>;
                 mb = (if owners mb = 0 \<and> messages mb = 0
                       then mb\<lparr>mhead := 0, mtail := 0, messages := 0\<rparr> else mb);
                 mb = mb\<lparr>owners := owners mb + 1\<rparr>;
                 mb = mb\<lparr>mlock := lock_release (mlock mb)\<rparr>
             in Inr (key, mboxes[nat key := mb]))
      else Inl OutOfBounds)"

definition mbox_close :: "mbox \<Rightarrow> (int \<times> mbox) result" where
  "mbox_close mb =
     rbind (lock_acquire (mlock mb)) (\<lambda>l.
       let mb = mb\<lparr>mlock := l\<rparr>
       in if owners mb = 0 then Inr (- 1, mb\<lparr>mlock := lock_release (mlock mb)\<rparr>)
          else
            let mb = mb\<lparr>owners := owners mb - 1\<rparr>
            in Inr (1, mb\<lparr>mlock := lock_release (mlock mb)\<rparr>))"

text \<open>\<open>stat\<close> returns its two output parameters.\<close>

definition mbox_stat :: "mbox \<Rightarrow> (int \<times> int \<times> mbox) result" where
  "mbox_stat mb =
     rbind (lock_acquire (mlock mb)) (\<lambda>l.
       let mb = mb\<lparr>mlock := l\<rparr>;
           messages_out = messages mb;
           space_out = space_available mb
       in Inr (messages_out, space_out, mb\<lparr>mlock := lock_release (mlock mb)\<rparr>))"

text \<open>The loop of \<open>send\<close>: \<open>i\<close> bytes are copied, \<open>k\<close> are left.\<close>

fun ring_copy_in :: "u8 list \<Rightarrow> u8 list \<Rightarrow> int \<Rightarrow> nat \<Rightarrow> nat \<Rightarrow> u8 list result" where
  "ring_copy_in m b pos i 0 = Inr b"
| "ring_copy_in m b pos i (Suc k) =
     (let j = c_mod (pos + int i) MBUFFER_SIZE
      in if i < length m \<and> 0 \<le> j \<and> nat j < length b
         then ring_copy_in m (b[nat j := m ! i]) pos (Suc i) k
         else Inl OutOfBounds)"

definition mbox_send :: "u8 list \<Rightarrow> mbox \<Rightarrow> mbox result" where
  "mbox_send m mb =
     rbind (MSG_SIZE m) (\<lambda>msize.
     rbind (lock_acquire (mlock mb)) (\<lambda>l.
       let mb = mb\<lparr>mlock := l\<rparr>
       in if space_available mb < msize then Inl Blocked
          else rbind (ring_copy_in m (mbuffer mb) (mhead mb) 0 (nat msize)) (\<lambda>b.
            let mb = mb\<lparr>mbuffer := b\<rparr>;
                mb = mb\<lparr>mhead := c_mod (mhead mb + msize) MBUFFER_SIZE\<rparr>;
                mb = mb\<lparr>messages := messages mb + 1\<rparr>;
                mb = mb\<lparr>arrived_data := mbox_signal (arrived_data mb)\<rparr>
            in Inr (mb\<lparr>mlock := lock_release (mlock mb)\<rparr>))))"

text \<open>\<open>ring_copy_out\<close> into a buffer \<open>dst\<close>.\<close>

fun ring_copy_out :: "u8 list \<Rightarrow> int \<Rightarrow> u8 list \<Rightarrow> nat \<Rightarrow> nat \<Rightarrow> u8 list result" where
  "ring_copy_out b pos dst i 0 = Inr dst"
| "ring_copy_out b pos dst i (Suc k) =
     (let j = c_mod (pos + int i) MBUFFER_SIZE
      in if i < length dst \<and> 0 \<le> j \<and> nat j < length b
         then ring_copy_out b pos (dst[i := b ! nat j]) (Suc i) k
         else Inl OutOfBounds)"

definition mbox_recv :: "u8 list \<Rightarrow> mbox \<Rightarrow> (u8 list \<times> mbox) result" where
  "mbox_recv dst mb =
     rbind (lock_acquire (mlock mb)) (\<lambda>l.
       let mb = mb\<lparr>mlock := l\<rparr>
       in if messages mb = 0 then Inl Blocked
          else rbind (ring_copy_out (mbuffer mb) (mtail mb) dst 0 4) (\<lambda>dst.
               rbind (MSG_SIZE dst) (\<lambda>msize.
               rbind (ring_copy_out (mbuffer mb) (mtail mb) dst 0 (nat msize)) (\<lambda>dst.
                 let mb = mb\<lparr>mtail := c_mod (mtail mb + msize) MBUFFER_SIZE\<rparr>;
                     mb = mb\<lparr>messages := messages mb - 1\<rparr>;
                     mb = mb\<lparr>freed_space := mbox_broadcast (freed_space mb)\<rparr>
                 in Inr (dst, mb\<lparr>mlock := lock_release (mlock mb)\<rparr>)))))"

section \<open>Ring buffers\<close>

text \<open>The \<open>n\<close> bytes from position \<open>t\<close> on.\<close>

definition ring_bytes :: "u8 list \<Rightarrow> nat \<Rightarrow> nat \<Rightarrow> u8 list" where
  "ring_bytes b t n = map (\<lambda>i. b ! ((t + i) mod 1024)) [0..<n]"

lemma c_mod_int [simp]: "c_mod (int t + int i) MBUFFER_SIZE = int ((t + i) mod 1024)"
  by (simp add: c_mod_def MBUFFER_SIZE_def zmod_int)

lemma ring_bytes_length [simp]: "length (ring_bytes b t n) = n"
  by (simp add: ring_bytes_def)

lemma ring_bytes_append: "ring_bytes b t (m + n) = ring_bytes b t m @ ring_bytes b ((t + m) mod 1024) n"
  by (auto simp: ring_bytes_def list_eq_iff_nth_eq nth_append mod_simps add.assoc)

lemma ring_index_inj:
  assumes "i < n" "j < n" "n \<le> 1024" "(t + i) mod 1024 = (t + j) mod (1024 :: nat)"
  shows "i = j"
  using assms
proof (induction i j rule: linorder_wlog)
  case (le i j)
  then have "1024 dvd (t + j) - (t + i)" by (subst mod_eq_dvd_iff_nat [symmetric]) auto
  with le show ?case by (auto dest: dvd_imp_le)
qed auto

lemma ring_copy_in_run:
  "length b = 1024 \<Longrightarrow> i + k \<le> length m \<Longrightarrow> i + k \<le> 1024 \<Longrightarrow>
     \<exists>b'. ring_copy_in m b (int h) i k = Inr b' \<and> length b' = 1024 \<and>
       (\<forall>x \<in> {i..<i + k}. b' ! ((h + x) mod 1024) = m ! x) \<and>
       (\<forall>j. (\<forall>x \<in> {i..<i + k}. j \<noteq> (h + x) mod 1024) \<longrightarrow> b' ! j = b ! j)"
proof (induction k arbitrary: i b)
  case (Suc k)
  let ?j = "(h + i) mod 1024" and ?b = "b[(h + i) mod 1024 := m ! i]"
  from Suc.IH [of ?b "Suc i"] Suc.prems obtain b' where
    b': "ring_copy_in m ?b (int h) (Suc i) k = Inr b'" "length b' = 1024"
      "\<And>x. x \<in> {Suc i..<i + Suc k} \<Longrightarrow> b' ! ((h + x) mod 1024) = m ! x"
      "\<And>j. (\<forall>x \<in> {Suc i..<i + Suc k}. j \<noteq> (h + x) mod 1024) \<Longrightarrow> b' ! j = ?b ! j"
    by auto
  have "?j \<noteq> (h + x) mod 1024" if "x \<in> {Suc i..<i + Suc k}" for x
    using ring_index_inj [of i "i + Suc k" x h] that Suc.prems by auto
  then have "b' ! ?j = m ! i" using b'(4) [of ?j] Suc.prems by auto
  then have "b' ! ((h + x) mod 1024) = m ! x" if "x \<in> {i..<i + Suc k}" for x
    using b'(3) [of x] that by (cases "x = i") auto
  moreover have "b' ! j = b ! j" if "\<forall>x \<in> {i..<i + Suc k}. j \<noteq> (h + x) mod 1024" for j
  proof -
    have "j \<noteq> ?j" using that by simp
    moreover have "b' ! j = ?b ! j" using that by (intro b'(4)) auto
    ultimately show ?thesis by simp
  qed
  moreover have "ring_copy_in m b (int h) i (Suc k) = Inr b'" using b'(1) Suc.prems by (simp add: Let_def)
  ultimately show ?case using b'(2) by blast
qed simp

lemma ring_copy_out_run:
  "length b = 1024 \<Longrightarrow> i + k \<le> length dst \<Longrightarrow>
     ring_copy_out b (int t) dst i k =
       Inr (take i dst @ map (\<lambda>x. b ! ((t + x) mod 1024)) [i..<i + k] @ drop (i + k) dst)"
proof (induction k arbitrary: i dst)
  case (Suc k)
  let ?v = "b ! ((t + i) mod 1024)"
  have "take (Suc i) (dst[i := ?v]) = take i dst @ [?v]"
    using Suc.prems by (simp add: take_Suc_conv_app_nth)
  moreover have "[i..<i + Suc k] = i # [Suc i..<Suc i + k]" by (simp add: upt_rec)
  ultimately show ?case
    using Suc.IH [of "Suc i" "dst[i := ?v]"] Suc.prems by (simp add: Let_def)
qed simp

lemma ring_copy_out_bytes:
  "length b = 1024 \<Longrightarrow> n \<le> length dst \<Longrightarrow> ring_copy_out b (int t) dst 0 n = Inr (ring_bytes b t n @ drop n dst)"
  using ring_copy_out_run [of b 0 n dst t] by (simp add: ring_bytes_def)

section \<open>Mailboxes as queues of messages\<close>

text \<open>A message: four bytes with the size of the content, then the content.\<close>

definition msg_ok :: "u8 list \<Rightarrow> bool" where
  "msg_ok m \<longleftrightarrow> 4 \<le> length m \<and> length m \<le> 1024 \<and>
     unat (le32 (m ! 0) (m ! 1) (m ! 2) (m ! 3)) + 4 = length m"

text \<open>The mailbox holds the messages \<open>ms\<close>, the oldest first.\<close>

definition mbox_inv :: "mbox \<Rightarrow> u8 list list \<Rightarrow> bool" where
  "mbox_inv mb ms \<longleftrightarrow>
     lock_free (mlock mb) \<and> length (mbuffer mb) = 1024 \<and> 0 \<le> mtail mb \<and> mtail mb < 1024 \<and>
     length (concat ms) \<le> 1024 \<and>
     mhead mb = int ((nat (mtail mb) + length (concat ms)) mod 1024) \<and>
     messages mb = int (length ms) \<and>
     ring_bytes (mbuffer mb) (nat (mtail mb)) (length (concat ms)) = concat ms \<and>
     (\<forall>m \<in> set ms. msg_ok m)"

lemma mbox_invD:
  assumes "mbox_inv mb ms"
  obtains t where "mtail mb = int t" "t < 1024" "lock_free (mlock mb)" "length (mbuffer mb) = 1024"
    "length (concat ms) \<le> 1024" "mhead mb = int ((t + length (concat ms)) mod 1024)"
    "messages mb = int (length ms)" "ring_bytes (mbuffer mb) t (length (concat ms)) = concat ms"
    "\<forall>m \<in> set ms. msg_ok m"
proof (rule that [of "nat (mtail mb)"])
qed (use assms in \<open>auto simp: mbox_inv_def\<close>)

lemma msg_ok_length: "msg_ok m \<Longrightarrow> 4 \<le> length m" "msg_ok m \<Longrightarrow> length m \<le> 1024"
  by (simp_all add: msg_ok_def)

lemma msg_size:
  assumes "msg_ok m" "4 \<le> length m'" "take 4 m' = take 4 m"
  shows "MSG_SIZE m' = Inr (int (length m))"
proof -
  have eq: "m' ! i = m ! i" if "i < 4" for i using assms(3) that by (metis nth_take)
  define c where "c = le32 (m ! 0) (m ! 1) (m ! 2) (m ! 3)"
  have c: "unat c + 4 = length m" "length m \<le> 1024" using assms(1) by (auto simp: msg_ok_def c_def)
  then have "unat (4 + c) = length m" by (intro unat_eqI) (auto simp flip: c(1))
  then have "nat (sint (4 + c)) = length m" using nat_sint_u32 [of "4 + c"] c by simp
  moreover have "length m \<ge> 4" using assms(1) by (simp add: msg_ok_def)
  ultimately have "sint (4 + c) = int (length m)" by linarith
  with assms(2) eq [of 0] eq [of 1] eq [of 2] eq [of 3] show ?thesis
    by (simp add: MSG_SIZE_def content_size_def c_def)
qed

lemma space_lock [simp]: "space_available (mb\<lparr>mlock := l\<rparr>) = space_available mb"
  by (simp add: space_available_def)

lemma space_run:
  assumes "mbox_inv mb ms"
  shows "space_available mb = 1024 - int (length (concat ms))"
proof -
  obtain t where t: "mtail mb = int t" "t < 1024" "length (concat ms) \<le> 1024"
      "mhead mb = int ((t + length (concat ms)) mod 1024)" "messages mb = int (length ms)" "\<forall>m \<in> set ms. msg_ok m"
    by (rule mbox_invD [OF assms])
  define n where "n = length (concat ms)"
  have n: "n = 0 \<longleftrightarrow> ms = []"
    using t(6) msg_ok_length(1) by (cases ms) (fastforce simp: n_def)+
  consider "n = 0" | "n = 1024" | "0 < n" "n < 1024" "t + n < 1024" | "0 < n" "n < 1024" "1024 \<le> t + n"
    using t(3) by (fastforce simp: n_def)
  then show ?thesis
    using t(1,2,4,5) n unfolding n_def [symmetric]
    by cases (auto simp: space_available_def MBUFFER_SIZE_def mod_if)
qed

lemma ring_bytes_take: "n \<le> l \<Longrightarrow> take n (ring_bytes b t l) = ring_bytes b t n"
  by (simp add: ring_bytes_def take_map)

lemma ring_write:
  assumes "length b = 1024" "n + length m \<le> 1024"
  obtains b' where "ring_copy_in m b (int ((t + n) mod 1024)) 0 (length m) = Inr b'" "length b' = 1024"
    "ring_bytes b' t (n + length m) = ring_bytes b t n @ m"
proof -
  let ?h = "(t + n) mod 1024"
  have "0 + length m \<le> length m" "0 + length m \<le> 1024" using assms(2) by simp_all
  from ring_copy_in_run [OF assms(1) this, of ?h] obtain b' where
    b': "ring_copy_in m b (int ?h) 0 (length m) = Inr b'" "length b' = 1024"
      "\<forall>x \<in> {0..<length m}. b' ! ((?h + x) mod 1024) = m ! x"
      "\<forall>j. (\<forall>x \<in> {0..<length m}. j \<noteq> (?h + x) mod 1024) \<longrightarrow> b' ! j = b ! j"
    unfolding add_0 by blast
  have old: "b' ! ((t + y) mod 1024) = b ! ((t + y) mod 1024)" if "y < n" for y
  proof (rule b'(4) [rule_format])
    fix x assume x: "x \<in> {0..<length m}"
    show "(t + y) mod 1024 \<noteq> (?h + x) mod 1024"
    proof
      assume "(t + y) mod 1024 = (?h + x) mod 1024"
      then have "(t + y) mod 1024 = (t + (n + x)) mod 1024" by (simp only: mod_add_left_eq add.assoc)
      from ring_index_inj [OF _ _ assms(2) this] x that show False by simp
    qed
  qed
  then have "ring_bytes b' t n = ring_bytes b t n" unfolding ring_bytes_def by (intro map_cong) auto
  moreover have "ring_bytes b' ?h (length m) = m"
    using b'(3) by (intro nth_equalityI) (auto simp: ring_bytes_def)
  ultimately have "ring_bytes b' t (n + length m) = ring_bytes b t n @ m" unfolding ring_bytes_append by simp
  with b'(1,2) show thesis by (rule that)
qed

lemma send_sim:
  assumes inv: "mbox_inv mb ms" and m: "msg_ok m" and room: "length (concat ms) + length m \<le> 1024"
  obtains mb' where "mbox_send m mb = Inr mb'" "mbox_inv mb' (ms @ [m])" "owners mb' = owners mb"
    "freed_space mb' = freed_space mb" "arrived_data mb' = tl (arrived_data mb)"
proof -
  obtain t where t: "mtail mb = int t" "t < 1024" "lock_free (mlock mb)" "length (mbuffer mb) = 1024"
    "length (concat ms) \<le> 1024" "mhead mb = int ((t + length (concat ms)) mod 1024)"
    "messages mb = int (length ms)" "ring_bytes (mbuffer mb) t (length (concat ms)) = concat ms"
    "\<forall>m \<in> set ms. msg_ok m"
    by (rule mbox_invD [OF inv])
  obtain b' where b': "ring_copy_in m (mbuffer mb) (mhead mb) 0 (length m) = Inr b'" "length b' = 1024"
    "ring_bytes b' t (length (concat ms) + length m) = concat ms @ m"
    using ring_write [OF t(4) room, of t] t(6,8) by auto
  define l where "l = lock_release ((mlock mb)\<lparr>lk_status := LOCKED\<rparr>)"
  define mb' where "mb' = mb\<lparr>mbuffer := b', mhead := int ((t + length (concat ms) + length m) mod 1024),
      messages := messages mb + 1, arrived_data := tl (arrived_data mb), mlock := l\<rparr>"
  have size: "MSG_SIZE m = Inr (int (length m))" using msg_size [OF m] msg_ok_length [OF m] by simp
  have "c_mod (mhead mb + int (length m)) MBUFFER_SIZE = int ((t + length (concat ms) + length m) mod 1024)"
    by (simp add: t(6) mod_simps)
  then have "mbox_send m mb = Inr mb'"
    using t(3) room size space_run [OF inv] b'(1)
    by (simp add: mbox_send_def Let_def mb'_def l_def mbox_signal_def)
  moreover have "mbox_inv mb' (ms @ [m])"
    using t(1,2,7,9) b'(2,3) m room by (simp add: mbox_inv_def mb'_def l_def add.assoc)
  ultimately show thesis using that by (simp add: mb'_def)
qed

lemma send_full:
  assumes inv: "mbox_inv mb ms" and size: "MSG_SIZE m = Inr n" and room: "1024 < int (length (concat ms)) + n"
  shows "mbox_send m mb = Inl Blocked"
  using inv size space_run [OF inv] room by (simp add: mbox_send_def mbox_inv_def)

lemma recv_sim:
  assumes inv: "mbox_inv mb (m # ms)" and dst: "length m \<le> length dst"
  obtains mb' where "mbox_recv dst mb = Inr (m @ drop (length m) dst, mb')" "mbox_inv mb' ms"
    "owners mb' = owners mb" "freed_space mb' = []" "arrived_data mb' = arrived_data mb"
proof -
  obtain t where t: "mtail mb = int t" "t < 1024" "lock_free (mlock mb)" "length (mbuffer mb) = 1024"
    "length (concat (m # ms)) \<le> 1024" "mhead mb = int ((t + length (concat (m # ms))) mod 1024)"
    "messages mb = int (length (m # ms))"
    "ring_bytes (mbuffer mb) t (length (concat (m # ms))) = concat (m # ms)" "\<forall>m \<in> set (m # ms). msg_ok m"
    by (rule mbox_invD [OF inv])
  have m: "msg_ok m" "4 \<le> length m" using t(9) msg_ok_length(1) by auto
  have split: "ring_bytes (mbuffer mb) t (length m) = m"
      "ring_bytes (mbuffer mb) ((t + length m) mod 1024) (length (concat ms)) = concat ms"
    using t(8) by (auto simp: ring_bytes_append)
  then have "ring_bytes (mbuffer mb) t 4 = take 4 m"
    using ring_bytes_take [of 4 "length m" "mbuffer mb" t] m(2) by simp
  then have out: "ring_copy_out (mbuffer mb) (mtail mb) dst 0 4 = Inr (take 4 m @ drop 4 dst)"
      "ring_copy_out (mbuffer mb) (mtail mb) (take 4 m @ drop 4 dst) 0 (length m) = Inr (m @ drop (length m) dst)"
    using ring_copy_out_bytes [OF t(4), of 4 dst t] ring_copy_out_bytes [OF t(4), of "length m" "take 4 m @ drop 4 dst" t]
      m(2) dst split(1) t(1) by auto
  have size: "MSG_SIZE (take 4 m @ drop 4 dst) = Inr (int (length m))"
    using msg_size [OF m(1), of "take 4 m @ drop 4 dst"] m(2) by simp
  define l where "l = lock_release ((mlock mb)\<lparr>lk_status := LOCKED\<rparr>)"
  define mb' where "mb' = mb\<lparr>mtail := int ((t + length m) mod 1024), messages := messages mb - 1,
      freed_space := [], mlock := l\<rparr>"
  have "mbox_recv dst mb = Inr (m @ drop (length m) dst, mb')"
    using t(1,3,7) out size by (simp add: mbox_recv_def Let_def mb'_def l_def mbox_broadcast_def)
  moreover have "mbox_inv mb' ms"
    using t(4,5,6,7,9) split(2) by (simp add: mbox_inv_def mb'_def l_def mod_simps add.assoc)
  ultimately show thesis using that by (simp add: mb'_def)
qed

section \<open>The mailbox as a channel\<close>

text \<open>A receiver with a buffer for the longest message.\<close>

definition recv_message :: "mbox \<Rightarrow> (u8 list \<times> mbox) result" where
  "recv_message mb =
     rbind (mbox_recv (replicate 1024 0) mb) (\<lambda>(d, mb). rbind (MSG_SIZE d) (\<lambda>n. Inr (take (nat n) d, mb)))"

lemma recv_message_sim:
  assumes inv: "mbox_inv mb (m # ms)"
  shows "\<exists>mb'. recv_message mb = Inr (m, mb') \<and> mbox_inv mb' ms"
proof -
  have m: "msg_ok m" using inv by (simp add: mbox_inv_def)
  obtain mb' where mb': "mbox_recv (replicate 1024 0) mb = Inr (m @ drop (length m) (replicate 1024 0), mb')"
      "mbox_inv mb' ms"
    by (rule recv_sim [OF inv, of "replicate 1024 0"]) (use msg_ok_length(2) [OF m] in auto)
  moreover have "MSG_SIZE (m @ drop (length m) (replicate 1024 0)) = Inr (int (length m))"
    using msg_size [OF m, of "m @ drop (length m) (replicate 1024 0)"] msg_ok_length [OF m] by simp
  ultimately show ?thesis by (simp add: recv_message_def)
qed

interpretation mc: channel mbox_inv "\<lambda>ms m. msg_ok m \<and> length (concat ms) + length m \<le> 1024" mbox_send recv_message
proof unfold_locales
  show "\<exists>mb'. mbox_send m mb = Inr mb' \<and> mbox_inv mb' (ms @ [m])"
    if "mbox_inv mb ms" "msg_ok m \<and> length (concat ms) + length m \<le> 1024" for mb ms m
    using send_sim [OF that(1), of m] that(2) by metis
qed (rule recv_message_sim)

section \<open>Properties\<close>

definition mbox_init :: mbox where
  "mbox_init = \<lparr>owners = 0, messages = 0, mhead = 0, mtail = 0, mlock = lock_init, freed_space = [],
     arrived_data = [], mbuffer = replicate 1024 0\<rparr>"

lemma mbox_init_inv: "mbox_inv mbox_init []"
  by (simp add: mbox_inv_def mbox_init_def ring_bytes_def)

lemma demo_msg: "msg_ok [2, 0, 0, 0, 7, 8]" "msg_ok [1, 0, 0, 0, 9]"
  by (simp_all add: msg_ok_def le32_def)

text \<open>C17: messages that fit into an empty mailbox together come out whole and in the order they
  were sent, also where the ring buffer wraps around, and leave the mailbox empty.\<close>

theorem mbox_fifo:
  assumes "mbox_inv mb []" "\<forall>m \<in> set ms. msg_ok m" "length (concat ms) \<le> 1024"
  shows "\<exists>mb' mb''. put_all mbox_send ms mb = Inr mb' \<and>
    get_all recv_message (length ms) mb' = Inr (ms, mb'') \<and> mbox_inv mb'' []"
proof (rule mc.put_get_all [OF assms(1)])
  fix i assume i: "i < length ms"
  then have "length (concat (take i ms)) + length (ms ! i) = length (concat (take (Suc i) ms))"
    by (simp add: take_Suc_conv_app_nth)
  also have "\<dots> \<le> length (concat ms)"
    using append_take_drop_id [of "Suc i" ms] by (metis concat_append length_append le_add1)
  finally show "msg_ok (ms ! i) \<and> length (concat (take i ms)) + length (ms ! i) \<le> 1024"
    using assms(2,3) i by simp
qed

theorem mbox_fifo_witness:
  "\<exists>mb' mb''. put_all mbox_send [[2, 0, 0, 0, 7, 8], [1, 0, 0, 0, 9]] mbox_init = Inr mb' \<and>
     get_all recv_message 2 mb' = Inr ([[2, 0, 0, 0, 7, 8], [1, 0, 0, 0, 9]], mb'')"
  using mbox_fifo [OF mbox_init_inv, of "[[2, 0, 0, 0, 7, 8], [1, 0, 0, 0, 9]]"] demo_msg
  by (auto simp: numeral_2_eq_2)

text \<open>\<open>send\<close> appends the message when the buffer has room for it, and waits exactly when it
  has not.\<close>

theorem mbox_send_behaviour:
  assumes "mbox_inv mb ms" "msg_ok m"
  shows "if length (concat ms) + length m \<le> 1024
    then \<exists>mb'. mbox_send m mb = Inr mb' \<and> mbox_inv mb' (ms @ [m]) \<and> arrived_data mb' = tl (arrived_data mb)
    else mbox_send m mb = Inl Blocked"
proof (cases "length (concat ms) + length m \<le> 1024")
  case True
  with send_sim [OF assms True] show ?thesis by metis
next
  case False
  moreover have "MSG_SIZE m = Inr (int (length m))" using msg_size [OF assms(2)] msg_ok_length [OF assms(2)] by simp
  ultimately show ?thesis using send_full [OF assms(1)] by simp
qed

theorem mbox_send_behaviour_witness:
  "\<exists>mb'. mbox_send [2, 0, 0, 0, 7, 8] mbox_init = Inr mb' \<and> mbox_inv mb' [[2, 0, 0, 0, 7, 8]]"
  using mbox_send_behaviour [OF mbox_init_inv demo_msg(1)] by auto

text \<open>\<open>recv\<close> returns the oldest message, takes it out and wakes all senders that wait for
  space; on an empty mailbox it waits.\<close>

theorem mbox_recv_behaviour:
  assumes "mbox_inv mb ms"
  shows "case ms of [] \<Rightarrow> mbox_recv dst mb = Inl Blocked
    | m # ms' \<Rightarrow> length m \<le> length dst \<longrightarrow>
       (\<exists>mb'. mbox_recv dst mb = Inr (m @ drop (length m) dst, mb') \<and> mbox_inv mb' ms' \<and> freed_space mb' = [])"
proof (cases ms)
  case Nil
  with assms show ?thesis by (simp add: mbox_recv_def mbox_inv_def)
next
  case (Cons m ms')
  with recv_sim [OF assms [unfolded Cons], of dst] show ?thesis by (simp; metis)
qed

theorem mbox_recv_behaviour_witness: "mbox_recv [] mbox_init = Inl Blocked"
  using mbox_recv_behaviour [OF mbox_init_inv, of "[]"] by simp

text \<open>C18: a message longer than the buffer is never sent. Whatever the mailbox holds, \<open>send\<close>
  waits for space that can never be there.\<close>

theorem oversized_message_blocks:
  assumes "mbox_inv mb ms" "MSG_SIZE m = Inr n" "1024 < n"
  shows "mbox_send m mb = Inl Blocked"
  using send_full [OF assms(1,2)] assms(3) by simp

theorem oversized_message_blocks_witness:
  "mbox_send [0, 4, 0, 0] mbox_init = Inl Blocked"
  using oversized_message_blocks [OF mbox_init_inv, of "[0, 4, 0, 0]" 1028]
  by (simp add: MSG_SIZE_def content_size_def le32_def)

text \<open>\<open>mbox_open\<close> rejects a key outside the table with -1 and changes nothing; any other key
  gets one more owner and keeps its messages.\<close>

theorem mbox_open_behaviour:
  assumes "length mbs = nat MAX_MBOX" "\<forall>i < length mbs. mbox_inv (mbs ! i) (mss i)"
  shows "if 0 \<le> key \<and> key < MAX_MBOX
    then \<exists>mbs'. mbox_open key mbs = Inr (key, mbs') \<and> length mbs' = length mbs \<and>
      (\<forall>i < length mbs'. mbox_inv (mbs' ! i) (mss i) \<and>
         owners (mbs' ! i) = owners (mbs ! i) + (if int i = key then 1 else 0))
    else mbox_open key mbs = Inr (- 1, mbs)"
proof (cases "0 \<le> key \<and> key < MAX_MBOX")
  case True
  let ?mb = "mbs ! nat key"
  have k: "nat key < length mbs" using True assms(1) by simp
  then have inv: "mbox_inv ?mb (mss (nat key))" using assms(2) by blast
  then have l: "lock_free (mlock ?mb)" by (simp add: mbox_inv_def)
  have reset: "mss (nat key) = []" if "messages ?mb = 0" using inv that by (simp add: mbox_inv_def)
  define mb where "mb = (if owners ?mb = 0 \<and> messages ?mb = 0 then ?mb\<lparr>mhead := 0, mtail := 0, messages := 0\<rparr> else ?mb)
      \<lparr>owners := owners ?mb + 1, mlock := lock_release ((mlock ?mb)\<lparr>lk_status := LOCKED\<rparr>)\<rparr>"
  have "mbox_inv mb (mss (nat key))" "owners mb = owners ?mb + 1"
    using inv reset by (auto simp: mb_def mbox_inv_def ring_bytes_def)
  moreover have "mbox_open key mbs = Inr (key, mbs[nat key := mb])"
    using True k l by (auto simp: mbox_open_def Let_def mb_def)
  moreover have "int i = key \<longleftrightarrow> i = nat key" for i using True by auto
  ultimately show ?thesis using True assms(2) by (auto simp: nth_list_update)
next
  case False
  then show ?thesis by (auto simp: mbox_open_def)
qed

theorem mbox_open_behaviour_witness:
  "mbox_open 12 (replicate 12 mbox_init) = Inr (- 1, replicate 12 mbox_init)"
  using mbox_open_behaviour [of "replicate 12 mbox_init" "\<lambda>_. []" 12] mbox_init_inv
  by (simp add: MAX_MBOX_def)

end
