(* ===== verification/Serial.thy ===== *)
theory Serial
  imports Minstd
begin

text \<open>
  Port input and output, and the serial line of \<open>kernel/drivers/serial.cpp\<close>. The devices are
  outside the program: what they answer is a list of values that the port reads consume in order, and
  every access is recorded. A driver that waits for an answer that never comes is \<open>Blocked\<close>.
\<close>

section \<open>Ports\<close>

datatype event = Outb u16 u8 | Outw u16 u16 | Inb u16 u8 | Inw u16 u16

record io =
  answers :: "u16 list"
  trace :: "event list"

definition outb :: "u16 \<Rightarrow> u8 \<Rightarrow> io \<Rightarrow> io" where
  "outb port val d = d\<lparr>trace := trace d @ [Outb port val]\<rparr>"

definition outw :: "u16 \<Rightarrow> u16 \<Rightarrow> io \<Rightarrow> io" where
  "outw port val d = d\<lparr>trace := trace d @ [Outw port val]\<rparr>"

definition inb :: "u16 \<Rightarrow> io \<Rightarrow> (u8 \<times> io) result" where
  "inb port d =
     (case answers d of
        [] \<Rightarrow> Inl Blocked
      | v # vs \<Rightarrow> Inr (ucast v, d\<lparr>answers := vs, trace := trace d @ [Inb port (ucast v)]\<rparr>))"

definition inw :: "u16 \<Rightarrow> io \<Rightarrow> (u16 \<times> io) result" where
  "inw port d =
     (case answers d of
        [] \<Rightarrow> Inl Blocked
      | v # vs \<Rightarrow> Inr (v, d\<lparr>answers := vs, trace := trace d @ [Inw port v]\<rparr>))"

lemma inb_answers: "inb port d = Inr (v, d') \<Longrightarrow> length (answers d') < length (answers d)"
  by (auto simp: inb_def split: list.splits)

lemma rbind_cong [fundef_cong]: "r = r' \<Longrightarrow> (\<And>x. r' = Inr x \<Longrightarrow> f x = g x) \<Longrightarrow> rbind r f = rbind r' g"
  by (cases r') simp_all

section \<open>The serial line\<close>

definition COM1 :: u16 where "COM1 = 0x3F8"

definition init_serial :: "io \<Rightarrow> io" where
  "init_serial d =
     (let d = outb (COM1 + 1) 0x00 d;
          d = outb (COM1 + 3) 0x80 d;
          d = outb (COM1 + 0) 0x03 d;
          d = outb (COM1 + 1) 0x00 d;
          d = outb (COM1 + 3) 0x03 d;
          d = outb (COM1 + 2) 0xC7 d
      in outb (COM1 + 4) 0x0B d)"

text \<open>The loop that waits for the transmitter.\<close>

function serial_wait :: "io \<Rightarrow> io result" where
  "serial_wait d = rbind (inb (COM1 + 5) d) (\<lambda>(s, d). if s AND 0x20 = 0 then serial_wait d else Inr d)"
  by pat_completeness auto
termination by (relation "measure (\<lambda>d. length (answers d))") (auto dest: inb_answers)

declare serial_wait.simps [simp del]

definition serial_write :: "u8 \<Rightarrow> io \<Rightarrow> io result" where
  "serial_write c d = rbind (serial_wait d) (\<lambda>d. Inr (outb COM1 c d))"

definition serial_print_char :: "u8 \<Rightarrow> io \<Rightarrow> io result" where
  "serial_print_char c d = serial_write c d"

definition serial_put :: "u8 \<Rightarrow> io \<Rightarrow> io result" where
  "serial_put c d = rbind (if c = 10 then serial_write 13 d else Inr d) (serial_write c)"

text \<open>\<open>serial_print\<close> of a NUL-terminated string, of a buffer with its length, and of an integer.\<close>

fun serial_print :: "u8 list \<Rightarrow> io \<Rightarrow> io result" where
  "serial_print [] d = Inl OutOfBounds"
| "serial_print (c # s) d = (if c = 0 then Inr d else rbind (serial_put c d) (serial_print s))"

fun serial_print_buf :: "u8 list \<Rightarrow> nat \<Rightarrow> nat \<Rightarrow> io \<Rightarrow> io result" where
  "serial_print_buf buf i 0 d = Inr d"
| "serial_print_buf buf i (Suc k) d =
     (if i < length buf then rbind (serial_put (buf ! i) d) (serial_print_buf buf (Suc i) k) else Inl OutOfBounds)"

text \<open>The digits of a positive number, least significant first, as the loop leaves them in \<open>buffer\<close>, of
  12 bytes.\<close>

fun serial_digits :: "nat \<Rightarrow> u8 list \<Rightarrow> u8 list result" where
  "serial_digits value buffer =
     (if value = 0 then Inr buffer
      else if length buffer \<ge> 12 then Inl OutOfBounds
      else serial_digits (value div 10) (buffer @ [48 + of_nat (value mod 10)]))"

declare serial_digits.simps [simp del]

fun serial_writes :: "u8 list \<Rightarrow> io \<Rightarrow> io result" where
  "serial_writes [] d = Inr d"
| "serial_writes (c # s) d = rbind (serial_write c d) (serial_writes s)"

text \<open>Negating the smallest integer gives it back; the digit loop then does nothing.\<close>

definition serial_print_int :: "32 word \<Rightarrow> io \<Rightarrow> io result" where
  "serial_print_int value d =
     (if value = 0 then serial_write 48 d
      else
        rbind (if sint value < 0 then serial_write 45 d else Inr d) (\<lambda>d.
          let value = (if sint value < 0 then - value else value)
          in rbind (serial_digits (nat (sint value)) []) (\<lambda>buffer. serial_writes (rev buffer) d)))"

section \<open>What is sent\<close>

text \<open>The bytes that reached the transmitter.\<close>

fun sent_byte :: "event \<Rightarrow> u8 list" where
  "sent_byte (Outb p v) = (if p = COM1 then [v] else [])"
| "sent_byte _ = []"

definition sent :: "io \<Rightarrow> u8 list" where
  "sent d = concat (map sent_byte (trace d))"

text \<open>The line is ready for \<open>n\<close> more bytes: so many of the answers to come are ready bits.\<close>

definition ready_for :: "nat \<Rightarrow> io \<Rightarrow> bool" where
  "ready_for n d \<longleftrightarrow> n \<le> length (filter (\<lambda>v. ucast v AND (0x20 :: u8) \<noteq> 0) (answers d))"

lemma serial_wait_run:
  "serial_wait d = Inr d' \<Longrightarrow> sent d' = sent d \<and>
     length (filter (\<lambda>v. ucast v AND (0x20 :: u8) \<noteq> 0) (answers d)) = Suc (length (filter (\<lambda>v. ucast v AND (0x20 :: u8) \<noteq> 0) (answers d')))"
proof (induction d rule: serial_wait.induct)
  case (1 d)
  from "1.prems" obtain s d1 where s: "inb (COM1 + 5) d = Inr (s, d1)"
    by (cases "inb (COM1 + 5) d") (auto simp: serial_wait.simps [of d])
  have e: "sent d1 = sent d" "answers d = v # answers d1 \<Longrightarrow> s = ucast v" for v
    using s by (auto simp: inb_def sent_def split: list.splits)
  obtain v where v: "answers d = v # answers d1" using s by (auto simp: inb_def split: list.splits)
  show ?case
  proof (cases "s AND 0x20 = 0")
    case True
    with "1.prems" s have "serial_wait d1 = Inr d'" by (subst (asm) serial_wait.simps) simp
    from "1.IH" [OF s refl True this] True e v show ?thesis by simp
  next
    case False
    with "1.prems" s have "d' = d1" by (subst (asm) serial_wait.simps) simp
    with False e v show ?thesis by simp
  qed
qed

lemma serial_wait_ready: "ready_for 1 d \<Longrightarrow> \<exists>d'. serial_wait d = Inr d'"
proof (induction d rule: serial_wait.induct)
  case (1 d)
  then obtain v vs where v: "answers d = v # vs" by (cases "answers d") (auto simp: ready_for_def)
  let ?d = "d\<lparr>answers := vs, trace := trace d @ [Inb (COM1 + 5) (ucast v)]\<rparr>"
  have s: "inb (COM1 + 5) d = Inr (ucast v, ?d)" by (simp add: inb_def v)
  show ?case
  proof (cases "ucast v AND (0x20 :: u8) = 0")
    case True
    with "1.prems" v have "ready_for 1 ?d" by (simp add: ready_for_def)
    from "1.IH" [OF s refl True this] True s show ?thesis by (subst serial_wait.simps) simp
  next
    case False
    with s show ?thesis by (subst serial_wait.simps) simp
  qed
qed

lemma serial_write_run:
  assumes "ready_for (Suc n) d"
  shows "\<exists>d'. serial_write c d = Inr d' \<and> sent d' = sent d @ [c] \<and> ready_for n d'"
proof -
  have "ready_for 1 d" using assms by (simp add: ready_for_def)
  then obtain d1 where d1: "serial_wait d = Inr d1" using serial_wait_ready by blast
  from serial_wait_run [OF this] assms have "ready_for n d1" "sent d1 = sent d" by (simp_all add: ready_for_def)
  with d1 show ?thesis by (auto simp: serial_write_def outb_def sent_def ready_for_def)
qed

lemma serial_writes_run:
  "ready_for (length s + n) d \<Longrightarrow> \<exists>d'. serial_writes s d = Inr d' \<and> sent d' = sent d @ s \<and> ready_for n d'"
proof (induction s arbitrary: d)
  case (Cons c s)
  from serial_write_run [of "length s + n" d c] Cons.prems obtain d1 where
    d1: "serial_write c d = Inr d1" "sent d1 = sent d @ [c]" "ready_for (length s + n) d1" by auto
  from Cons.IH [OF d1(3)] d1(1,2) show ?case by auto
qed auto

text \<open>A line feed is preceded by a carriage return.\<close>

definition crlf :: "u8 list \<Rightarrow> u8 list" where
  "crlf s = concat (map (\<lambda>c. if c = 10 then [13, 10] else [c]) s)"

lemma serial_put_run:
  assumes "ready_for (length (crlf [c]) + n) d"
  shows "\<exists>d'. serial_put c d = Inr d' \<and> sent d' = sent d @ crlf [c] \<and> ready_for n d'"
proof (cases "c = 10")
  case True
  from serial_write_run [of "Suc n" d 13] assms True obtain d1 where
    d1: "serial_write 13 d = Inr d1" "sent d1 = sent d @ [13]" "ready_for (Suc n) d1" by (auto simp: crlf_def)
  from serial_write_run [OF d1(3), of 10] d1(1,2) True show ?thesis by (auto simp: serial_put_def crlf_def)
next
  case False
  with serial_write_run [of n d c] assms show ?thesis by (auto simp: serial_put_def crlf_def)
qed

lemma serial_print_run:
  "0 \<notin> set s \<Longrightarrow> ready_for (length (crlf s) + n) d \<Longrightarrow>
     \<exists>d'. serial_print (s @ 0 # t) d = Inr d' \<and> sent d' = sent d @ crlf s \<and> ready_for n d'"
proof (induction s arbitrary: d)
  case (Cons c s)
  have l: "crlf (c # s) = crlf [c] @ crlf s" by (simp add: crlf_def)
  from serial_put_run [of c "length (crlf s) + n" d] Cons.prems l obtain d1 where
    d1: "serial_put c d = Inr d1" "sent d1 = sent d @ crlf [c]" "ready_for (length (crlf s) + n) d1"
    by (auto simp: add.assoc)
  from Cons.IH [OF _ d1(3)] Cons.prems d1(1,2) l show ?case by auto
qed (auto simp: crlf_def)

section \<open>Digits\<close>

text \<open>The digits of a number in a base, least significant first, and the number they stand for.\<close>

fun rdigits :: "nat \<Rightarrow> nat \<Rightarrow> nat list" where
  "rdigits b n = (if n = 0 \<or> b < 2 then [] else n mod b # rdigits b (n div b))"

declare rdigits.simps [simp del]

definition rvalue :: "nat \<Rightarrow> nat list \<Rightarrow> nat" where
  "rvalue b ds = foldr (\<lambda>d a. d + b * a) ds 0"

lemma rvalue_rdigits: "2 \<le> b \<Longrightarrow> rvalue b (rdigits b n) = n"
  by (induction b n rule: rdigits.induct) (subst rdigits.simps, auto simp: rvalue_def)

lemma rdigits_less: "d \<in> set (rdigits b n) \<Longrightarrow> d < b"
proof (induction b n rule: rdigits.induct)
  case (1 b n)
  show ?case
  proof (cases "n = 0 \<or> b < 2")
    case False
    then have "rdigits b n = n mod b # rdigits b (n div b)" by (simp add: rdigits.simps)
    with 1 False show ?thesis by auto
  qed (use 1 in \<open>simp add: rdigits.simps\<close>)
qed

lemma length_rdigits: "n < b ^ k \<Longrightarrow> length (rdigits b n) \<le> k"
proof (induction k arbitrary: n)
  case (Suc k)
  then have "n div b < b ^ k" by (cases "b = 0") (simp_all add: less_mult_imp_div_less mult.commute)
  with Suc.IH show ?case by (subst rdigits.simps) simp
qed (simp add: rdigits.simps)

lemma rdigits_last: "0 < n \<Longrightarrow> 2 \<le> b \<Longrightarrow> rdigits b n \<noteq> [] \<and> last (rdigits b n) \<noteq> 0"
proof (induction b n rule: rdigits.induct)
  case (1 b n)
  show ?case
  proof (cases "n < b")
    case True
    with "1.prems" show ?thesis by (simp add: rdigits.simps)
  next
    case False
    with "1.prems" have "0 < n div b" by (simp add: div_greater_zero_iff)
    with 1 show ?thesis by (subst (1 2) rdigits.simps) auto
  qed
qed

lemma serial_digits_run:
  "length (rdigits 10 n) + length buf \<le> 12 \<Longrightarrow> serial_digits n buf = Inr (buf @ map (\<lambda>d. 48 + of_nat d) (rdigits 10 n))"
proof (induction n buf rule: serial_digits.induct)
  case (1 n buf)
  show ?case
  proof (cases "n = 0")
    case False
    then have "rdigits 10 n = n mod 10 # rdigits 10 (n div 10)" by (subst rdigits.simps) simp
    with 1 False show ?thesis by (subst serial_digits.simps) simp
  qed (simp add: serial_digits.simps rdigits.simps)
qed

text \<open>The integer that a sequence of characters denotes: an optional minus sign and decimal digits.\<close>

definition read_nat :: "u8 list \<Rightarrow> nat" where
  "read_nat cs = foldl (\<lambda>a c. 10 * a + (unat c - 48)) 0 cs"

fun read_int :: "u8 list \<Rightarrow> int" where
  "read_int (c # cs) = (if c = 45 then - int (read_nat cs) else int (read_nat (c # cs)))"
| "read_int [] = 0"

lemma unat_digit: "d < 10 \<Longrightarrow> unat (48 + of_nat d :: u8) = 48 + d"
proof -
  assume "d < 10"
  have "(48 + of_nat d :: u8) = of_nat (48 + d)" by simp
  then show ?thesis using \<open>d < 10\<close> by (simp only: unat_of_nat_u8) simp
qed

lemma read_nat_digits:
  assumes "\<And>d. d \<in> set ds \<Longrightarrow> d < 10"
  shows "read_nat (rev (map (\<lambda>d. 48 + of_nat d) ds)) = rvalue 10 ds"
  using assms by (induction ds) (simp_all add: read_nat_def rvalue_def unat_digit)

lemma read_nat_rdigits: "read_nat (rev (map (\<lambda>d. 48 + of_nat d) (rdigits 10 n))) = n"
  using read_nat_digits [of "rdigits 10 n"] rvalue_rdigits [of 10 n] by (auto dest: rdigits_less)

lemma read_int_digits: "0 < n \<Longrightarrow> read_int (rev (map (\<lambda>d. 48 + of_nat d) (rdigits 10 n))) = int n"
proof -
  assume n: "0 < n"
  let ?ds = "rev (map (\<lambda>d. 48 + of_nat d) (rdigits 10 n)) :: u8 list"
  obtain d ds where d: "rdigits 10 n = ds @ [d]" using rdigits_last [OF n, of 10] 
    by (cases "rdigits 10 n" rule: rev_cases) auto
  then have "d < 10" using rdigits_less [of d 10 n] by simp
  then have "(48 + of_nat d :: u8) \<noteq> 45" using unat_digit [of d] by (auto simp: word_unat_eq_iff)
  with d read_nat_rdigits [of n] show ?thesis by simp
qed

lemma sint_minus_u32:
  assumes "v \<noteq> (0x80000000 :: u32)"
  shows "sint (- v) = - sint v"
proof -
  have "sint (0x80000000 :: u32) = - 2147483648" by simp
  with assms have "sint v \<noteq> - 2147483648" by (metis signed_word_eqI)
  moreover have "- 2147483648 \<le> sint v" "sint v < 2147483648" using sint_ge [of v] sint_less [of v] by simp_all
  ultimately have "signed_take_bit 31 (- sint v) = - sint v" by (intro signed_take_bit_int_eq_self) simp_all
  moreover have "sint (- v) = signed_take_bit 31 (- sint v)" by (simp add: sint_word_ariths(4))
  ultimately show ?thesis by simp
qed

text \<open>The loop and the output of a number that is not 0.\<close>

lemma serial_number_run:
  assumes "0 < m" "m < 10 ^ 11" "ready_for (length (rdigits 10 m) + n) d"
  shows "\<exists>d'. rbind (serial_digits m []) (\<lambda>buffer. serial_writes (rev buffer) d) = Inr d' \<and>
    sent d' = sent d @ rev (map (\<lambda>d. 48 + of_nat d) (rdigits 10 m)) \<and> ready_for n d'"
proof -
  have "serial_digits m [] = Inr (map (\<lambda>d. 48 + of_nat d) (rdigits 10 m))"
    using serial_digits_run [of m "[]"] length_rdigits [OF assms(2)] by simp
  then show ?thesis
    using serial_writes_run [of "rev (map (\<lambda>d. 48 + of_nat d) (rdigits 10 m))" n d] assms(3) by simp
qed

lemma ready_for_less: "ready_for n d \<Longrightarrow> m \<le> n \<Longrightarrow> ready_for m d"
  by (simp add: ready_for_def)

lemma serial_print_int_run:
  assumes "v \<noteq> 0x80000000" "ready_for (12 + n) d"
  obtains out d' where "serial_print_int v d = Inr d'" "sent d' = sent d @ out" "read_int out = sint v"
    "length out \<le> 12" "ready_for n d'"
proof -
  have range: "nat (sint v) < 10 ^ 11" "nat (- sint v) < 10 ^ 11"
    using sint_ge [of v] sint_less [of v] by simp_all
  consider "v = 0" | "0 < sint v" | "sint v < 0" by (metis linorder_neqE_linordered_idom signed_word_eqI signed_0)
  then show thesis
  proof cases
    case 1
    from serial_write_run [of "11 + n" d 48] assms(2) obtain d' where
      "serial_write 48 d = Inr d'" "sent d' = sent d @ [48]" "ready_for (11 + n) d'" by auto
    with 1 ready_for_less [of "11 + n" d' n] show thesis
      by (intro that [of d' "[48]"]) (simp_all add: serial_print_int_def read_nat_def)
  next
    case 2
    let ?m = "nat (sint v)"
    have len: "length (rdigits 10 ?m) \<le> 11" by (rule length_rdigits [OF range(1)])
    have "ready_for (length (rdigits 10 ?m) + n) d" by (rule ready_for_less [OF assms(2)]) (use len in simp)
    then obtain d' where "rbind (serial_digits ?m []) (\<lambda>buffer. serial_writes (rev buffer) d) = Inr d'"
      "sent d' = sent d @ rev (map (\<lambda>d. 48 + of_nat d) (rdigits 10 ?m))" "ready_for n d'"
      using serial_number_run [of ?m n d] range(1) 2 by auto
    moreover have "v \<noteq> 0" using 2 by auto
    ultimately show thesis
      using 2 len read_int_digits [of ?m]
      by (intro that [of d' "rev (map (\<lambda>d. 48 + of_nat d) (rdigits 10 ?m))"]) (simp_all add: serial_print_int_def)
  next
    case 3
    let ?m = "nat (- sint v)"
    have len: "length (rdigits 10 ?m) \<le> 11" by (rule length_rdigits [OF range(2)])
    from serial_write_run [of "11 + n" d 45] assms(2) obtain d0 where
      d0: "serial_write 45 d = Inr d0" "sent d0 = sent d @ [45]" "ready_for (11 + n) d0" by auto
    have "ready_for (length (rdigits 10 ?m) + n) d0" by (rule ready_for_less [OF d0(3)]) (use len in simp)
    then obtain d' where d': "rbind (serial_digits ?m []) (\<lambda>buffer. serial_writes (rev buffer) d0) = Inr d'"
      "sent d' = sent d0 @ rev (map (\<lambda>d. 48 + of_nat d) (rdigits 10 ?m))" "ready_for n d'"
      using serial_number_run [of ?m n d0] range(2) 3 by auto
    have "v \<noteq> 0" using 3 by auto
    then have "serial_print_int v d = Inr d'"
      using 3 d0(1) d'(1) sint_minus_u32 [OF assms(1)] by (simp add: serial_print_int_def)
    moreover have "sent d' = sent d @ 45 # rev (map (\<lambda>d. 48 + of_nat d) (rdigits 10 ?m))" using d0(2) d'(2) by simp
    ultimately show thesis
      using d'(3) len 3 read_nat_rdigits [of ?m]
      by (intro that [of d' "45 # rev (map (\<lambda>d. 48 + of_nat d) (rdigits 10 ?m))"]) simp_all
  qed
qed

section \<open>Properties\<close>


definition demo_line :: io where
  "demo_line = \<lparr>answers = replicate 20 0x20, trace = []\<rparr>"


end
