(* ===== verification/Descriptors.thy ===== *)
theory Descriptors
  imports Serial
begin

text \<open>
  The tables that the processor reads: the segment descriptors and the task state of \<open>kernel/gdt.cpp\<close>, the interrupt
  gates of \<open>kernel/interrupts.cpp\<close>, and the interrupt controllers that \<open>kernel/pic.cpp\<close> sets up. The fields of a
  table entry are spread over its bytes; what an entry means to the processor is the reading back of these fields.
\<close>

section \<open>Segments\<close>

record GDTEntry =
  limit_low :: u16
  base_low :: u16
  base_middle :: u8
  access :: u8
  granularity :: u8
  base_high :: u8

record TSS =
  esp0 :: u32
  ss0 :: u16
  iopb :: u16

definition sizeof_TSS :: nat where "sizeof_TSS = 4 + 4 + 2 + 92 + 2"

definition STACKS_START :: u32 where "STACKS_START = 0x100000"

definition KSTACK_SIZE :: u32 where "KSTACK_SIZE = 0x2000"

definition set_gdt_entry :: "u32 \<Rightarrow> u32 \<Rightarrow> u8 \<Rightarrow> u8 \<Rightarrow> GDTEntry \<Rightarrow> GDTEntry" where
  "set_gdt_entry base limit acc flags g =
     (let g = g\<lparr>base_low := ucast (base AND 0xFFFF)\<rparr>;
          g = g\<lparr>base_middle := ucast (drop_bit 16 base AND 0xFF)\<rparr>;
          g = g\<lparr>base_high := ucast (drop_bit 24 base AND 0xFF)\<rparr>;
          g = g\<lparr>limit_low := ucast (limit AND 0xFFFF)\<rparr>;
          g = g\<lparr>granularity := ucast (drop_bit 16 limit AND 0x0F)\<rparr>;
          g = g\<lparr>granularity := granularity g OR (flags AND 0xF0)\<rparr>
      in g\<lparr>access := acc\<rparr>)"

text \<open>The processor's segment registers, task register and table register.\<close>

record segments =
  seg_cs :: u16
  seg_ds :: u16
  seg_es :: u16
  seg_ss :: u16
  seg_fs :: u16
  seg_gs :: u16
  seg_tr :: u16
  gdtr_base :: u32
  gdtr_limit :: u16

record gdt_state =
  gdt :: "GDTEntry list"
  tss :: TSS
  segs :: segments

text \<open>\<open>gdt_addr\<close> and \<open>tss_addr\<close> are the addresses of the two objects.\<close>

definition load_gdt :: "u32 \<Rightarrow> gdt_state \<Rightarrow> gdt_state" where
  "load_gdt gdt_addr s =
     s\<lparr>segs := (segs s)\<lparr>gdtr_limit := of_nat (6 * 8 - 1), gdtr_base := gdt_addr, seg_cs := 0x08,
        seg_ds := 0x10, seg_es := 0x10, seg_ss := 0x10, seg_tr := 0x28\<rparr>\<rparr>"

definition set_gdt :: "nat \<Rightarrow> u32 \<Rightarrow> u32 \<Rightarrow> u8 \<Rightarrow> u8 \<Rightarrow> gdt_state \<Rightarrow> gdt_state" where
  "set_gdt i base limit acc flags s = s\<lparr>gdt := (gdt s)[i := set_gdt_entry base limit acc flags (gdt s ! i)]\<rparr>"

definition init_gdt :: "u32 \<Rightarrow> u32 \<Rightarrow> gdt_state \<Rightarrow> gdt_state" where
  "init_gdt gdt_addr tss_addr s =
     (let s = set_gdt 0 0 0 0 0 s;
          s = set_gdt 1 0 0xFFFFF 0x9A 0xC0 s;
          s = set_gdt 2 0 0xFFFFF 0x92 0xC0 s;
          s = set_gdt 3 0 0xFFFFF 0xFA 0xC0 s;
          s = set_gdt 4 0 0xFFFFF 0xF2 0xC0 s;
          s = s\<lparr>tss := (tss s)\<lparr>esp0 := STACKS_START + KSTACK_SIZE\<rparr>\<rparr>;
          s = s\<lparr>tss := (tss s)\<lparr>ss0 := 0x10\<rparr>\<rparr>;
          s = s\<lparr>tss := (tss s)\<lparr>iopb := of_nat sizeof_TSS\<rparr>\<rparr>;
          s = set_gdt 5 tss_addr (of_nat (sizeof_TSS - 1)) 0x89 0x00 s
      in load_gdt gdt_addr s)"

text \<open>What a descriptor means: its base, its limit in bytes, its privilege level, its kind.\<close>

definition desc_base :: "GDTEntry \<Rightarrow> u32" where
  "desc_base g = ucast (base_low g) OR push_bit 16 (ucast (base_middle g)) OR push_bit 24 (ucast (base_high g))"

definition desc_limit :: "GDTEntry \<Rightarrow> u32" where
  "desc_limit g =
     (let l = ucast (limit_low g) OR push_bit 16 (ucast (granularity g AND 0x0F))
      in if bit (granularity g) 7 then push_bit 12 l OR 0xFFF else l)"

definition desc_dpl :: "GDTEntry \<Rightarrow> nat" where
  "desc_dpl g = unat (drop_bit 5 (access g) AND 3)"

definition desc_present :: "GDTEntry \<Rightarrow> bool" where
  "desc_present g \<longleftrightarrow> bit (access g) 7"

datatype desc_kind = SystemDesc u8 | Code | Data

definition desc_kind :: "GDTEntry \<Rightarrow> desc_kind" where
  "desc_kind g =
     (if bit (access g) 4 then if bit (access g) 3 then Code else Data else SystemDesc (access g AND 0x0F))"

lemma masks:
  "(0xFF :: u32) = mask 8" "(0xFFFF :: u32) = mask 16" "(0x0F :: u32) = mask 4" "(0xFFFFF :: u32) = mask 20" "(0xFFF :: u32) = mask 12"
  "(0x0F :: u8) = mask 4" "(0xF0 :: u8) = push_bit 4 (mask 4)"
  by (simp_all add: mask_eq_exp_minus_1)

lemma set_gdt_entry_base: "desc_base (set_gdt_entry base limit acc flags g) = base"
proof (rule bit_word_eqI)
  fix n
  assume "n < LENGTH(32)"
  then consider "n < 16" | "16 \<le> n" "n < 24" | "24 \<le> n" "n < 32" by fastforce
  then show "bit (desc_base (set_gdt_entry base limit acc flags g)) n = bit base n"
    by cases (auto simp: desc_base_def set_gdt_entry_def Let_def masks bit_simps)
qed

lemma set_gdt_entry_access: "access (set_gdt_entry base limit acc flags g) = acc"
  by (simp add: set_gdt_entry_def Let_def)

lemma set_gdt_entry_granular: "bit (granularity (set_gdt_entry base limit acc flags g)) 7 = bit flags 7"
  by (simp add: set_gdt_entry_def Let_def masks bit_simps)

lemma set_gdt_entry_limit:
  "ucast (limit_low (set_gdt_entry base limit acc flags g)) OR
     push_bit 16 (ucast (granularity (set_gdt_entry base limit acc flags g) AND 0x0F)) = limit AND 0xFFFFF"
  by (rule bit_word_eqI) (auto simp: set_gdt_entry_def Let_def masks bit_simps)

lemma desc_limit_set:
  "desc_limit (set_gdt_entry base limit acc flags g) =
     (if bit flags 7 then push_bit 12 (limit AND 0xFFFFF) OR 0xFFF else limit AND 0xFFFFF)"
  by (simp only: desc_limit_def set_gdt_entry_limit set_gdt_entry_granular Let_def)

section \<open>Interrupt gates\<close>

record IDTE =
  offset_low :: u16
  selector :: u16
  reserved :: u8
  flags :: u8
  offset_high :: u16

record idt_state =
  idt :: "IDTE list"
  idtp_limit :: u16
  idtp_base :: u32
  idtr :: "u16 \<times> u32"

text \<open>The entry points that gates lead to; the linker gives them their addresses.\<close>

datatype handler = default_interrupt_handler | divide_error_handler | debug_handler | nmi_handler | breakpoint_handler
  | overflow_handler | bounds_handler | invalid_opcode_handler | device_not_available_handler | double_fault_handler
  | coprocessor_segment_handler | invalid_tss_handler | segment_not_present_handler | stack_segment_handler
  | general_protection_handler | page_fault_handler | x87_fpu_handler | alignment_check_handler | machine_check_handler
  | simd_fpu_handler | timer_handler_entry | keyboard_handler_entry | syscall_entry_point

definition KERNEL_CS :: u16 where "KERNEL_CS = 0x08"

definition INTERRUPT_GATE :: u8 where "INTERRUPT_GATE = 0x8E"

definition idt_set_gate :: "u8 \<Rightarrow> u32 \<Rightarrow> u16 \<Rightarrow> u8 \<Rightarrow> IDTE list \<Rightarrow> IDTE list" where
  "idt_set_gate num handler sel fl t =
     t[unat num := (t ! unat num)\<lparr>offset_low := ucast (handler AND 0xFFFF), selector := sel, reserved := 0,
        flags := fl, offset_high := ucast (drop_bit 16 handler)\<rparr>]"

fun idt_fill :: "(handler \<Rightarrow> u32) \<Rightarrow> nat \<Rightarrow> nat \<Rightarrow> IDTE list \<Rightarrow> IDTE list" where
  "idt_fill code i 0 t = t"
| "idt_fill code i (Suc k) t =
     idt_fill code (Suc i) k (idt_set_gate (of_nat i) (code default_interrupt_handler) KERNEL_CS INTERRUPT_GATE t)"

definition gate_table :: "(u8 \<times> handler \<times> u8) list" where
  "gate_table =
    [(0x00, divide_error_handler, INTERRUPT_GATE),
     (0x01, debug_handler, INTERRUPT_GATE),
     (0x02, nmi_handler, INTERRUPT_GATE),
     (0x03, breakpoint_handler, INTERRUPT_GATE),
     (0x04, overflow_handler, INTERRUPT_GATE),
     (0x05, bounds_handler, INTERRUPT_GATE),
     (0x06, invalid_opcode_handler, INTERRUPT_GATE),
     (0x07, device_not_available_handler, INTERRUPT_GATE),
     (0x08, double_fault_handler, INTERRUPT_GATE),
     (0x09, coprocessor_segment_handler, INTERRUPT_GATE),
     (0x0A, invalid_tss_handler, INTERRUPT_GATE),
     (0x0B, segment_not_present_handler, INTERRUPT_GATE),
     (0x0C, stack_segment_handler, INTERRUPT_GATE),
     (0x0D, general_protection_handler, INTERRUPT_GATE),
     (0x0E, page_fault_handler, INTERRUPT_GATE),
     (0x10, x87_fpu_handler, INTERRUPT_GATE),
     (0x11, alignment_check_handler, INTERRUPT_GATE),
     (0x12, machine_check_handler, INTERRUPT_GATE),
     (0x13, simd_fpu_handler, INTERRUPT_GATE),
     (32, timer_handler_entry, INTERRUPT_GATE),
     (33, keyboard_handler_entry, INTERRUPT_GATE),
     (0x80, syscall_entry_point, 0xEE)]"

fun idt_gates :: "(handler \<Rightarrow> u32) \<Rightarrow> (u8 \<times> handler \<times> u8) list \<Rightarrow> IDTE list \<Rightarrow> IDTE list" where
  "idt_gates code [] t = t"
| "idt_gates code ((num, h, fl) # gs) t = idt_gates code gs (idt_set_gate num (code h) KERNEL_CS fl t)"

definition init_interrupts :: "(handler \<Rightarrow> u32) \<Rightarrow> u32 \<Rightarrow> idt_state \<Rightarrow> idt_state" where
  "init_interrupts code idt_addr s =
     (let s = s\<lparr>idt := idt_fill code 0 256 (idt s)\<rparr>;
          s = s\<lparr>idt := idt_gates code gate_table (idt s)\<rparr>;
          s = s\<lparr>idtp_limit := of_nat (256 * 8 - 1)\<rparr>;
          s = s\<lparr>idtp_base := idt_addr\<rparr>
      in s\<lparr>idtr := (idtp_limit s, idtp_base s)\<rparr>)"

text \<open>What a gate means: where it leads, in which segment, whether it is there, whether it turns interrupts off, and
  the lowest privilege that may use it by an \<open>int\<close> instruction.\<close>

definition gate_offset :: "IDTE \<Rightarrow> u32" where
  "gate_offset g = ucast (offset_low g) OR push_bit 16 (ucast (offset_high g))"

definition gate_present :: "IDTE \<Rightarrow> bool" where "gate_present g \<longleftrightarrow> bit (flags g) 7"

definition gate_dpl :: "IDTE \<Rightarrow> nat" where "gate_dpl g = unat (drop_bit 5 (flags g) AND 3)"

definition gate_is_interrupt :: "IDTE \<Rightarrow> bool" where "gate_is_interrupt g \<longleftrightarrow> flags g AND 0x1F = 0x0E"

definition handler_of :: "u8 \<Rightarrow> handler \<times> u8" where
  "handler_of n = (case map_of gate_table n of Some hf \<Rightarrow> hf | None \<Rightarrow> (default_interrupt_handler, INTERRUPT_GATE))"

definition gate :: "u32 \<Rightarrow> u8 \<Rightarrow> IDTE" where
  "gate handler fl = \<lparr>offset_low = ucast (handler AND 0xFFFF), selector = KERNEL_CS, reserved = 0, flags = fl,
     offset_high = ucast (drop_bit 16 handler)\<rparr>"

lemma idt_set_gate_eq:
  "length t = 256 \<Longrightarrow> idt_set_gate num h KERNEL_CS fl t = t[unat num := gate h fl]"
  by (cases "t ! unat num") (simp add: idt_set_gate_def gate_def)

lemma gate_offset_gate: "gate_offset (gate h fl) = h"
proof (rule bit_word_eqI)
  fix n
  assume "n < LENGTH(32)"
  then consider "n < 16" | "16 \<le> n" "n < 32" by fastforce
  then show "bit (gate_offset (gate h fl)) n = bit h n"
    by cases (auto simp: gate_offset_def gate_def masks bit_simps)
qed

lemma idt_fill_run:
  "length t = 256 \<Longrightarrow> i + k \<le> 256 \<Longrightarrow> length (idt_fill code i k t) = 256 \<and>
     (\<forall>n < 256. idt_fill code i k t ! n =
        (if i \<le> n \<and> n < i + k then gate (code default_interrupt_handler) INTERRUPT_GATE else t ! n))"
proof (induction k arbitrary: i t)
  case 0
  then show ?case by auto
next
  case (Suc k)
  have i: "unat (of_nat i :: u8) = i" using Suc.prems(2) by (simp add: unat_of_nat)
  show ?case using Suc.IH [of "t[i := gate (code default_interrupt_handler) INTERRUPT_GATE]" "Suc i"] Suc.prems
    by (auto simp: idt_set_gate_eq i nth_list_update)
qed

lemma idt_gates_run:
  "length t = 256 \<Longrightarrow> distinct (map fst gs) \<Longrightarrow> length (idt_gates code gs t) = 256 \<and>
     (\<forall>n. idt_gates code gs t ! unat n = (case map_of gs n of Some (h, fl) \<Rightarrow> gate (code h) fl | None \<Rightarrow> t ! unat n))"
proof (induction gs arbitrary: t)
  case (Cons g gs)
  obtain num h fl where g: "g = (num, h, fl)" by (cases g)
  have "map_of gs num = None" using Cons.prems(2) g by (simp add: map_of_eq_None_iff)
  moreover have "t[unat num := x] ! unat n = (if n = num then x else t ! unat n)" for n x
    using Cons.prems(1) unat_u8_less [of num] by (simp add: nth_list_update word_unat_eq_iff)
  ultimately show ?case using Cons.IH [of "t[unat num := gate (code h) fl]"] Cons.prems g
    by (auto simp: idt_set_gate_eq split: option.splits)
qed simp

lemma init_interrupts_gate:
  assumes "length (idt s) = 256"
  shows "idt (init_interrupts code idt_addr s) ! unat n = gate (code (fst (handler_of n))) (snd (handler_of n))"
proof -
  have d: "distinct (map fst gate_table)" by (simp add: gate_table_def)
  have "unat n < 256" using unat_u8_less [of n] by simp
  then show ?thesis
    using idt_fill_run [of "idt s" 0 256 code] assms idt_gates_run [OF _ d, of "idt_fill code 0 256 (idt s)" code]
    by (auto simp: init_interrupts_def Let_def handler_of_def split: option.splits)
qed

section \<open>Interrupt controllers\<close>

definition PIC1_COMMAND :: u16 where "PIC1_COMMAND = 0x20"
definition PIC1_DATA :: u16 where "PIC1_DATA = 0x21"
definition PIC2_COMMAND :: u16 where "PIC2_COMMAND = 0xA0"
definition PIC2_DATA :: u16 where "PIC2_DATA = 0xA1"
definition ICW1_INIT :: u8 where "ICW1_INIT = 0x10"
definition ICW1_ICW4 :: u8 where "ICW1_ICW4 = 0x01"
definition ICW4_8086 :: u8 where "ICW4_8086 = 0x01"

definition pic_remap :: "io \<Rightarrow> io result" where
  "pic_remap d =
     rbind (inb PIC1_DATA d) (\<lambda>(master_mask, d).
     rbind (inb PIC2_DATA d) (\<lambda>(slave_mask, d).
       let d = outb PIC1_COMMAND (ICW1_INIT OR ICW1_ICW4) d;
           d = outb PIC2_COMMAND (ICW1_INIT OR ICW1_ICW4) d;
           d = outb PIC1_DATA 0x20 d;
           d = outb PIC2_DATA 0x28 d;
           d = outb PIC1_DATA 0x04 d;
           d = outb PIC2_DATA 0x02 d;
           d = outb PIC1_DATA ICW4_8086 d;
           d = outb PIC2_DATA ICW4_8086 d;
           d = outb PIC1_DATA (master_mask AND NOT 0x02) d
       in Inr (outb PIC2_DATA slave_mask d)))"

text \<open>
  A controller as its data sheet describes it: a command byte with bit 4 begins the initialisation, after which three
  data bytes give the vector of its first line, the cascade and the mode; data bytes after that set the mask of
  the lines that it does not deliver.
\<close>

record pic =
  expects :: nat
  vector_base :: u8
  cascade :: u8
  mode :: u8
  irq_mask :: u8

definition pic_command :: "u8 \<Rightarrow> pic \<Rightarrow> pic" where
  "pic_command v p = (if bit v 4 then p\<lparr>expects := 3, irq_mask := 0\<rparr> else p)"

definition pic_data :: "u8 \<Rightarrow> pic \<Rightarrow> pic" where
  "pic_data v p =
     (if expects p = 3 then p\<lparr>vector_base := v AND 0xF8, expects := 2\<rparr>
      else if expects p = 2 then p\<lparr>cascade := v, expects := 1\<rparr>
      else if expects p = 1 then p\<lparr>mode := v, expects := 0\<rparr>
      else p\<lparr>irq_mask := v\<rparr>)"

fun pics :: "event list \<Rightarrow> pic \<times> pic \<Rightarrow> pic \<times> pic" where
  "pics [] mp = mp"
| "pics (Outb port v # es) (m, p) =
     pics es (if port = 0x20 then (pic_command v m, p) else if port = 0x21 then (pic_data v m, p)
       else if port = 0xA0 then (m, pic_command v p) else if port = 0xA1 then (m, pic_data v p) else (m, p))"
| "pics (e # es) mp = pics es mp"

text \<open>The vector at which a line interrupts the processor, and whether it does.\<close>

definition irq_vector :: "pic \<times> pic \<Rightarrow> nat \<Rightarrow> u8" where
  "irq_vector mp n = (if n < 8 then vector_base (fst mp) + of_nat n else vector_base (snd mp) + of_nat (n - 8))"

definition irq_delivered :: "pic \<times> pic \<Rightarrow> nat \<Rightarrow> bool" where
  "irq_delivered mp n \<longleftrightarrow> (if n < 8 then \<not> bit (irq_mask (fst mp)) n else \<not> bit (irq_mask (snd mp)) (n - 8))"

lemma pic_remap_run:
  assumes "answers d = m # s # as"
  shows "\<exists>d' es mp'. pic_remap d = Inr d' \<and> trace d' = trace d @ es \<and> answers d' = as \<and> pics es mp = mp' \<and>
    vector_base (fst mp') = 0x20 \<and> vector_base (snd mp') = 0x28 \<and> cascade (fst mp') = 4 \<and> cascade (snd mp') = 2 \<and>
    mode (fst mp') = 1 \<and> mode (snd mp') = 1 \<and> expects (fst mp') = 0 \<and> expects (snd mp') = 0 \<and>
    irq_mask (fst mp') = ucast m AND NOT 2 \<and> irq_mask (snd mp') = ucast s"
  using assms
  by (cases mp) (simp add: pic_remap_def inb_def outb_def Let_def PIC1_COMMAND_def PIC1_DATA_def PIC2_COMMAND_def
      PIC2_DATA_def ICW1_INIT_def ICW1_ICW4_def ICW4_8086_def pic_command_def pic_data_def bit_or_iff)

section \<open>Properties\<close>

text \<open>C32: the segments. After \<open>init_gdt\<close> the descriptors of the kernel and of user programs are flat, present and of the
  right kind, those of user programs alone have privilege level 3, and the task state descriptor leads to the task
  state, whose port bitmap lies past its limit, so that no port is open to ring 3. The segment registers
  select the kernel's segments and the interrupt stack is a kernel stack.\<close>

theorem segments_flat:
  assumes "length (gdt s) = 6" "g = init_gdt gdt_addr tss_addr s"
  shows "\<not> desc_present (gdt g ! 0) \<and>
    (\<forall>i \<in> {1, 2, 3, 4}. desc_present (gdt g ! i) \<and> desc_base (gdt g ! i) = 0 \<and> desc_limit (gdt g ! i) = 0xFFFFFFFF \<and>
       desc_dpl (gdt g ! i) = (if i \<le> 2 then 0 else 3) \<and> desc_kind (gdt g ! i) = (if odd i then Code else Data)) \<and>
    desc_present (gdt g ! 5) \<and> desc_base (gdt g ! 5) = tss_addr \<and> desc_kind (gdt g ! 5) = SystemDesc 9 \<and>
    desc_limit (gdt g ! 5) < ucast (iopb (tss g)) \<and>
    ss0 (tss g) = 8 * 2 \<and> seg_cs (segs g) = 8 * 1 \<and> seg_ss (segs g) = 8 * 2 \<and> seg_ds (segs g) = 8 * 2 \<and>
    seg_tr (segs g) = 8 * 5 \<and> unat (gdtr_limit (segs g)) + 1 = 8 * length (gdt g) \<and> gdtr_base (segs g) = gdt_addr"
  using assms(1) unfolding assms(2)
  by (auto simp: init_gdt_def load_gdt_def set_gdt_def Let_def set_gdt_entry_base set_gdt_entry_access desc_limit_set
      desc_present_def desc_dpl_def desc_kind_def sizeof_TSS_def nth_list_update)

definition demo_gdt :: gdt_state where
  "demo_gdt = \<lparr>gdt = replicate 6 \<lparr>limit_low = 0, base_low = 0, base_middle = 0, access = 0, granularity = 0, base_high = 0\<rparr>,
     tss = \<lparr>esp0 = 0, ss0 = 0, iopb = 0\<rparr>,
     segs = \<lparr>seg_cs = 8, seg_ds = 16, seg_es = 16, seg_ss = 16, seg_fs = 16, seg_gs = 16, seg_tr = 0, gdtr_base = 0x7C00, gdtr_limit = 23\<rparr>\<rparr>"

theorem segments_flat_witness:
  "desc_base (gdt (init_gdt 0x9000 0xA0B0C0D0 demo_gdt) ! 5) = 0xA0B0C0D0 \<and>
   desc_dpl (gdt (init_gdt 0x9000 0xA0B0C0D0 demo_gdt) ! 3) = 3"
  using segments_flat [of demo_gdt _ "0x9000" "0xA0B0C0D0", OF _ refl] by (simp add: demo_gdt_def)


definition demo_idt :: idt_state where
  "demo_idt = \<lparr>idt = replicate 256 \<lparr>offset_low = 0, selector = 0, reserved = 0, flags = 0, offset_high = 0\<rparr>,
     idtp_limit = 0, idtp_base = 0, idtr = (0, 0)\<rparr>"

definition demo_pics :: "pic \<times> pic" where
  "demo_pics = (\<lparr>expects = 0, vector_base = 8, cascade = 0, mode = 0, irq_mask = 0\<rparr>,
     \<lparr>expects = 0, vector_base = 0x70, cascade = 0, mode = 0, irq_mask = 0\<rparr>)"


end
