(* ===== verification/Keyboard.thy ===== *)
theory Keyboard
  imports Serial Channel
begin

text \<open>
  The keyboard driver of \<open>kernel/drivers/keyboard.cpp\<close>: the interrupt handler translates a scancode
  and puts the character into a ring buffer of 64 bytes, \<open>kbd_getchar\<close> takes it out.
\<close>

section \<open>State\<close>

definition KEYBOARD_DATA_PORT :: u16 where "KEYBOARD_DATA_PORT = 0x60"
definition KBD_BUFFER_SIZE :: int where "KBD_BUFFER_SIZE = 64"

definition scancode_map :: "u8 list" where
  "scancode_map =
     [0, 27, 49, 50, 51, 52, 53, 54, 55, 56,
      57, 48, 45, 61, 8,
      9,
      113, 119, 101, 114,
      116, 121, 117, 105, 111, 112, 91, 93, 10,
      0,
      97, 115, 100, 102, 103, 104, 106, 107, 108, 59,
      39, 96,
      0,
      92,
      122, 120, 99, 118, 98,
      110,
      109,
      44, 46, 47,
      0,
      42,
      0,
      32] @ replicate 70 0"

record kbd =
  kbd_buffer :: "u8 list"
  kbd_head :: int
  kbd_tail :: int
  kbd_io :: io

section \<open>Operations\<close>

text \<open>The character of a scancode, 0 for a key that has none or that is released.\<close>

definition scancode_char :: "u8 \<Rightarrow> u8" where
  "scancode_char scancode = (if scancode < 58 then scancode_map ! unat scancode else 0)"

text \<open>The end of the handler: a character is dropped when the buffer is full.\<close>

definition kbd_insert :: "u8 \<Rightarrow> kbd \<Rightarrow> kbd result" where
  "kbd_insert c s =
     (let next_head = (kbd_head s + 1) mod KBD_BUFFER_SIZE
      in if next_head \<noteq> kbd_tail s
         then if nat (kbd_head s) < length (kbd_buffer s)
              then Inr (s\<lparr>kbd_buffer := (kbd_buffer s)[nat (kbd_head s) := c], kbd_head := next_head\<rparr>)
              else Inl OutOfBounds
         else Inr s)"

definition keyboard_handler_c :: "kbd \<Rightarrow> kbd result" where
  "keyboard_handler_c s =
     rbind (inb KEYBOARD_DATA_PORT (kbd_io s)) (\<lambda>(scancode, d).
       let s = s\<lparr>kbd_io := outb 0x20 0x20 d\<rparr>
       in if scancode AND 0x80 \<noteq> 0 then Inr s
          else
            let c = scancode_char scancode
            in if c = 0 then Inr s else kbd_insert c s)"

definition kbd_getchar :: "kbd \<Rightarrow> (int \<times> kbd) result" where
  "kbd_getchar s =
     (if kbd_head s = kbd_tail s then Inr (- 1, s)
      else if nat (kbd_tail s) < length (kbd_buffer s)
      then Inr (sint (kbd_buffer s ! nat (kbd_tail s)), s\<lparr>kbd_tail := (kbd_tail s + 1) mod KBD_BUFFER_SIZE\<rparr>)
      else Inl OutOfBounds)"

section \<open>The buffer as a queue\<close>

text \<open>The buffer holds the characters \<open>cs\<close>, of which there are at most 63.\<close>

definition kbd_inv :: "kbd \<Rightarrow> u8 list \<Rightarrow> bool" where
  "kbd_inv s cs \<longleftrightarrow> length (kbd_buffer s) = 64 \<and> 0 \<le> kbd_tail s \<and> kbd_tail s < 64 \<and> length cs < 64 \<and>
     kbd_head s = (kbd_tail s + int (length cs)) mod 64 \<and>
     (\<forall>i < length cs. kbd_buffer s ! (nat (kbd_tail s + int i) mod 64) = cs ! i)"

lemma ring_cell:
  assumes "0 \<le> t" "t < 64" "i < 64" "j < (64 :: nat)"
  shows "nat (t + int i) mod 64 = nat (t + int j) mod 64 \<longleftrightarrow> i = j" "nat ((t + int i) mod 64) = nat (t + int i) mod 64"
proof -
  obtain k where k: "t = int k" "k < 64" using assms(1,2) by (metis nat_int nonneg_int_cases of_nat_less_iff of_nat_numeral)
  then have n: "nat (t + int l) = k + l" for l by simp
  have "(k + i) mod 64 = (k + j) mod 64 \<longleftrightarrow> i = j" using k(2) assms(3,4) by (auto simp: mod_if split: if_splits)
  then show "nat (t + int i) mod 64 = nat (t + int j) mod 64 \<longleftrightarrow> i = j" by (simp add: n)
  show "nat ((t + int i) mod 64) = nat (t + int i) mod 64" using assms(1) by (simp add: nat_mod_distrib)
qed

lemma kbd_insert_sim:
  assumes "kbd_inv s cs"
  shows "\<exists>s'. kbd_insert c s = Inr s' \<and> kbd_inv s' (if length cs < 63 then cs @ [c] else cs) \<and> kbd_io s' = kbd_io s"
proof -
  have inv: "length (kbd_buffer s) = 64" "0 \<le> kbd_tail s" "kbd_tail s < 64" "length cs < 64"
    "kbd_head s = (kbd_tail s + int (length cs)) mod 64"
    and cell: "\<And>i. i < length cs \<Longrightarrow> kbd_buffer s ! (nat (kbd_tail s + int i) mod 64) = cs ! i"
    using assms by (simp_all add: kbd_inv_def)
  have nxt: "(kbd_head s + 1) mod KBD_BUFFER_SIZE = (kbd_tail s + int (Suc (length cs))) mod 64"
    unfolding inv(5) KBD_BUFFER_SIZE_def by (simp add: mod_simps ac_simps)
  have full: "(kbd_tail s + int (Suc (length cs))) mod 64 = kbd_tail s \<longleftrightarrow> length cs = 63"
  proof -
    have "(kbd_tail s + int (Suc (length cs))) mod 64 =
        (if kbd_tail s + int (Suc (length cs)) < 64 then kbd_tail s + int (Suc (length cs)) else kbd_tail s + int (Suc (length cs)) - 64)"
      using inv by (simp add: mod_pos_geq mod_pos_pos_trivial)
    then show ?thesis using inv by auto
  qed
  have head: "nat (kbd_head s) = nat (kbd_tail s + int (length cs)) mod 64" "nat (kbd_head s) < 64"
    unfolding inv(5) using inv ring_cell(2) [of "kbd_tail s" "length cs" 0] by simp_all
  show ?thesis
  proof (cases "length cs < 63")
    case True
    let ?s = "s\<lparr>kbd_buffer := (kbd_buffer s)[nat (kbd_head s) := c], kbd_head := (kbd_tail s + int (Suc (length cs))) mod 64\<rparr>"
    have "kbd_buffer ?s ! (nat (kbd_tail s + int i) mod 64) = (cs @ [c]) ! i" if "i < Suc (length cs)" for i
    proof (cases "i = length cs")
      case True
      then show ?thesis using head inv(1) by simp
    next
      case False
      then have "nat (kbd_tail s + int i) mod 64 \<noteq> nat (kbd_head s)"
        unfolding head(1) using ring_cell(1) [OF inv(2,3), of i "length cs"] that inv(4) by simp
      then show ?thesis using False that cell [of i] by (simp add: nth_append)
    qed
    then have "kbd_inv ?s (cs @ [c])" using inv True by (simp add: kbd_inv_def)
    moreover have "kbd_insert c s = Inr ?s" using True nxt full inv(1) head(2) by (simp add: kbd_insert_def Let_def)
    ultimately show ?thesis using True by auto
  next
    case False
    then have "kbd_insert c s = Inr s" using nxt full inv(4) by (simp add: kbd_insert_def Let_def)
    with False assms show ?thesis by auto
  qed
qed

lemma kbd_getchar_sim:
  assumes "kbd_inv s cs"
  shows "case cs of [] \<Rightarrow> kbd_getchar s = Inr (- 1, s)
    | c # cs' \<Rightarrow> \<exists>s'. kbd_getchar s = Inr (sint c, s') \<and> kbd_inv s' cs' \<and> kbd_io s' = kbd_io s"
proof -
  have inv: "length (kbd_buffer s) = 64" "0 \<le> kbd_tail s" "kbd_tail s < 64" "length cs < 64"
    "kbd_head s = (kbd_tail s + int (length cs)) mod 64"
    and cell: "\<And>i. i < length cs \<Longrightarrow> kbd_buffer s ! (nat (kbd_tail s + int i) mod 64) = cs ! i"
    using assms by (simp_all add: kbd_inv_def)
  show ?thesis
  proof (cases cs)
    case Nil
    with inv show ?thesis by (simp add: kbd_getchar_def)
  next
    case (Cons c cs')
    have "kbd_head s \<noteq> kbd_tail s"
    proof -
      have "nat (kbd_tail s + int (length cs)) mod 64 \<noteq> nat (kbd_tail s + int 0) mod 64"
        using ring_cell(1) [OF inv(2,3,4), of 0] Cons by simp
      then have "nat ((kbd_tail s + int (length cs)) mod 64) \<noteq> nat (kbd_tail s)"
        using ring_cell(2) [OF inv(2,3,4), of 0] inv by simp
      then show ?thesis using inv(5) by auto
    qed
    moreover have "kbd_buffer s ! nat (kbd_tail s) = c" using cell [of 0] Cons inv by simp
    ultimately have run: "kbd_getchar s = Inr (sint c, s\<lparr>kbd_tail := (kbd_tail s + 1) mod 64\<rparr>)"
      using inv by (simp add: kbd_getchar_def KBD_BUFFER_SIZE_def)
    have "nat ((kbd_tail s + 1) mod 64 + int i) mod 64 = nat (kbd_tail s + int (Suc i)) mod 64" for i
    proof -
      have "nat ((kbd_tail s + 1) mod 64 + int i) mod 64 = nat (((kbd_tail s + 1) mod 64 + int i) mod 64)"
        using inv by (simp add: nat_mod_distrib)
      also have "((kbd_tail s + 1) mod 64 + int i) mod 64 = (kbd_tail s + int (Suc i)) mod 64" by (simp add: mod_simps ac_simps)
      finally show ?thesis using inv by (simp add: nat_mod_distrib)
    qed
    then have "kbd_inv (s\<lparr>kbd_tail := (kbd_tail s + 1) mod 64\<rparr>) cs'"
      using inv Cons cell [of "Suc _"] by (auto simp: kbd_inv_def mod_simps ac_simps)
    with run Cons show ?thesis by auto
  qed
qed

definition kbd_read :: "kbd \<Rightarrow> (u8 \<times> kbd) result" where
  "kbd_read s = rbind (kbd_getchar s) (\<lambda>(c, s). if c = - 1 then Inl Blocked else Inr (of_int c, s))"

lemma kbd_read_sim: "kbd_inv s (c # cs) \<Longrightarrow> c \<noteq> - 1 \<Longrightarrow> \<exists>s'. kbd_read s = Inr (c, s') \<and> kbd_inv s' cs"
proof -
  assume s: "kbd_inv s (c # cs)" and c: "c \<noteq> - 1"
  have "sint c \<noteq> sint (- 1 :: u8)" using c by (metis signed_word_eqI)
  then show ?thesis using kbd_getchar_sim [OF s] by (auto simp: kbd_read_def)
qed

interpretation kb: channel "\<lambda>s cs. kbd_inv s cs \<and> - 1 \<notin> set cs" "\<lambda>cs c. length cs < 63 \<and> c \<noteq> - 1" kbd_insert kbd_read
proof unfold_locales
  fix s and cs :: "u8 list" and c :: u8
  assume "kbd_inv s cs \<and> - 1 \<notin> set cs" "length cs < 63 \<and> c \<noteq> - 1"
  then show "\<exists>s'. kbd_insert c s = Inr s' \<and> kbd_inv s' (cs @ [c]) \<and> - 1 \<notin> set (cs @ [c])"
    using kbd_insert_sim [of s cs c] by auto
next
  fix s and cs :: "u8 list" and c :: u8
  assume "kbd_inv s (c # cs) \<and> - 1 \<notin> set (c # cs)"
  then show "\<exists>s'. kbd_read s = Inr (c, s') \<and> kbd_inv s' cs \<and> - 1 \<notin> set cs" using kbd_read_sim [of s c cs] by auto
qed

section \<open>Properties\<close>

text \<open>\<open>n\<close> keyboard interrupts, and the characters that the scancodes stand for.\<close>

fun kbd_interrupts :: "nat \<Rightarrow> kbd \<Rightarrow> kbd result" where
  "kbd_interrupts 0 s = Inr s"
| "kbd_interrupts (Suc n) s = rbind (keyboard_handler_c s) (kbd_interrupts n)"

definition typed :: "u16 list \<Rightarrow> u8 list" where
  "typed scs = concat (map (\<lambda>v. if ucast v AND (0x80 :: u8) \<noteq> 0 \<or> scancode_char (ucast v) = 0 then [] else [scancode_char (ucast v)]) scs)"

lemma typed_Cons:
  "typed (v # scs) = (if ucast v AND (0x80 :: u8) \<noteq> 0 \<or> scancode_char (ucast v) = 0 then [] else [scancode_char (ucast v)]) @ typed scs"
  by (simp add: typed_def)

lemma handler_sim:
  assumes "kbd_inv s cs" "answers (kbd_io s) = v # scs"
  shows "\<exists>s'. keyboard_handler_c s = Inr s' \<and> kbd_inv s' (take 63 (cs @ typed [v])) \<and> answers (kbd_io s') = scs"
proof -
  let ?d = "outb 0x20 0x20 ((kbd_io s)\<lparr>answers := scs, trace := trace (kbd_io s) @ [Inb KEYBOARD_DATA_PORT (ucast v)]\<rparr>)"
  let ?s = "s\<lparr>kbd_io := ?d\<rparr>"
  have inv: "kbd_inv ?s cs" using assms(1) by (simp add: kbd_inv_def)
  have len: "length cs < 64" using assms(1) by (simp add: kbd_inv_def)
  have run: "keyboard_handler_c s = (if ucast v AND (0x80 :: u8) \<noteq> 0 then Inr ?s
      else if scancode_char (ucast v) = 0 then Inr ?s else kbd_insert (scancode_char (ucast v)) ?s)"
    using assms(2) by (simp add: keyboard_handler_c_def inb_def Let_def)
  have io: "answers (kbd_io ?s) = scs" by (simp add: outb_def)
  show ?thesis
  proof (cases "ucast v AND (0x80 :: u8) \<noteq> 0 \<or> scancode_char (ucast v) = 0")
    case True
    with run inv io len show ?thesis by (auto simp: typed_Cons typed_def)
  next
    case False
    from kbd_insert_sim [OF inv, of "scancode_char (ucast v)"] obtain s' where
      "kbd_insert (scancode_char (ucast v)) ?s = Inr s'" "kbd_io s' = kbd_io ?s"
      "kbd_inv s' (if length cs < 63 then cs @ [scancode_char (ucast v)] else cs)" by auto
    moreover have "(if length cs < 63 then cs @ [scancode_char (ucast v)] else cs) = take 63 (cs @ typed [v])"
      using False len by (auto simp: typed_def)
    ultimately show ?thesis using run io False by auto
  qed
qed

text \<open>C38: what is typed is read. Interrupts for any scancodes, from a buffer that holds \<open>cs\<close>, leave the
  first 63 of \<open>cs\<close> and the characters of the keys pressed, in order; key releases and keys
  without a character add nothing, and what does not fit is dropped. Reading takes the oldest
  character, or returns -1 from an empty buffer.\<close>

theorem keyboard_queue:
  assumes "kbd_inv s cs" "answers (kbd_io s) = scs @ rest"
  shows "\<exists>s'. kbd_interrupts (length scs) s = Inr s' \<and> kbd_inv s' (take 63 (cs @ typed scs)) \<and>
    (case take 63 (cs @ typed scs) of [] \<Rightarrow> kbd_getchar s' = Inr (- 1, s')
     | c # cs' \<Rightarrow> \<exists>s''. kbd_getchar s' = Inr (sint c, s'') \<and> kbd_inv s'' cs')"
proof -
  have "\<exists>s'. kbd_interrupts (length scs) s = Inr s' \<and> kbd_inv s' (take 63 (cs @ typed scs))"
    using assms
  proof (induction scs arbitrary: s cs)
    case Nil
    then show ?case by (auto simp: typed_def kbd_inv_def)
  next
    case (Cons v scs)
    from handler_sim [OF Cons.prems(1), of v "scs @ rest"] Cons.prems(2) obtain s1 where
      s1: "keyboard_handler_c s = Inr s1" "kbd_inv s1 (take 63 (cs @ typed [v]))" "answers (kbd_io s1) = scs @ rest" by auto
    have "take 63 (take 63 (cs @ typed [v]) @ typed scs) = take 63 (cs @ typed (v # scs))"
      by (cases "length (cs @ typed [v]) \<le> 63") (auto simp: typed_Cons typed_def [of "[]"] take_append)
    with Cons.IH [OF s1(2,3)] s1(1) show ?case by auto
  qed
  then obtain s' where s': "kbd_interrupts (length scs) s = Inr s'" "kbd_inv s' (take 63 (cs @ typed scs))" by blast
  with kbd_getchar_sim [OF s'(2)] show ?thesis by (cases "take 63 (cs @ typed scs)") auto
qed

definition demo_kbd :: kbd where
  "demo_kbd = \<lparr>kbd_buffer = replicate 64 0, kbd_head = 60, kbd_tail = 60, kbd_io = \<lparr>answers = [0x1F, 0x9F, 0x23], trace = []\<rparr>\<rparr>"

theorem keyboard_queue_witness:
  "\<exists>s' s''. kbd_interrupts 3 demo_kbd = Inr s' \<and> kbd_inv s' [115, 104] \<and> kbd_getchar s' = Inr (115, s'')"
proof -
  have t: "typed [0x1F, 0x9F, 0x23] = [115, 104]" by (simp add: typed_def scancode_char_def scancode_map_def)
  have "kbd_inv demo_kbd []" "answers (kbd_io demo_kbd) = [0x1F, 0x9F, 0x23] @ []" by (simp_all add: kbd_inv_def demo_kbd_def)
  from keyboard_queue [OF this] show ?thesis by (auto simp: t numeral_3_eq_3)
qed

end
