(* ===== verification/Vga.thy ===== *)
theory Vga
  imports Serial
begin

text \<open>
  The text screen of \<open>kernel/drivers/vga.cpp\<close>: 25 rows of 80 cells in video memory, a cursor that the
  driver keeps, and the cursor of the hardware, which is set through ports. The cursor is
  a pair of \<open>char\<close>, whose values stay far below the bounds of the type. Cells are compared
  with the text page: an access outside of it is \<open>OutOfBounds\<close>.
\<close>

section \<open>State\<close>

definition VGA_WIDTH :: int where "VGA_WIDTH = 80"
definition VGA_HEIGHT :: int where "VGA_HEIGHT = 25"

record vga =
  screen :: "u16 list"
  vga_color :: u8
  cursor_x :: int
  cursor_y :: int
  vga_io :: io

lemmas vga_consts = VGA_WIDTH_def VGA_HEIGHT_def

definition set_cell :: "int \<Rightarrow> u16 \<Rightarrow> vga \<Rightarrow> vga result" where
  "set_cell i v s =
     (if 0 \<le> i \<and> nat i < length (screen s) then Inr (s\<lparr>screen := (screen s)[nat i := v]\<rparr>) else Inl OutOfBounds)"

definition get_cell :: "int \<Rightarrow> vga \<Rightarrow> u16 result" where
  "get_cell i s = (if 0 \<le> i \<and> nat i < length (screen s) then Inr (screen s ! nat i) else Inl OutOfBounds)"

text \<open>\<open>((short)vga_color << 8) | c\<close>: both operands are signed, so they are sign extended.\<close>

definition cell :: "u8 \<Rightarrow> u8 \<Rightarrow> u16" where
  "cell color c = push_bit 8 (signed_take_bit 7 (ucast color)) OR signed_take_bit 7 (ucast c)"

section \<open>Operations\<close>

fun vga_fill :: "int \<Rightarrow> nat \<Rightarrow> u16 \<Rightarrow> vga \<Rightarrow> vga result" where
  "vga_fill i 0 v s = Inr s"
| "vga_fill i (Suc k) v s = rbind (set_cell i v s) (vga_fill (i + 1) k v)"

definition vga_clear :: "vga \<Rightarrow> vga result" where
  "vga_clear s =
     (let blank = cell (vga_color s) 32
      in vga_fill 0 (nat (VGA_WIDTH * VGA_HEIGHT)) blank s)"

fun vga_clear_rows :: "int \<Rightarrow> int \<Rightarrow> int \<Rightarrow> nat \<Rightarrow> vga \<Rightarrow> vga result" where
  "vga_clear_rows minx maxx y 0 s = Inr s"
| "vga_clear_rows minx maxx y (Suc k) s =
     (let offset = y * VGA_WIDTH
      in rbind (vga_fill (offset + minx) (nat (maxx - minx)) 0x0700 s) (vga_clear_rows minx maxx (y + 1) k))"

definition vga_clear_region :: "int \<Rightarrow> int \<Rightarrow> int \<Rightarrow> int \<Rightarrow> vga \<Rightarrow> vga result" where
  "vga_clear_region minx miny maxx maxy s = vga_clear_rows minx maxx miny (nat (maxy - miny)) s"

definition vga_move_hardware_cursor :: "vga \<Rightarrow> vga" where
  "vga_move_hardware_cursor s =
     (let pos = of_int (cursor_y s * VGA_WIDTH + cursor_x s) :: u16;
          d = vga_io s;
          d = outb 0x3D4 0x0F d;
          d = outb 0x3D5 (ucast (pos AND 0xFF)) d;
          d = outb 0x3D4 0x0E d;
          d = outb 0x3D5 (ucast (drop_bit 8 pos AND 0xFF)) d
      in s\<lparr>vga_io := d\<rparr>)"

definition vga_set_cursor :: "int \<Rightarrow> int \<Rightarrow> vga \<Rightarrow> vga" where
  "vga_set_cursor x y s =
     (if x < 0 \<or> x \<ge> VGA_WIDTH \<or> y < 0 \<or> y \<ge> VGA_HEIGHT then s
      else vga_move_hardware_cursor (s\<lparr>cursor_x := x, cursor_y := y\<rparr>))"

definition vga_get_cursor :: "vga \<Rightarrow> int \<times> int" where
  "vga_get_cursor s = (cursor_x s, cursor_y s)"

definition init_vga :: "vga \<Rightarrow> vga result" where
  "init_vga s =
     rbind (vga_clear (s\<lparr>vga_color := 0x07\<rparr>)) (\<lambda>s.
       Inr (vga_set_cursor 0 0 (s\<lparr>cursor_x := 0, cursor_y := 0\<rparr>)))"

definition vga_put_char :: "u8 \<Rightarrow> vga \<Rightarrow> vga result" where
  "vga_put_char c s =
     rbind
       (if c = 10 then Inr (s\<lparr>cursor_x := 0, cursor_y := cursor_y s + 1\<rparr>)
        else if c = 13 then Inr (s\<lparr>cursor_x := 0\<rparr>)
        else if c = 9 then Inr (s\<lparr>cursor_x := (cursor_x s + 8) AND NOT 7\<rparr>)
        else
          rbind (set_cell (cursor_y s * VGA_WIDTH + cursor_x s) (cell (vga_color s) c) s) (\<lambda>s.
            let s = s\<lparr>cursor_x := cursor_x s + 1\<rparr>
            in Inr (if cursor_x s \<ge> VGA_WIDTH then s\<lparr>cursor_x := 0, cursor_y := cursor_y s + 1\<rparr> else s)))
       (\<lambda>s.
          let s = (if cursor_y s \<ge> VGA_HEIGHT then s\<lparr>cursor_y := 0\<rparr> else s)
          in Inr (vga_move_hardware_cursor s))"

fun vga_write :: "u8 list \<Rightarrow> vga \<Rightarrow> vga result" where
  "vga_write [] s = Inl OutOfBounds"
| "vga_write (c # str) s = (if c = 0 then Inr s else rbind (vga_put_char c s) (vga_write str))"

text \<open>\<open>vga_scroll\<close>: the loops that move rows up and blank the ones left over.\<close>

fun vga_copy_cells :: "int \<Rightarrow> int \<Rightarrow> nat \<Rightarrow> vga \<Rightarrow> vga result" where
  "vga_copy_cells dst src 0 s = Inr s"
| "vga_copy_cells dst src (Suc k) s =
     rbind (get_cell src s) (\<lambda>v. rbind (set_cell dst v s) (vga_copy_cells (dst + 1) (src + 1) k))"

fun vga_move_rows :: "int \<Rightarrow> int \<Rightarrow> nat \<Rightarrow> vga \<Rightarrow> vga result" where
  "vga_move_rows lines y 0 s = Inr s"
| "vga_move_rows lines y (Suc k) s =
     rbind (vga_copy_cells (y * VGA_WIDTH) ((y + lines) * VGA_WIDTH) (nat VGA_WIDTH) s) (vga_move_rows lines (y + 1) k)"

fun vga_blank_rows :: "int \<Rightarrow> nat \<Rightarrow> u16 \<Rightarrow> vga \<Rightarrow> vga result" where
  "vga_blank_rows row 0 v s = Inr s"
| "vga_blank_rows row (Suc k) v s = rbind (vga_fill row (nat VGA_WIDTH) v s) (vga_blank_rows (row + VGA_WIDTH) k v)"

definition vga_scroll :: "int \<Rightarrow> vga \<Rightarrow> vga result" where
  "vga_scroll lines s =
     (if lines \<le> 0 then Inr s
      else
        let blank = cell (vga_color s) 32
        in if lines \<ge> VGA_HEIGHT
           then rbind (vga_fill 0 (nat (VGA_WIDTH * VGA_HEIGHT)) blank s) (\<lambda>s. Inr (s\<lparr>cursor_x := 0, cursor_y := 0\<rparr>))
           else
             let rows_to_move = VGA_HEIGHT - lines
             in rbind (vga_move_rows lines 0 (nat rows_to_move) s) (\<lambda>s.
                  rbind (vga_blank_rows (rows_to_move * VGA_WIDTH) (nat lines) blank s) (\<lambda>s.
                    let s = s\<lparr>cursor_y := cursor_y s - lines\<rparr>
                    in Inr (if cursor_y s < 0 then s\<lparr>cursor_y := 0\<rparr> else s))))"

section \<open>Loops\<close>

lemma vga_fill_run:
  "0 \<le> i \<Longrightarrow> nat i + k \<le> length (screen s) \<Longrightarrow>
     vga_fill i k v s = Inr (s\<lparr>screen := take (nat i) (screen s) @ replicate k v @ drop (nat i + k) (screen s)\<rparr>)"
proof (induction k arbitrary: i s)
  case (Suc k)
  let ?s = "s\<lparr>screen := (screen s)[nat i := v]\<rparr>"
  have c: "set_cell i v s = Inr ?s" using Suc.prems by (simp add: set_cell_def)
  have n: "nat (i + 1) = Suc (nat i)" using Suc.prems by simp
  have "take (Suc (nat i)) ((screen s)[nat i := v]) = take (nat i) (screen s) @ [v]"
    using Suc.prems by (simp add: take_Suc_conv_app_nth)
  with Suc.IH [of "i + 1" ?s] Suc.prems c n show ?case by simp
qed simp

lemma vga_copy_run:
  "0 \<le> dst \<Longrightarrow> dst < src \<Longrightarrow> nat src + k \<le> length (screen s) \<Longrightarrow>
     \<exists>s'. vga_copy_cells dst src k s = Inr (s\<lparr>screen := s'\<rparr>) \<and> length s' = length (screen s) \<and>
       (\<forall>n < length (screen s). s' ! n = (if nat dst \<le> n \<and> n < nat dst + k then screen s ! (n + nat (src - dst)) else screen s ! n))"
proof (induction k arbitrary: dst src s)
  case 0
  then show ?case by (intro exI [of _ "screen s"]) simp
next
  case (Suc k)
  let ?s = "s\<lparr>screen := (screen s)[nat dst := screen s ! nat src]\<rparr>"
  have "nat dst < length (screen s)" using Suc.prems by linarith
  then have step: "vga_copy_cells dst src (Suc k) s = vga_copy_cells (dst + 1) (src + 1) k ?s"
    using Suc.prems by (simp add: get_cell_def set_cell_def)
  have eq: "src + 1 - (dst + 1) = src - dst" by simp
  have "0 \<le> dst + 1" "dst + 1 < src + 1" "nat (src + 1) + k \<le> length (screen ?s)" using Suc.prems by simp_all
  from Suc.IH [OF this, unfolded eq] obtain s' where
    s': "vga_copy_cells (dst + 1) (src + 1) k ?s = Inr (?s\<lparr>screen := s'\<rparr>)" "length s' = length (screen s)"
      "\<forall>n < length (screen s). s' ! n = (if nat (dst + 1) \<le> n \<and> n < nat (dst + 1) + k then screen ?s ! (n + nat (src - dst)) else screen ?s ! n)"
    by auto
  have "s' ! n = (if nat dst \<le> n \<and> n < nat dst + Suc k then screen s ! (n + nat (src - dst)) else screen s ! n)"
    if n: "n < length (screen s)" for n
  proof -
    have "nat dst + nat (src - dst) = nat src" using Suc.prems by simp
    then show ?thesis using s'(3) n Suc.prems by (auto simp: nth_list_update)
  qed
  with step s' show ?case by (intro exI [of _ s']) simp
qed

lemma vga_move_rows_run:
  "0 \<le> y \<Longrightarrow> 0 < lines \<Longrightarrow> 80 * (nat y + k + nat lines) \<le> length (screen s) \<Longrightarrow>
     \<exists>s'. vga_move_rows lines y k s = Inr (s\<lparr>screen := s'\<rparr>) \<and> length s' = length (screen s) \<and>
       (\<forall>n < length (screen s). s' ! n =
          (if 80 * nat y \<le> n \<and> n < 80 * (nat y + k) then screen s ! (n + 80 * nat lines) else screen s ! n))"
proof (induction k arbitrary: y s)
  case 0
  then show ?case by (intro exI [of _ "screen s"]) simp
next
  case (Suc k)
  have nat80: "nat (y * 80) = 80 * nat y" "nat ((y + lines) * 80) = 80 * (nat y + nat lines)"
    "nat ((y + lines) * 80 - y * 80) = 80 * nat lines" using Suc.prems by (simp_all add: nat_add_distrib nat_mult_distrib algebra_simps)
  have "0 \<le> y * 80" "y * 80 < (y + lines) * 80" "nat ((y + lines) * 80) + 80 \<le> length (screen s)"
    using Suc.prems by (simp_all add: nat80)
  from vga_copy_run [OF this] obtain s1 where
    s1: "vga_copy_cells (y * 80) ((y + lines) * 80) 80 s = Inr (s\<lparr>screen := s1\<rparr>)" "length s1 = length (screen s)"
      "\<forall>n < length (screen s). s1 ! n = (if 80 * nat y \<le> n \<and> n < 80 * nat y + 80 then screen s ! (n + 80 * nat lines) else screen s ! n)"
    unfolding nat80 by blast
  from Suc.IH [of "y + 1" "s\<lparr>screen := s1\<rparr>"] Suc.prems s1(2) obtain s2 where
    s2: "vga_move_rows lines (y + 1) k (s\<lparr>screen := s1\<rparr>) = Inr (s\<lparr>screen := s2\<rparr>)" "length s2 = length (screen s)"
      "\<forall>n < length (screen s). s2 ! n = (if 80 * nat (y + 1) \<le> n \<and> n < 80 * (nat (y + 1) + k) then s1 ! (n + 80 * nat lines) else s1 ! n)"
    by (auto simp: nat_add_distrib)
  have "s2 ! n = (if 80 * nat y \<le> n \<and> n < 80 * (nat y + Suc k) then screen s ! (n + 80 * nat lines) else screen s ! n)"
    if n: "n < length (screen s)" for n
  proof (cases "80 * nat (y + 1) \<le> n \<and> n < 80 * (nat (y + 1) + k)")
    case True
    then have b: "n + 80 * nat lines < length (screen s)" "\<not> n + 80 * nat lines < 80 * nat y + 80"
      using Suc.prems by (simp_all add: nat_add_distrib)
    from s2(3) n True have "s2 ! n = s1 ! (n + 80 * nat lines)" by simp
    also have "\<dots> = screen s ! (n + 80 * nat lines)" using s1(3) b by simp
    finally show ?thesis using True Suc.prems by (simp add: nat_add_distrib)
  next
    case False
    with s2(3) n have "s2 ! n = s1 ! n" by presburger
    with False s1(3) n Suc.prems show ?thesis by (auto simp: nat_add_distrib)
  qed
  with s1(1) s2(1,2) show ?case by (intro exI [of _ s2]) (simp add: VGA_WIDTH_def)
qed

lemma vga_blank_rows_run:
  "0 \<le> row \<Longrightarrow> nat row + 80 * k \<le> length (screen s) \<Longrightarrow>
     vga_blank_rows row k v s = Inr (s\<lparr>screen := take (nat row) (screen s) @ replicate (80 * k) v @ drop (nat row + 80 * k) (screen s)\<rparr>)"
proof (induction k arbitrary: row s)
  case (Suc k)
  let ?s = "s\<lparr>screen := take (nat row) (screen s) @ replicate 80 v @ drop (nat row + 80) (screen s)\<rparr>"
  have f: "vga_fill row 80 v s = Inr ?s" using vga_fill_run [of row 80 s v] Suc.prems by simp
  have n: "nat (row + 80) = nat row + 80" using Suc.prems by (simp add: nat_add_distrib)
  have l: "nat row \<le> length (screen s)" using Suc.prems by simp
  have "take (nat row + 80) (screen ?s) = take (nat row) (screen s) @ replicate 80 v"
    "drop (nat row + 80 + 80 * k) (screen ?s) = drop (nat row + 80 * Suc k) (screen s)"
    using l Suc.prems by (simp_all add: min_def algebra_simps)
  moreover have "replicate (80 * Suc k) v = replicate 80 v @ replicate (80 * k) v" by (simp add: replicate_add [symmetric] add.commute)
  ultimately show ?case using Suc.IH [of "row + 80" ?s] Suc.prems f n by (simp add: VGA_WIDTH_def)
qed simp

section \<open>Invariant\<close>

text \<open>The text page has its size and the cursor is on it.\<close>

definition vga_ok :: "vga \<Rightarrow> bool" where
  "vga_ok s \<longleftrightarrow> length (screen s) = 2000 \<and> 0 \<le> cursor_x s \<and> cursor_x s < 80 \<and> 0 \<le> cursor_y s \<and> cursor_y s < 25"

text \<open>The cell under the cursor.\<close>

definition vga_pos :: "vga \<Rightarrow> nat" where
  "vga_pos s = nat (80 * cursor_y s + cursor_x s)"

text \<open>The position the hardware shows after an access to the cursor registers.\<close>

definition hw_cursor :: "io \<Rightarrow> nat \<Rightarrow> bool" where
  "hw_cursor d p \<longleftrightarrow> (\<exists>tr. trace d = tr @ [Outb 0x3D4 0x0F, Outb 0x3D5 (of_nat p), Outb 0x3D4 0x0E, Outb 0x3D5 (of_nat (p div 256))])"

lemma move_cursor:
  assumes "0 \<le> cursor_y s * 80 + cursor_x s" "cursor_y s * 80 + cursor_x s < 65536"
  shows "hw_cursor (vga_io (vga_move_hardware_cursor s)) (vga_pos s)"
    "vga_move_hardware_cursor s = s\<lparr>vga_io := vga_io (vga_move_hardware_cursor s)\<rparr>"
proof -
  define p where "p = vga_pos s"
  have p: "p < 65536" "cursor_y s * 80 + cursor_x s = int p" using assms by (simp_all add: p_def vga_pos_def mult.commute)
  let ?w = "of_int (cursor_y s * 80 + cursor_x s) :: u16"
  have w: "unat ?w = p" using p by (simp add: unat_of_nat take_bit_nat_eq_self)
  have "unat (ucast (x AND 0xFF) :: u8) = unat x mod 256" for x :: u16
  proof -
    have "x AND 0xFF = take_bit 8 x" by (simp add: take_bit_eq_mask mask_eq_exp_minus_1)
    then have "unat (x AND 0xFF) = take_bit 8 (unat x)" by (simp only: unsigned_take_bit_eq)
    then show ?thesis by (simp add: unsigned_ucast_eq take_bit_eq_mod)
  qed
  moreover have "unat (drop_bit 8 ?w) = p div 256"
    using w p by (simp only: unsigned_drop_bit_eq) (simp add: take_bit_nat_eq_self drop_bit_eq_div)
  ultimately have "ucast (?w AND 0xFF) = (of_nat p :: u8)" "ucast (drop_bit 8 ?w AND 0xFF) = (of_nat (p div 256) :: u8)"
    using w by (simp_all only: word_unat_eq_iff unat_of_nat_u8)
  then show "hw_cursor (vga_io (vga_move_hardware_cursor s)) (vga_pos s)"
    unfolding hw_cursor_def p_def [symmetric] by (simp add: vga_move_hardware_cursor_def Let_def outb_def VGA_WIDTH_def)
  show "vga_move_hardware_cursor s = s\<lparr>vga_io := vga_io (vga_move_hardware_cursor s)\<rparr>"
    by (simp add: vga_move_hardware_cursor_def Let_def)
qed

text \<open>The next position, and one character other than a tab.\<close>

fun next_cursor :: "u8 \<Rightarrow> int \<times> int \<Rightarrow> int \<times> int" where
  "next_cursor c (x, y) =
     (if c = 10 then (0, if y = 24 then 0 else y + 1)
      else if c = 13 then (0, y)
      else if x = 79 then (0, if y = 24 then 0 else y + 1)
      else (x + 1, y))"

lemma put_char_eq:
  assumes "vga_ok s" "c \<noteq> 9"
  shows "vga_put_char c s = Inr (vga_move_hardware_cursor
    (s\<lparr>screen := (if c = 10 \<or> c = 13 then screen s else (screen s)[vga_pos s := cell (vga_color s) c]),
       cursor_x := fst (next_cursor c (cursor_x s, cursor_y s)), cursor_y := snd (next_cursor c (cursor_x s, cursor_y s))\<rparr>))"
proof -
  have b: "length (screen s) = 2000" "0 \<le> cursor_x s" "cursor_x s < 80" "0 \<le> cursor_y s" "cursor_y s < 25"
    using assms(1) by (simp_all add: vga_ok_def)
  have p: "vga_pos s = nat (cursor_y s * 80 + cursor_x s)" "cursor_y s * 80 + cursor_x s < 2000"
    using b by (simp_all add: vga_pos_def mult.commute)
  consider "c = 10" | "c = 13" | "c \<noteq> 10" "c \<noteq> 13" by blast
  then show ?thesis
  proof cases
    case 3
    then have "set_cell (cursor_y s * 80 + cursor_x s) (cell (vga_color s) c) s = Inr (s\<lparr>screen := (screen s)[vga_pos s := cell (vga_color s) c]\<rparr>)"
      using b p by (simp add: set_cell_def)
    then show ?thesis using 3 assms(2) b by (simp add: vga_put_char_def vga_consts Let_def)
  qed (use b in \<open>simp_all add: vga_put_char_def vga_consts Let_def\<close>)
qed

lemma next_cursor_pos:
  assumes "0 \<le> x" "x < 80" "0 \<le> y" "y < 25" "next_cursor c (x, y) = (x', y')"
  shows "0 \<le> x'" "x' < 80" "0 \<le> y'" "y' < 25"
    "c \<noteq> 10 \<Longrightarrow> c \<noteq> 13 \<Longrightarrow> nat (80 * y' + x') = Suc (nat (80 * y + x)) mod 2000"
proof -
  show "0 \<le> x'" "x' < 80" "0 \<le> y'" "y' < 25" using assms by (auto split: if_splits)
  assume c: "c \<noteq> 10" "c \<noteq> 13"
  have "Suc (nat (80 * y + x)) = nat (80 * y + x + 1)" using assms by simp
  also have "nat (80 * y' + x') = nat (80 * y + x + 1) mod 2000"
  proof (cases "x = 79 \<and> y = 24")
    case False
    then have "80 * y + x + 1 < 2000" using assms by auto
    then have "nat (80 * y + x + 1) mod 2000 = nat (80 * y + x + 1)" using assms by (intro mod_less) simp
    with False assms c show ?thesis by (auto split: if_splits)
  qed (use assms c in auto)
  finally show "nat (80 * y' + x') = Suc (nat (80 * y + x)) mod 2000" .
qed

lemma put_char_run:
  assumes "vga_ok s" "c \<noteq> 9"
  obtains s' where "vga_put_char c s = Inr s'" "vga_ok s'" "vga_color s' = vga_color s" "hw_cursor (vga_io s') (vga_pos s')"
    "screen s' = (if c = 10 \<or> c = 13 then screen s else (screen s)[vga_pos s := cell (vga_color s) c])"
    "c \<noteq> 10 \<Longrightarrow> c \<noteq> 13 \<Longrightarrow> vga_pos s' = Suc (vga_pos s) mod 2000"
    "(cursor_x s', cursor_y s') = next_cursor c (cursor_x s, cursor_y s)"
proof -
  obtain x' y' where n: "next_cursor c (cursor_x s, cursor_y s) = (x', y')" by (cases "next_cursor c (cursor_x s, cursor_y s)")
  have b: "length (screen s) = 2000" "0 \<le> cursor_x s" "cursor_x s < 80" "0 \<le> cursor_y s" "cursor_y s < 25"
    using assms(1) by (simp_all add: vga_ok_def)
  note np = next_cursor_pos [OF b(2-5) n]
  define t where "t = s\<lparr>screen := (if c = 10 \<or> c = 13 then screen s else (screen s)[vga_pos s := cell (vga_color s) c]), cursor_x := x', cursor_y := y'\<rparr>"
  have run: "vga_put_char c s = Inr (vga_move_hardware_cursor t)" using put_char_eq [OF assms] n by (simp add: t_def)
  have "0 \<le> cursor_y t * 80 + cursor_x t" "cursor_y t * 80 + cursor_x t < 65536" using np by (simp_all add: t_def)
  note mc = move_cursor [OF this]
  have f: "screen (vga_move_hardware_cursor t) = screen t" "cursor_x (vga_move_hardware_cursor t) = x'"
    "cursor_y (vga_move_hardware_cursor t) = y'" "vga_color (vga_move_hardware_cursor t) = vga_color s"
    by (subst mc(2), simp add: t_def)+
  then have "vga_pos (vga_move_hardware_cursor t) = vga_pos t" by (simp add: vga_pos_def t_def)
  then show thesis
    by (intro that [OF run]) (use f mc(1) np b n in \<open>simp_all add: vga_ok_def t_def vga_pos_def\<close>)
qed

text \<open>How far cell \<open>n\<close> is ahead of cell \<open>p\<close>, going around.\<close>

definition ahead :: "nat \<Rightarrow> nat \<Rightarrow> nat" where
  "ahead p n = (if p \<le> n then n - p else n + 2000 - p)"

lemma ahead_step:
  assumes "p < 2000" "n < 2000"
  shows "ahead (Suc p mod 2000) n = (if n = p then 1999 else ahead p n - 1)" "ahead p n = 0 \<longleftrightarrow> n = p" "ahead p n < 2000"
proof -
  have "Suc p mod 2000 = (if p = 1999 then 0 else Suc p)" using assms by simp
  then show "ahead (Suc p mod 2000) n = (if n = p then 1999 else ahead p n - 1)" using assms by (auto simp: ahead_def)
qed (use assms in \<open>auto simp: ahead_def\<close>)

lemma vga_pos_less: "vga_ok s \<Longrightarrow> vga_pos s < 2000"
  unfolding vga_ok_def vga_pos_def by linarith

lemma vga_write_run:
  "vga_ok s \<Longrightarrow> length str \<le> 2000 \<Longrightarrow> set str \<inter> {0, 9, 10, 13} = {} \<Longrightarrow>
     \<exists>s'. vga_write (str @ 0 # t) s = Inr s' \<and> vga_ok s' \<and> vga_pos s' = (vga_pos s + length str) mod 2000 \<and>
       vga_color s' = vga_color s \<and> (str \<noteq> [] \<longrightarrow> hw_cursor (vga_io s') (vga_pos s')) \<and>
       (\<forall>n < 2000. screen s' ! n =
          (if ahead (vga_pos s) n < length str then cell (vga_color s) (str ! ahead (vga_pos s) n) else screen s ! n))"
proof (induction str arbitrary: s)
  case Nil
  then show ?case using vga_pos_less by simp
next
  case (Cons c str)
  have p: "vga_pos s < 2000" and len: "length (screen s) = 2000"
    using Cons.prems(1) vga_pos_less by (simp_all add: vga_ok_def)
  have c: "c \<noteq> 0" "c \<noteq> 9" "c \<noteq> 10" "c \<noteq> 13" using Cons.prems(3) by auto
  obtain s1 where s1: "vga_put_char c s = Inr s1" "vga_ok s1" "vga_color s1 = vga_color s" "hw_cursor (vga_io s1) (vga_pos s1)"
    "screen s1 = (screen s)[vga_pos s := cell (vga_color s) c]" "vga_pos s1 = Suc (vga_pos s) mod 2000"
    by (rule put_char_run [OF Cons.prems(1) c(2)]) (use c in auto)
  from Cons.IH [OF s1(2)] Cons.prems(2,3) obtain s' where
    s': "vga_write (str @ 0 # t) s1 = Inr s'" "vga_ok s'" "vga_pos s' = (vga_pos s1 + length str) mod 2000" "vga_color s' = vga_color s1"
      "str \<noteq> [] \<longrightarrow> hw_cursor (vga_io s') (vga_pos s')"
      "\<forall>n < 2000. screen s' ! n = (if ahead (vga_pos s1) n < length str then cell (vga_color s1) (str ! ahead (vga_pos s1) n) else screen s1 ! n)"
    by auto
  have "screen s' ! n = (if ahead (vga_pos s) n < length (c # str) then cell (vga_color s) ((c # str) ! ahead (vga_pos s) n) else screen s ! n)"
    if n: "n < 2000" for n
  proof (cases "n = vga_pos s")
    case True
    then have "ahead (vga_pos s1) n = 1999" "ahead (vga_pos s) n = 0" using ahead_step [OF p n] s1(6) by simp_all
    with s'(6) n True s1(5) p len Cons.prems(2) show ?thesis by simp
  next
    case False
    then have "ahead (vga_pos s1) n = ahead (vga_pos s) n - 1" "0 < ahead (vga_pos s) n" using ahead_step [OF p n] s1(6) by auto
    with s'(6) n False s1(3,5) show ?thesis by (auto simp: nth_Cons')
  qed
  moreover have "vga_pos s' = (vga_pos s + length (c # str)) mod 2000" using s'(3) s1(6) by (simp add: mod_simps)
  moreover have "hw_cursor (vga_io s') (vga_pos s')"
  proof (cases str)
    case Nil
    with s'(1) have "s' = s1" by simp
    with s1(4) show ?thesis by simp
  qed (use s'(5) in simp)
  ultimately show ?case using s1(1,3) s'(1,2,4) c by auto
qed

section \<open>Properties\<close>

definition demo_vga :: vga where
  "demo_vga = \<lparr>screen = replicate 2000 0, vga_color = 7, cursor_x = 75, cursor_y = 24, vga_io = \<lparr>answers = [], trace = []\<rparr>\<rparr>"

lemma demo_vga_ok: "vga_ok demo_vga" "vga_pos demo_vga = 1995"
  by (simp_all add: vga_ok_def demo_vga_def vga_pos_def)

text \<open>C39: text goes to the screen. From a cursor on the page, a string of at most a page of
  characters other than tab, line feed and carriage return fills the cells from the cursor on,
  going around at the end of the page, changes no other cell and leaves both cursors behind it.\<close>

theorem vga_write_text:
  assumes "vga_ok s" "length str \<le> 2000" "set str \<inter> {0, 9, 10, 13} = {}"
  shows "\<exists>s'. vga_write (str @ 0 # t) s = Inr s' \<and> vga_ok s' \<and> vga_pos s' = (vga_pos s + length str) mod 2000 \<and>
    (str \<noteq> [] \<longrightarrow> hw_cursor (vga_io s') (vga_pos s')) \<and>
    (\<forall>n < 2000. screen s' ! n =
       (if ahead (vga_pos s) n < length str then cell (vga_color s) (str ! ahead (vga_pos s) n) else screen s ! n))"
  using vga_write_run [OF assms] by blast

theorem vga_write_text_witness:
  "\<exists>s'. vga_write (map of_nat [72, 97, 108, 108, 111, 33] @ [0]) demo_vga = Inr s' \<and> vga_pos s' = 1 \<and> screen s' ! 0 = 0x721"
proof -
  let ?str = "map of_nat [72, 97, 108, 108, 111, 33] :: u8 list"
  have "set ?str \<inter> {0, 9, 10, 13} = {}" by simp
  then obtain s' where s': "vga_write (?str @ [0]) demo_vga = Inr s'" and "vga_pos s' = (vga_pos demo_vga + length ?str) mod 2000"
    "\<forall>n < 2000. screen s' ! n = (if ahead (vga_pos demo_vga) n < length ?str then cell (vga_color demo_vga) (?str ! ahead (vga_pos demo_vga) n)
       else screen demo_vga ! n)"
    using vga_write_text [OF demo_vga_ok(1), of ?str "[]"] by auto
  then have "vga_pos s' = 1" "screen s' ! 0 = cell (vga_color demo_vga) (?str ! 5)"
    by (simp_all add: demo_vga_ok(2) ahead_def)
  moreover have "cell (vga_color demo_vga) (?str ! 5) = 0x721" by (simp add: demo_vga_def cell_def)
  ultimately show ?thesis using s' by auto
qed

text \<open>A tab can take the cursor off the page. Within eight columns of the right margin it leaves the cursor
  in column 80; the next character goes to the first cell of the row below, and on the last row
  past the end of the page.\<close>

theorem tab_leaves_the_page:
  assumes "vga_ok s" "72 \<le> cursor_x s" "c \<notin> {9, 10, 13}"
  shows "\<exists>s'. vga_put_char 9 s = Inr s' \<and> cursor_x s' = 80 \<and> cursor_y s' = cursor_y s \<and> screen s' = screen s \<and>
    (if cursor_y s = 24 then vga_put_char c s' = Inl OutOfBounds
     else \<exists>s''. vga_put_char c s' = Inr s'' \<and> screen s'' = (screen s)[80 * nat (cursor_y s + 1) := cell (vga_color s) c])"
proof -
  have b: "length (screen s) = 2000" "cursor_x s < 80" "0 \<le> cursor_y s" "cursor_y s < 25" using assms(1) by (simp_all add: vga_ok_def)
  have "cursor_x s \<in> {72, 73, 74, 75, 76, 77, 78, 79}" using assms(2) b(2) by auto
  then have x: "(cursor_x s + 8) AND NOT 7 = 80" by auto
  define s' where "s' = vga_move_hardware_cursor (s\<lparr>cursor_x := 80\<rparr>)"
  have run: "vga_put_char 9 s = Inr s'" using x b by (simp add: vga_put_char_def s'_def vga_consts Let_def)
  have f: "cursor_x s' = 80" "cursor_y s' = cursor_y s" "screen s' = screen s" "vga_color s' = vga_color s"
    by (simp_all add: s'_def vga_move_hardware_cursor_def Let_def)
  have n: "nat (cursor_y s * 80 + 80) = 80 * nat (cursor_y s + 1)" using b by (simp add: nat_add_distrib nat_mult_distrib algebra_simps)
  have "vga_put_char c s' = Inl OutOfBounds" if "cursor_y s = 24"
    using that assms(3) f b by (simp add: vga_put_char_def set_cell_def vga_consts)
  moreover have "\<exists>s''. vga_put_char c s' = Inr s'' \<and> screen s'' = (screen s)[80 * nat (cursor_y s + 1) := cell (vga_color s) c]"
    if "cursor_y s \<noteq> 24"
  proof -
    have "80 * nat (cursor_y s + 1) < 2000" using that b by (simp add: nat_less_iff)
    then show ?thesis
      using assms(3) f b n by (simp add: vga_put_char_def set_cell_def vga_consts Let_def vga_move_hardware_cursor_def)
  qed
  ultimately show ?thesis using run f by auto
qed

theorem tab_leaves_the_page_witness:
  "\<exists>s'. vga_put_char 9 demo_vga = Inr s' \<and> vga_put_char 65 s' = Inl OutOfBounds"
  using tab_leaves_the_page [OF demo_vga_ok(1), of 65] by (auto simp: demo_vga_def)

text \<open>Scrolling. \<open>vga_scroll\<close> by \<open>n\<close> rows moves every row \<open>n\<close> up and blanks the last \<open>n\<close>; by the height
  of the page or more it blanks the page; by none it does nothing. No access leaves the page.\<close>

theorem vga_scroll_behaviour:
  assumes "vga_ok s"
  shows "\<exists>s'. vga_scroll lines s = Inr s' \<and> vga_ok s' \<and>
    (\<forall>n < 2000. screen s' ! n =
       (if lines \<le> 0 then screen s ! n
        else if n + 80 * nat lines < 2000 then screen s ! (n + 80 * nat lines) else cell (vga_color s) 32))"
proof -
  have b: "length (screen s) = 2000" using assms by (simp add: vga_ok_def)
  let ?v = "cell (vga_color s) 32"
  consider "lines \<le> 0" | "25 \<le> lines" | "0 < lines" "lines < 25" by linarith
  then show ?thesis
  proof cases
    case 1
    with assms show ?thesis by (simp add: vga_scroll_def)
  next
    case 2
    then have "2000 \<le> 80 * nat lines" by simp
    moreover have "vga_scroll lines s = Inr (s\<lparr>screen := replicate 2000 ?v, cursor_x := 0, cursor_y := 0\<rparr>)"
      using 2 b vga_fill_run [of 0 2000 s ?v] by (simp add: vga_scroll_def vga_consts Let_def)
    ultimately show ?thesis using 2 by (simp add: vga_ok_def)
  next
    case 3
    define k where "k = nat lines"
    have k: "0 < k" "k < 25" "lines = int k" using 3 by (simp_all add: k_def)
    obtain sc where sc: "vga_move_rows lines 0 (25 - k) s = Inr (s\<lparr>screen := sc\<rparr>)" "length sc = 2000"
      "\<forall>n < 2000. sc ! n = (if n < 80 * (25 - k) then screen s ! (n + 80 * k) else screen s ! n)"
      using vga_move_rows_run [of 0 lines "25 - k" s] k b by auto
    have r: "nat ((25 - lines) * 80) = 80 * (25 - k)" "80 * (25 - k) + 80 * k = 2000" "nat lines = k" "0 \<le> (25 - lines) * 80"
      using k by (auto simp: nat_mult_distrib)
    let ?sc = "take (80 * (25 - k)) sc @ replicate (80 * k) ?v"
    have bl: "vga_blank_rows ((25 - lines) * 80) (nat lines) ?v (s\<lparr>screen := sc\<rparr>) = Inr (s\<lparr>screen := ?sc\<rparr>)"
      using vga_blank_rows_run [OF r(4), of k "s\<lparr>screen := sc\<rparr>" ?v] sc(2) unfolding r(1,3) by (simp add: r(2))
    let ?y = "if cursor_y s - lines < 0 then 0 else cursor_y s - lines"
    have run: "vga_scroll lines s = Inr (s\<lparr>screen := ?sc, cursor_y := ?y\<rparr>)"
      using 3 sc(1) bl r(3) by (simp add: vga_scroll_def vga_consts Let_def nat_diff_distrib)
    have "?sc ! n = (if n + 80 * k < 2000 then screen s ! (n + 80 * k) else ?v)" if "n < 2000" for n
      using that sc(2,3) r k by (auto simp: nth_append)
    moreover have "vga_ok (s\<lparr>screen := ?sc, cursor_y := ?y\<rparr>)" using assms 3 sc(2) r(2) k by (auto simp: vga_ok_def)
    ultimately show ?thesis using run 3 by (intro exI [of _ "s\<lparr>screen := ?sc, cursor_y := ?y\<rparr>"]) (simp add: r(3))
  qed
qed

theorem vga_scroll_behaviour_witness: "\<exists>s'. vga_scroll 3 demo_vga = Inr s' \<and> screen s' ! 1999 = 0x720"
proof -
  obtain s' where "vga_scroll 3 demo_vga = Inr s'" "\<forall>n < 2000. screen s' ! n =
      (if (3 :: int) \<le> 0 then screen demo_vga ! n else if n + 80 * nat 3 < 2000 then screen demo_vga ! (n + 80 * nat 3) else cell (vga_color demo_vga) 32)"
    using vga_scroll_behaviour [OF demo_vga_ok(1), of 3] by blast
  then show ?thesis by (intro exI [of _ s']) (simp add: cell_def demo_vga_def)
qed

text \<open>A character from the upper half of the code page loses the colour: its sign extension sets every
  bit of the attribute byte.\<close>

theorem high_character_attribute:
  assumes "128 \<le> unat c"
  shows "drop_bit 8 (cell color c) = 0xFF"
proof -
  have "unat c div 128 = 1" using assms unat_u8_less [of c] by auto
  then have "bit (unat c) 7" by (simp add: bit_iff_odd)
  then have c: "bit c 7" by (simp add: bit_unsigned_iff)
  have m: "(0xFF :: u16) = mask 8" by (simp add: mask_eq_exp_minus_1)
  show ?thesis
    unfolding m by (intro bit_word_eqI) (auto simp: cell_def bit_simps c min_def not_le)
qed

end
