(* ===== verification/Print.thy ===== *)
theory Print
  imports Vga
begin

text \<open>
  Formatted output, \<open>kernel/print.cpp\<close>: \<open>fd_printf_internal\<close> interprets a format and sends each
  character to the serial line, the screen or both. Memory that holds strings is a function from an address to
  the bytes from there on; reading past them is \<open>OutOfBounds\<close>.
\<close>

section \<open>Operations\<close>

record console =
  com :: io
  display :: vga

definition putc_internal :: "int \<Rightarrow> u8 \<Rightarrow> console \<Rightarrow> console result" where
  "putc_internal fd c st =
     (if fd = 1 then rbind (serial_print_char c (com st)) (\<lambda>d. Inr (st\<lparr>com := d\<rparr>))
      else if fd = 2 then rbind (vga_put_char c (display st)) (\<lambda>v. Inr (st\<lparr>display := v\<rparr>))
      else if fd = 3 then
        rbind (serial_print_char c (com st)) (\<lambda>d.
          rbind (vga_put_char c (display st)) (\<lambda>v. Inr (st\<lparr>com := d, display := v\<rparr>)))
      else if fd = 0 then Inl NullDeref
      else Inl OutOfBounds)"

definition digits :: "u8 list" where
  "digits = [48, 49, 50, 51, 52, 53, 54, 55, 56, 57, 65, 66, 67, 68, 69, 70]"

text \<open>The loop of \<open>print_number\<close> that fills \<open>buffer\<close>, of 32 bytes, and the one that empties it.\<close>

function number_digits :: "nat \<Rightarrow> nat \<Rightarrow> u8 list \<Rightarrow> u8 list result" where
  "number_digits v base buffer =
     (if length buffer \<ge> 32 then Inl OutOfBounds
      else
        let buffer = buffer @ [digits ! (v mod base)];
            v = v div base
        in if v \<noteq> 0 then number_digits v base buffer else Inr buffer)"
  by pat_completeness auto
termination by (relation "measure (\<lambda>(v, base, buffer). 32 - length buffer)") auto

declare number_digits.simps [simp del]

fun puts :: "(u8 \<Rightarrow> console \<Rightarrow> console result) \<Rightarrow> u8 list \<Rightarrow> console \<Rightarrow> console result" where
  "puts putc [] st = Inr st"
| "puts putc (c # cs) st = rbind (putc c st) (puts putc cs)"

definition print_number :: "(u8 \<Rightarrow> console \<Rightarrow> console result) \<Rightarrow> u32 \<Rightarrow> nat \<Rightarrow> console \<Rightarrow> console result" where
  "print_number putc v base st = rbind (number_digits (unat v) base []) (\<lambda>buffer. puts putc (rev buffer) st)"

text \<open>The loop \<open>while (*s) putc(*s++)\<close>.\<close>

fun print_string :: "(u8 \<Rightarrow> console \<Rightarrow> console result) \<Rightarrow> u8 list \<Rightarrow> console \<Rightarrow> console result" where
  "print_string putc [] st = Inl OutOfBounds"
| "print_string putc (c # s) st = (if c = 0 then Inr st else rbind (putc c st) (print_string putc s))"

text \<open>The loop over the format. The character after a percent sign is skipped whatever it is.\<close>

fun printf_loop :: "(u8 \<Rightarrow> console \<Rightarrow> console result) \<Rightarrow> (u32 \<Rightarrow> u8 list) \<Rightarrow> u8 list \<Rightarrow> u32 list \<Rightarrow> console \<Rightarrow> console result" where
  "printf_loop putc str [] args st = Inl OutOfBounds"
| "printf_loop putc str (c # fmt) args st =
     (if c = 0 then Inr st
      else if c \<noteq> 37 then rbind (putc c st) (printf_loop putc str fmt args)
      else
        case fmt of
          [] \<Rightarrow> Inl OutOfBounds
        | d # fmt \<Rightarrow>
            if d \<in> {100, 117, 120, 115, 99} then
              case args of
                [] \<Rightarrow> Inl OutOfBounds
              | a # args \<Rightarrow>
                  rbind (if d = 100 \<or> d = 117 then print_number putc a 10 st
                         else if d = 120 then print_number putc a 16 st
                         else if d = 115 then print_string putc (str a) st
                         else putc (ucast a) st)
                    (printf_loop putc str fmt args)
            else rbind (if d = 37 then putc 37 st else Inr st) (printf_loop putc str fmt args))"

definition fd_printf_internal :: "int \<Rightarrow> (u32 \<Rightarrow> u8 list) \<Rightarrow> u8 list \<Rightarrow> u32 list \<Rightarrow> console \<Rightarrow> console result" where
  "fd_printf_internal fd str fmt args st =
     (if fd < 0 \<or> fd > 3 then Inl OutOfBounds else printf_loop (putc_internal fd) str fmt args st)"

definition kprintf :: "(u32 \<Rightarrow> u8 list) \<Rightarrow> u8 list \<Rightarrow> u32 list \<Rightarrow> console \<Rightarrow> console result" where
  "kprintf str fmt args st = fd_printf_internal 1 str fmt args st"

text \<open>The bytes of a string literal, terminator included.\<close>

definition ascii :: "string \<Rightarrow> u8 list" where
  "ascii s = map of_char s"

definition literal :: "string \<Rightarrow> u8 list" where
  "literal s = ascii s @ [0]"

lemma offset_step:
  fixes offset :: u32
  assumes le: "offset \<le> offset + 4"
  shows "2 ^ 32 - unat (offset + 4) < (2 :: nat) ^ 32 - unat offset"
proof -
  have "offset \<noteq> offset + 4" by simp
  then have "unat offset \<noteq> unat (offset + 4)" by (metis unsigned_word_eqI)
  moreover have "unat offset \<le> unat (offset + 4)" using le by (simp only: word_le_nat_alt)
  ultimately have "unat offset < unat (offset + 4)" by linarith
  moreover have "unat (offset + 4) < 2 ^ 32" using unat_u32_less [of "offset + 4"] by simp
  ultimately show ?thesis by linarith
qed

text \<open>\<open>print_stack\<close> reads the words of the stack through \<open>word_at\<close>. Its 32-bit offset wraps round when
  \<open>bytes\<close> is among the last four numbers, and the loop never ends.\<close>

function print_stack_from :: "(u32 \<Rightarrow> u32) \<Rightarrow> u32 \<Rightarrow> (u32 \<Rightarrow> u8 list) \<Rightarrow> u32 \<Rightarrow> u32 \<Rightarrow> console \<Rightarrow> console result" where
  "print_stack_from word_at esp str bytes offset st =
     (if offset \<le> bytes
      then rbind (kprintf str (literal ''[ESP+0x%x] = 0x%x\<newline>'') [offset, word_at (esp + offset)] st)
             (\<lambda>st. if offset \<le> offset + 4 then print_stack_from word_at esp str bytes (offset + 4) st
                   else Inl Diverges)
      else Inr st)"
  by pat_completeness auto
termination
  by (relation "measure (\<lambda>(word_at, esp, str, bytes, offset, st). 2 ^ 32 - unat offset)")
    (simp_all only: in_measure split_conv wf_measure offset_step)

definition print_stack :: "(u32 \<Rightarrow> u32) \<Rightarrow> u32 \<Rightarrow> (u32 \<Rightarrow> u8 list) \<Rightarrow> u32 \<Rightarrow> console \<Rightarrow> console result" where
  "print_stack word_at esp str bytes st = print_stack_from word_at esp str bytes 0 st"

definition print_eip :: "u32 \<Rightarrow> (u32 \<Rightarrow> u8 list) \<Rightarrow> console \<Rightarrow> console result" where
  "print_eip eip str st = kprintf str (literal ''EIP = 0x%x\<newline>'') [eip] st"

section \<open>What a format means\<close>

text \<open>A format is a sequence of characters and directives; its meaning on a list of arguments is the
  text to be output.\<close>

datatype piece = Lit u8 | Unsigned | Hex | String | Char | Ignored

fun pieces :: "u8 list \<Rightarrow> piece list" where
  "pieces [] = []"
| "pieces [c] = (if c = 37 then [] else [Lit c])"
| "pieces (c # d # fmt) =
     (if c = 37
      then (if d = 100 \<or> d = 117 then Unsigned else if d = 120 then Hex else if d = 115 then String
            else if d = 99 then Char else if d = 37 then Lit 37 else Ignored) # pieces fmt
      else Lit c # pieces (d # fmt))"

text \<open>The usual notation of a number in a base: no leading zeros.\<close>

definition notation_of :: "nat \<Rightarrow> nat \<Rightarrow> u8 list" where
  "notation_of base n = map (\<lambda>d. digits ! d) (if n = 0 then [0] else rev (rdigits base n))"

fun meaning :: "(u32 \<Rightarrow> u8 list) \<Rightarrow> piece list \<Rightarrow> u32 list \<Rightarrow> u8 list" where
  "meaning str [] args = []"
| "meaning str (Lit c # ps) args = c # meaning str ps args"
| "meaning str (Unsigned # ps) args = notation_of 10 (unat (hd args)) @ meaning str ps (tl args)"
| "meaning str (Hex # ps) args = notation_of 16 (unat (hd args)) @ meaning str ps (tl args)"
| "meaning str (String # ps) args = c_string (str (hd args)) @ meaning str ps (tl args)"
| "meaning str (Char # ps) args = ucast (hd args) # meaning str ps (tl args)"
| "meaning str (Ignored # ps) args = meaning str ps args"

text \<open>The arguments are enough, those of strings are strings, and the format does not end in a single
  percent sign.\<close>

fun fits_args :: "(u32 \<Rightarrow> u8 list) \<Rightarrow> piece list \<Rightarrow> u32 list \<Rightarrow> bool" where
  "fits_args str [] args \<longleftrightarrow> True"
| "fits_args str (Lit c # ps) args \<longleftrightarrow> fits_args str ps args"
| "fits_args str (Ignored # ps) args \<longleftrightarrow> fits_args str ps args"
| "fits_args str (String # ps) args \<longleftrightarrow> args \<noteq> [] \<and> 0 \<in> set (str (hd args)) \<and> fits_args str ps (tl args)"
| "fits_args str (_ # ps) args \<longleftrightarrow> args \<noteq> [] \<and> fits_args str ps (tl args)"

fun complete :: "u8 list \<Rightarrow> bool" where
  "complete [] \<longleftrightarrow> True"
| "complete [c] \<longleftrightarrow> c \<noteq> 37"
| "complete (c # d # fmt) \<longleftrightarrow> (if c = 37 then complete fmt else complete (d # fmt))"

section \<open>Facts\<close>

lemma rbind_assoc: "rbind (rbind r f) g = rbind r (\<lambda>x. rbind (f x) g)"
  by (cases r) simp_all

lemma puts_Nil: "puts putc [] = Inr"
  by (rule ext) simp

lemma puts_Cons: "puts putc (c # cs) = (\<lambda>st. rbind (putc c st) (puts putc cs))"
  by (rule ext) simp

lemma print_string_Cons: "c \<noteq> 0 \<Longrightarrow> print_string putc (c # s) = (\<lambda>st. rbind (putc c st) (print_string putc s))"
  by (rule ext) simp

lemma print_string_0: "print_string putc (0 # s) = Inr"
  by (rule ext) simp

lemma printf_loop_0: "printf_loop putc str (0 # s) args = Inr"
  by (rule ext) simp

lemma printf_loop_Lit: "c \<noteq> 0 \<Longrightarrow> c \<noteq> 37 \<Longrightarrow>
    printf_loop putc str (c # s) args = (\<lambda>st. rbind (putc c st) (printf_loop putc str s args))"
  by (rule ext) simp

lemma puts_append: "puts putc (xs @ ys) = (\<lambda>st. rbind (puts putc xs st) (puts putc ys))"
  by (induction xs) (simp_all add: rbind_assoc puts_Nil puts_Cons)

lemma print_string_puts: "0 \<in> set s \<Longrightarrow> print_string putc s = puts putc (c_string s)"
proof (induction s)
  case (Cons c s)
  then show ?case by (cases "c = 0") (simp_all add: c_string_def print_string_0 print_string_Cons puts_Nil puts_Cons)
qed simp

lemma number_digits_run:
  "2 \<le> base \<Longrightarrow> v < base ^ k \<Longrightarrow> 0 < k \<Longrightarrow> length buf + k \<le> 32 \<Longrightarrow>
     number_digits v base buf = Inr (buf @ rev (notation_of base v))"
proof (induction v base buf arbitrary: k rule: number_digits.induct)
  case (1 v base buf)
  obtain j where k: "k = Suc j" using "1.prems"(3) by (cases k) simp_all
  have "v div base < base ^ j" using "1.prems"(1,2) k by (simp add: less_mult_imp_div_less mult.commute)
  show ?case
  proof (cases "v div base = 0")
    case True
    then have "v < base" using "1.prems"(1) by (simp add: div_eq_0_iff)
    then have "rev (notation_of base v) = [digits ! (v mod base)]"
      using "1.prems"(1) by (cases "v = 0") (simp_all add: notation_of_def rdigits.simps)
    with True "1.prems" show ?thesis by (subst number_digits.simps) simp
  next
    case False
    then have v: "v \<noteq> 0" "0 < j" using \<open>v div base < base ^ j\<close> by (auto intro: Suc_leI gr0I)
    have "rdigits base v = v mod base # rdigits base (v div base)" using v(1) "1.prems"(1) by (subst rdigits.simps) simp
    then have e: "rev (notation_of base v) = digits ! (v mod base) # rev (notation_of base (v div base))"
      using False v(1) by (simp add: notation_of_def rev_map)
    have "number_digits (v div base) base (buf @ [digits ! (v mod base)]) =
        Inr ((buf @ [digits ! (v mod base)]) @ rev (notation_of base (v div base)))"
      using "1.IH" [of "buf @ [digits ! (v mod base)]" "v div base" j] False v(2) "1.prems" k \<open>v div base < base ^ j\<close> by simp
    with False "1.prems" k e show ?thesis by (subst number_digits.simps) (simp add: Let_def)
  qed
qed

lemma print_number_puts:
  assumes "base = 10 \<or> base = 16"
  shows "print_number putc v base st = puts putc (notation_of base (unat v)) st"
proof -
  have "unat v < base ^ 10" using assms unat_u32_less [of v] by auto
  then have "number_digits (unat v) base [] = Inr (rev (notation_of base (unat v)))"
    using number_digits_run [of base "unat v" 10 "[]"] assms by auto
  then show ?thesis by (simp add: print_number_def)
qed

lemma printf_loop_meaning:
  "0 \<notin> set fmt \<Longrightarrow> complete fmt \<Longrightarrow> fits_args str (pieces fmt) args \<Longrightarrow>
     printf_loop putc str (fmt @ 0 # t) args = puts putc (meaning str (pieces fmt) args)"
proof (induction fmt arbitrary: args rule: pieces.induct)
  case 1
  show ?case by (simp add: printf_loop_0 puts_Nil)
next
  case (2 c)
  then show ?case by (simp add: printf_loop_Lit printf_loop_0 puts_Nil puts_Cons)
next
  case (3 c d fmt)
  show ?case
  proof (cases "c = 37")
    case False
    then have "printf_loop putc str ((d # fmt) @ 0 # t) args = puts putc (meaning str (pieces (d # fmt)) args)"
      using "3.IH"(2) [OF False] "3.prems" False by (simp del: printf_loop.simps)
    with False "3.prems"(1) show ?thesis by (simp add: printf_loop_Lit puts_Cons)
  next
    case True
    have IH: "fits_args str (pieces fmt) args \<Longrightarrow> printf_loop putc str (fmt @ 0 # t) args = puts putc (meaning str (pieces fmt) args)" for args
      using "3.IH"(1) [OF True] "3.prems"(1,2) True by simp
    note eqs = IH puts_append print_number_puts print_string_puts
    consider "d = 100 \<or> d = 117" | "d = 120" | "d = 115" | "d = 99" | "d = 37" | "d \<notin> {100, 117, 120, 115, 99, 37}" by blast
    then show ?thesis
    proof cases
      case 1
      with True "3.prems" obtain a as where "args = a # as" by (cases args) auto
      with 1 True "3.prems" show ?thesis by (intro ext) (auto simp: eqs)
    next
      case 2
      with True "3.prems" obtain a as where "args = a # as" by (cases args) auto
      with 2 True "3.prems" show ?thesis by (intro ext) (simp add: eqs)
    next
      case 3
      with True "3.prems" obtain a as where "args = a # as" by (cases args) auto
      with 3 True "3.prems" show ?thesis by (intro ext) (simp add: eqs)
    next
      case 4
      with True "3.prems" obtain a as where "args = a # as" by (cases args) auto
      with 4 True "3.prems" show ?thesis by (intro ext) (simp add: eqs)
    next
      case 5
      with True "3.prems" show ?thesis by (intro ext) (simp add: eqs)
    next
      case 6
      with True "3.prems" show ?thesis by (intro ext) (simp add: eqs)
    qed
  qed
qed

text \<open>Reading a notation back.\<close>

definition digit_value :: "u8 \<Rightarrow> nat" where
  "digit_value c = (if unat c < 65 then unat c - 48 else unat c - 55)"

definition read_notation :: "nat \<Rightarrow> u8 list \<Rightarrow> nat" where
  "read_notation base cs = foldl (\<lambda>a c. base * a + digit_value c) 0 cs"

lemma digit_value_digits: "d < 16 \<Longrightarrow> digit_value (digits ! d) = d"
proof -
  assume "d < 16"
  then have "d \<in> set [0..<16]" by simp
  moreover have "\<forall>d \<in> set [0..<16]. digit_value (digits ! d) = d" by code_simp
  ultimately show ?thesis by blast
qed

lemma read_notation_digits:
  "(\<And>d. d \<in> set ds \<Longrightarrow> d < 16) \<Longrightarrow> read_notation base (rev (map (\<lambda>d. digits ! d) ds)) = rvalue base ds"
  by (induction ds) (simp_all add: read_notation_def rvalue_def digit_value_digits add.commute)

lemma read_notation_of:
  assumes "2 \<le> base" "base \<le> 16"
  shows "read_notation base (notation_of base n) = n"
proof (cases "n = 0")
  case True
  then show ?thesis using digit_value_digits [of 0] by (simp add: notation_of_def read_notation_def)
next
  case False
  have "d < 16" if "d \<in> set (rdigits base n)" for d using rdigits_less [OF that] assms(2) by simp
  with False show ?thesis
    using read_notation_digits [of "rdigits base n" base] rvalue_rdigits [OF assms(1), of n]
    by (simp add: notation_of_def rev_map)
qed

section \<open>Properties\<close>



text \<open>A percent sign at the end of a format takes the terminator with it: the bytes after the string are interpreted
  as the format goes on.\<close>

theorem percent_at_the_end:
  "fd_printf_internal fd str (37 # 0 # rest) args st = fd_printf_internal fd str rest args st"
  by (simp add: fd_printf_internal_def)

text \<open>\<open>%d\<close> prints a negative number as the unsigned number of the same bits.\<close>

theorem percent_d_is_unsigned:
  "fd_printf_internal 1 str [37, 100, 0] [- 1] st = puts (putc_internal 1) [52, 50, 57, 52, 57, 54, 55, 50, 57, 53] st"
proof -
  have "meaning str (pieces [37, 100]) [- 1] = notation_of 10 4294967295" by (simp add: unat_minus_1)
  also have "\<dots> = [52, 50, 57, 52, 57, 54, 55, 50, 57, 53]"
    by (simp add: notation_of_def rdigits.simps digits_def)
  finally show ?thesis
    using printf_loop_meaning [of "[37, 100]" str "[- 1]" "putc_internal 1" "[]"] by (simp add: fd_printf_internal_def)
qed

end
