(* ===== verification/Userland.thy ===== *)
theory Userland
  imports Keyboard Print
begin

text \<open>
  The user programs and the library they use: \<open>lib/syslib.cpp\<close>, \<open>lib/utils.cpp\<close>, \<open>lib/sleep.cpp\<close>, \<open>user/hello.cpp\<close> and
  \<open>user/shell.cpp\<close>, with the table of system calls of \<open>kernel/kernel.cpp\<close>. What a program does is the sequence of the system calls
  it makes; what \<open>getchar\<close> answers is given from outside. A pointer argument stands for the bytes it points to.
\<close>

section \<open>System calls\<close>

definition SYS_YIELD :: u32 where "SYS_YIELD = 0"
definition SYS_EXIT :: u32 where "SYS_EXIT = 1"
definition SYS_EXEC :: u32 where "SYS_EXEC = 2"
definition SYS_GETCHAR :: u32 where "SYS_GETCHAR = 3"
definition SYS_WRITE :: u32 where "SYS_WRITE = 4"

lemmas sys_numbers = SYS_YIELD_def SYS_EXIT_def SYS_EXEC_def SYS_GETCHAR_def SYS_WRITE_def

record request =
  nr :: u32
  arg_fd :: int
  arg_text :: "u8 list"
  arg_words :: "u32 list"

definition call_yield :: "request list \<Rightarrow> request list" where
  "call_yield u = u @ [\<lparr>nr = SYS_YIELD, arg_fd = 0, arg_text = [], arg_words = []\<rparr>]"

definition call_exit :: "request list \<Rightarrow> request list" where
  "call_exit u = u @ [\<lparr>nr = SYS_EXIT, arg_fd = 0, arg_text = [], arg_words = []\<rparr>]"

definition call_exec :: "u8 list \<Rightarrow> request list \<Rightarrow> request list" where
  "call_exec name u = u @ [\<lparr>nr = SYS_EXEC, arg_fd = 0, arg_text = name, arg_words = []\<rparr>]"

definition call_getchar :: "request list \<Rightarrow> request list" where
  "call_getchar u = u @ [\<lparr>nr = SYS_GETCHAR, arg_fd = 0, arg_text = [], arg_words = []\<rparr>]"

definition call_write :: "int \<Rightarrow> u8 list \<Rightarrow> u32 list \<Rightarrow> request list \<Rightarrow> request list" where
  "call_write fd fmt args u = u @ [\<lparr>nr = SYS_WRITE, arg_fd = fd, arg_text = fmt, arg_words = args\<rparr>]"

definition uprintf :: "u8 list \<Rightarrow> u32 list \<Rightarrow> request list \<Rightarrow> request list" where
  "uprintf fmt args u = call_write 3 fmt args u"

lemmas user_calls = call_yield_def call_exit_def call_exec_def call_getchar_def call_write_def

text \<open>The kernel's side: a table of 256 functions, of which five are set.\<close>

datatype service = to_scheduler_entry | to_r3_exit | to_load_program | to_kbd_getchar | to_fd_printf_internal

definition init_syscalls :: "service option list \<Rightarrow> service option list" where
  "init_syscalls syscalls =
     syscalls[unat SYS_YIELD := Some to_scheduler_entry, unat SYS_EXIT := Some to_r3_exit, unat SYS_EXEC := Some to_load_program,
       unat SYS_GETCHAR := Some to_kbd_getchar, unat SYS_WRITE := Some to_fd_printf_internal]"

definition syscall_handler :: "service option list \<Rightarrow> u32 \<Rightarrow> service result" where
  "syscall_handler syscalls syscall_id =
     (if unat syscall_id < length syscalls
      then case syscalls ! unat syscall_id of None \<Rightarrow> Inl NullDeref | Some f \<Rightarrow> Inr f
      else Inl OutOfBounds)"

section \<open>The programs\<close>

text \<open>\<open>user/hello.cpp\<close>.\<close>

definition hello_start :: "request list \<Rightarrow> request list" where
  "hello_start u = call_exit (call_write 2 (literal ''Hello from userspace\<newline>'') [] u)"

text \<open>\<open>user/shell.cpp\<close>. The loops take the answers of \<open>getchar\<close> one after the other; the main loop stops where the answers do.\<close>

definition shell_write :: "u8 list \<Rightarrow> request list \<Rightarrow> request list" where
  "shell_write s u = call_write 3 s [] u"

definition shell_putc :: "u8 \<Rightarrow> request list \<Rightarrow> request list" where
  "shell_putc c u = call_write 2 [c, 0] [] u"

fun shell_drain :: "nat \<Rightarrow> int list \<Rightarrow> request list \<Rightarrow> bool \<times> int list \<times> request list" where
  "shell_drain 0 xs u = (True, xs, u)"
| "shell_drain (Suc n) [] u = (False, [], u)"
| "shell_drain (Suc n) (c # xs) u = (if c = - 1 then (True, xs, call_getchar u) else shell_drain n xs (call_getchar u))"

definition shell_step :: "int \<Rightarrow> u8 list \<times> int \<times> request list \<Rightarrow> (u8 list \<times> int \<times> request list) result" where
  "shell_step c = (\<lambda>(line, len, u).
     let u = call_getchar u
     in if c = - 1 then Inr (line, len, call_yield u)
        else if c < 0x20 \<and> c \<noteq> 10 \<and> c \<noteq> 8 then Inr (line, len, u)
        else if c = 8 then
          if len > 0 then Inr (line, len - 1, shell_write [8, 32, 8, 0] u) else Inr (line, len, u)
        else
          let u = shell_putc (of_int c) u
          in if c = 10 then
               if nat len < length line then
                 let line = line[nat len := 0];
                     u = (if len > 0 then call_exec line u else u)
                 in Inr (line, 0, shell_write (literal ''> '') u)
               else Inl OutOfBounds
             else if len < 127 then
               if nat len < length line then Inr (line[nat len := of_int c], len + 1, u) else Inl OutOfBounds
             else Inr (line, len, u))"

fun shell_loop :: "int list \<Rightarrow> u8 list \<times> int \<times> request list \<Rightarrow> (u8 list \<times> int \<times> request list) result" where
  "shell_loop [] st = Inr st"
| "shell_loop (c # xs) st = rbind (shell_step c st) (shell_loop xs)"

text \<open>\<open>_start\<close>, on a stack where the array \<open>line\<close> has whatever was there before.\<close>

definition shell_start :: "u8 list \<Rightarrow> int list \<Rightarrow> (u8 list \<times> int \<times> request list) result" where
  "shell_start line xs =
     (case shell_drain 256 xs [] of
        (started, xs, u) \<Rightarrow>
          if \<not> started then Inr (line, 0, u)
          else
            let u = shell_write (literal ''Shell started\<newline>'') u;
                u = shell_write (literal ''Welcome to the Rudimentary OS shell!\<newline>'') u;
                u = shell_write (literal ''> '') u
            in shell_loop xs (line, 0, u))"

section \<open>Busy waiting\<close>

text \<open>\<open>lib/sleep.cpp\<close>. A division by zero is an exception of the processor.\<close>

definition burn_step :: "u32 \<Rightarrow> u32 \<Rightarrow> u32 result" where
  "burn_step msecs burn =
     (if msecs = 0 then Inl Halted
      else
        let burn = burn div msecs;
            burn = burn * (burn + 21321);
            burn = burn div 12411
        in Inr (burn + 21373))"

fun burn_loop :: "nat \<Rightarrow> u32 \<Rightarrow> u32 \<Rightarrow> u32 result" where
  "burn_loop 0 msecs burn = Inr burn"
| "burn_loop (Suc n) msecs burn = rbind (burn_step msecs burn) (burn_loop n msecs)"

function sleep_loop :: "u32 \<Rightarrow> u32 \<Rightarrow> u32 result" where
  "sleep_loop msecs burn =
     (if msecs \<noteq> 0 then rbind (burn_loop 1337 msecs burn) (\<lambda>burn. sleep_loop (msecs - 1) burn) else Inr burn)"
  by pat_completeness auto
termination
  by (relation "measure (\<lambda>(msecs, burn). unat msecs)") (auto simp: unat_gt_0 word_less_nat_alt measure_unat)

declare sleep_loop.simps [simp del]

definition sleep :: "u32 \<Rightarrow> u32 result" where
  "sleep msecs = sleep_loop msecs 124214"

section \<open>What the shell is for\<close>

text \<open>The lines that a sequence of keys makes, and the part of a line at its end: backspace takes the last character away,
  characters that do not print count for nothing, and a line keeps its first 127 characters.\<close>

definition type_key :: "int \<Rightarrow> u8 list \<Rightarrow> u8 list list \<times> u8 list" where
  "type_key c xs =
     (if c = 8 then ([], butlast xs)
      else if c = 10 then (if xs = [] then [] else [xs], [])
      else if c < 0x20 then ([], xs)
      else ([], take 127 (xs @ [of_int c])))"

fun typed :: "u8 list \<Rightarrow> int list \<Rightarrow> u8 list list \<times> u8 list" where
  "typed xs [] = ([], xs)"
| "typed xs (c # keys) = (let (ls, xs) = type_key c xs; (ms, xs) = typed xs keys in (ls @ ms, xs))"

definition after_drain :: "int list \<Rightarrow> int list" where
  "after_drain xs = (if - 1 \<in> set (take 256 xs) then tl (dropWhile (\<lambda>c. c \<noteq> - 1) xs) else drop 256 xs)"

definition executed :: "request list \<Rightarrow> u8 list list" where
  "executed u = map (c_string \<circ> arg_text) (filter (\<lambda>r. nr r = SYS_EXEC) u)"

definition served :: "request list \<Rightarrow> bool" where
  "served u \<longleftrightarrow> (\<forall>r \<in> set u. \<exists>f. syscall_handler (init_syscalls (replicate 256 None)) (nr r) = Inr f)"

section \<open>Facts\<close>

lemma burn_loop_total: "msecs \<noteq> 0 \<Longrightarrow> \<exists>b. burn_loop n msecs burn = Inr b"
  by (induction n arbitrary: burn) (auto simp: burn_step_def Let_def)

lemma sleep_loop_total: "\<exists>b. sleep_loop msecs burn = Inr b"
proof (induction msecs burn rule: sleep_loop.induct)
  case (1 msecs burn)
  show ?case
  proof (cases "msecs = 0")
    case False
    with burn_loop_total obtain b where "burn_loop 1337 msecs burn = Inr b" by blast
    with False 1 show ?thesis by (subst sleep_loop.simps) auto
  qed (simp add: sleep_loop.simps)
qed

lemma executed_append [simp]: "executed (u @ v) = executed u @ executed v"
  by (simp add: executed_def)

lemma executed_Nil [simp]: "executed [] = []"
  by (simp add: executed_def)

lemma executed_calls [simp]:
  "executed (call_getchar u) = executed u" "executed (call_yield u) = executed u" "executed (call_exit u) = executed u"
  "executed (call_write fd fmt args u) = executed u" "executed (call_exec name u) = executed u @ [c_string name]"
  by (simp_all add: user_calls executed_def sys_numbers)

lemma served_append: "served (u @ v) \<longleftrightarrow> served u \<and> served v"
  by (auto simp: served_def)

lemma served_calls [simp]:
  "served (call_getchar u) = served u" "served (call_yield u) = served u" "served (call_exit u) = served u"
  "served (call_write fd fmt args u) = served u" "served (call_exec name u) = served u"
proof -
  have one: "served [r]" if "nr r \<in> {SYS_YIELD, SYS_EXIT, SYS_EXEC, SYS_GETCHAR, SYS_WRITE}" for r
    using that by (auto simp: served_def syscall_handler_def init_syscalls_def sys_numbers)
  show "served (call_getchar u) = served u" "served (call_yield u) = served u" "served (call_exit u) = served u"
    "served (call_write fd fmt args u) = served u" "served (call_exec name u) = served u"
    by (simp_all add: user_calls served_append one)
qed

text \<open>The buffer of the shell holds the characters \<open>xs\<close>.\<close>

definition line_holds :: "u8 list \<Rightarrow> int \<Rightarrow> u8 list \<Rightarrow> bool" where
  "line_holds line len xs \<longleftrightarrow> length line = 128 \<and> len = int (length xs) \<and> length xs \<le> 127 \<and> take (length xs) line = xs \<and> 0 \<notin> set xs"

lemma line_holds_add:
  assumes "line_holds line len xs" "len < 127" "c \<noteq> 0"
  shows "line_holds (line[nat len := c]) (len + 1) (xs @ [c])"
  using assms by (auto simp: line_holds_def take_Suc_conv_app_nth)

lemma line_holds_back:
  assumes "line_holds line len xs" "0 < len"
  shows "line_holds line (len - 1) (butlast xs)"
proof (cases xs rule: rev_cases)
  case Nil
  with assms show ?thesis by (simp add: line_holds_def)
next
  case (snoc ys y)
  have "take (length ys) line = take (length ys) (take (Suc (length ys)) line)" by (simp add: min_def)
  also have "\<dots> = ys" using assms snoc by (simp add: line_holds_def del: take_take)
  finally show ?thesis using assms snoc by (simp add: line_holds_def)
qed

lemma line_holds_end:
  assumes "line_holds line len xs"
  shows "c_string (line[nat len := 0]) = xs"
proof -
  have n: "nat len = length xs" "length xs < length line" using assms by (auto simp: line_holds_def)
  have "line[length xs := 0] = xs @ 0 # drop (Suc (length xs)) line"
    using upd_conv_take_nth_drop [OF n(2), of 0] assms by (simp add: line_holds_def)
  moreover have "takeWhile (\<lambda>c. c \<noteq> 0) (xs @ 0 # ys) = xs" for ys
  proof -
    have "x \<noteq> 0" if "x \<in> set xs" for x using assms that by (auto simp: line_holds_def)
    from takeWhile_append2 [of xs "\<lambda>c. c \<noteq> 0" "0 # ys", OF this] show ?thesis by simp
  qed
  ultimately show ?thesis by (simp add: c_string_def n(1))
qed

lemma printable_nonzero: "0x20 \<le> c \<Longrightarrow> c < 256 \<Longrightarrow> (of_int c :: u8) \<noteq> 0"
proof
  assume c: "0x20 \<le> c" "c < 256" "(of_int c :: u8) = 0"
  have "uint (of_int c :: u8) = c" using c(1,2) by (simp add: uint_word_of_int)
  with c show False by simp
qed

lemma shell_step_run:
  assumes h: "line_holds line len xs" and c: "c < 256" and u: "served u" and k: "type_key c xs = (ls, ys)"
  shows "\<exists>line' len' u'. shell_step c (line, len, u) = Inr (line', len', u') \<and> line_holds line' len' ys \<and>
    executed u' = executed u @ ls \<and> served u'"
proof -
  have n: "nat len < length line" "0 \<le> len" "len \<le> 127" "xs = [] \<longleftrightarrow> len = 0" "length xs = nat len" using h by (auto simp: line_holds_def)
  consider "c = 8" | "c = 10" | "c < 0x20" "c \<noteq> 8" "c \<noteq> 10" | "0x20 \<le> c" by linarith
  then show ?thesis
  proof cases
    case 1
    then have k': "ls = []" "ys = butlast xs" using k by (simp_all add: type_key_def)
    show ?thesis
    proof (cases "len > 0")
      case True
      with 1 k' u line_holds_back [OF h True] show ?thesis by (simp add: shell_step_def shell_write_def Let_def)
    next
      case False
      then have "xs = []" using n by simp
      with 1 False k' u h show ?thesis by (simp add: shell_step_def Let_def)
    qed
  next
    case 2
    then have k': "ls = (if xs = [] then [] else [xs])" "ys = []" using k by (simp_all add: type_key_def)
    have "line_holds (line[nat len := 0]) 0 []" using h by (simp add: line_holds_def)
    with 2 k' n u line_holds_end [OF h] show ?thesis by (simp add: shell_step_def shell_write_def shell_putc_def Let_def)
  next
    case 3
    then have k': "ls = []" "ys = xs" using k by (simp_all add: type_key_def)
    with 3 u h show ?thesis by (simp add: shell_step_def Let_def)
  next
    case 4
    then have k': "ls = []" "ys = take 127 (xs @ [of_int c])" using k by (simp_all add: type_key_def)
    show ?thesis
    proof (cases "len < 127")
      case True
      then have e: "ys = xs @ [of_int c]" using n k'(2) by simp
      from line_holds_add [OF h True printable_nonzero [OF 4 c]] 4 True n u k'(1) show ?thesis
        unfolding e by (simp add: shell_step_def shell_putc_def Let_def)
    next
      case False
      then have e: "ys = xs" using n k'(2) by simp
      from h 4 False u k'(1) show ?thesis unfolding e by (simp add: shell_step_def shell_putc_def Let_def)
    qed
  qed
qed

lemma shell_loop_run:
  assumes "line_holds line len xs" "\<And>c. c \<in> set keys \<Longrightarrow> c < 256" "served u" "typed xs keys = (ls, ys)"
  shows "\<exists>line' len' u'. shell_loop keys (line, len, u) = Inr (line', len', u') \<and> line_holds line' len' ys \<and>
    executed u' = executed u @ ls \<and> served u'"
  using assms
proof (induction keys arbitrary: line len xs u ls)
  case (Cons c keys)
  from Cons.prems(4) obtain l1 zs l2 where t: "type_key c xs = (l1, zs)" "typed zs keys = (l2, ys)" "ls = l1 @ l2"
    by (auto simp: Let_def split: prod.splits)
  from shell_step_run [OF Cons.prems(1) _ Cons.prems(3) t(1)] Cons.prems(2) obtain line1 len1 u1 where
    s: "shell_step c (line, len, u) = Inr (line1, len1, u1)" "line_holds line1 len1 zs" "executed u1 = executed u @ l1" "served u1"
    by fastforce
  from Cons.IH [OF s(2) _ s(4) t(2)] Cons.prems(2) s(1,3) t(3) show ?case by auto
qed simp

lemma shell_drain_run:
  "shell_drain n xs u = (ok, xs', u') \<Longrightarrow> executed u' = executed u \<and> served u' = served u \<and>
    (ok \<longrightarrow> xs' = (if - 1 \<in> set (take n xs) then tl (dropWhile (\<lambda>c. c \<noteq> - 1) xs) else drop n xs)) \<and>
    (\<not> ok \<longrightarrow> length xs < n \<and> - 1 \<notin> set xs)"
  by (induction n xs u rule: shell_drain.induct) (auto split: if_splits)

lemma after_drain_subset: "set (after_drain xs) \<subseteq> set xs"
proof -
  have "set (tl ys) \<subseteq> set ys" for ys :: "int list" by (cases ys) auto
  then have "set (tl (dropWhile (\<lambda>c. c \<noteq> - 1) xs)) \<subseteq> set xs" using set_dropWhileD by fastforce
  then show ?thesis using set_drop_subset [of 256 xs] by (simp add: after_drain_def)
qed

section \<open>Properties\<close>

text \<open>C34: the shell runs what is typed. Whatever its buffer held before and whatever \<open>getchar\<close> answers, the shell never leaves its buffer
  of 128 bytes; after the characters it drops at the start, the names it passes to \<open>exec\<close> are exactly the lines that were typed, as
  edited with backspace and cut to 127 characters; the buffer holds the unfinished line; and every system call that it makes
  has a function in the kernel's table.\<close>

theorem shell_runs_typed_lines:
  assumes "length line = 128" "\<forall>c \<in> set pressed. c < 256"
  shows "\<exists>line' len u. shell_start line pressed = Inr (line', len, u) \<and> 0 \<le> len \<and> len \<le> 127 \<and> length line' = 128 \<and>
    executed u = fst (typed [] (after_drain pressed)) \<and> take (nat len) line' = snd (typed [] (after_drain pressed)) \<and> served u"
proof -
  obtain ok xs u where d: "shell_drain 256 pressed [] = (ok, xs, u)" by (metis prod_cases3)
  note r = shell_drain_run [OF d]
  have s: "served u" "executed u = []" using r by (simp_all add: served_def)
  show ?thesis
  proof (cases ok)
    case True
    then have xs: "xs = after_drain pressed" using r by (simp add: after_drain_def)
    have "set xs \<subseteq> set pressed" unfolding xs by (rule after_drain_subset)
    then have lt: "c < 256" if "c \<in> set xs" for c using assms(2) that by blast
    have h: "line_holds line 0 []" using assms(1) by (simp add: line_holds_def)
    obtain ls ys where t: "typed [] xs = (ls, ys)" by fastforce
    let ?u = "shell_write (literal ''> '') (shell_write (literal ''Welcome to the Rudimentary OS shell!\<newline>'')
      (shell_write (literal ''Shell started\<newline>'') u))"
    have u: "served ?u" "executed ?u = []" using s by (simp_all add: shell_write_def)
    from shell_loop_run [OF h lt u(1) t] obtain line' len' u' where
      "shell_loop xs (line, 0, ?u) = Inr (line', len', u')" "line_holds line' len' ys" "executed u' = ls" "served u'" by (auto simp: u(2))
    with d True t xs show ?thesis by (auto simp: shell_start_def line_holds_def)
  next
    case False
    then have "length pressed < 256" "- 1 \<notin> set pressed" using r by auto
    then have "after_drain pressed = []" by (auto simp: after_drain_def dest: in_set_takeD)
    with d False s assms(1) show ?thesis by (simp add: shell_start_def)
  qed
qed

text \<open>An escape that is dropped at the start, then \<open>hex\<close>, a backspace, \<open>llo\<close>, two returns and part of another line.\<close>

theorem shell_runs_typed_lines_witness:
  "\<exists>line' len u. shell_start (replicate 128 0x55) [27, - 1, 104, 101, 120, 8, 108, 108, 111, - 1, 10, 10, 97] = Inr (line', len, u) \<and>
     executed u = [[104, 101, 108, 108, 111]] \<and> take (nat len) line' = [97]"
proof -
  have t: "typed [] (after_drain [27, - 1, 104, 101, 120, 8, 108, 108, 111, - 1, 10, 10, 97]) = ([[104, 101, 108, 108, 111]], [97])"
    by (simp add: after_drain_def type_key_def)
  show ?thesis
    using shell_runs_typed_lines [of "replicate 128 0x55" "[27, - 1, 104, 101, 120, 8, 108, 108, 111, - 1, 10, 10, 97]"] unfolding t by auto
qed

text \<open>C35: \<open>sleep\<close> returns for every argument; in particular it never divides by zero.\<close>

theorem sleep_returns: "\<exists>b. sleep msecs = Inr b"
  unfolding sleep_def by (rule sleep_loop_total)

text \<open>The shell echoes a percent sign as a format of its own, which the kernel follows past its end.\<close>

theorem percent_echo:
  assumes "shell_putc 37 [] = [r]"
  shows "fd_printf_internal (arg_fd r) str (arg_text r @ after) (arg_words r) st = fd_printf_internal 2 str after [] st"
  using assms by (auto simp: shell_putc_def call_write_def fd_printf_internal_def)

end
