(* ===== verification/Entry.thy ===== *)
theory Entry
  imports Sched
begin

text \<open>
  The assembly of \<open>kernel/entry.S\<close>: critical sections, the saving and restoring of a thread's
  registers around \<open>scheduler\<close>, and the trampolines of new threads, with the stack frame that
  \<open>thread_create\<close> in \<open>kernel/kernel.cpp\<close> prepares for them. Memory holds a 32-bit word at
  each aligned address. The arithmetic flags are not modelled.
\<close>

section \<open>Critical sections\<close>

record irq =
  critical_depth :: u32
  critical_saved_flags :: u32
  eflags :: u32

definition IF_mask :: u32 where "IF_mask = 0x200"

definition interrupts_on :: "irq \<Rightarrow> bool" where
  "interrupts_on s \<longleftrightarrow> eflags s AND IF_mask \<noteq> 0"

definition cli :: "irq \<Rightarrow> irq" where
  "cli s = s\<lparr>eflags := eflags s AND NOT IF_mask\<rparr>"

definition enter_critical :: "irq \<Rightarrow> irq" where
  "enter_critical s =
     (let eax = eflags s;
          s = (if critical_depth s \<noteq> 0 then s else s\<lparr>critical_saved_flags := eax\<rparr>);
          s = cli s
      in s\<lparr>critical_depth := critical_depth s + 1\<rparr>)"

definition leave_critical :: "irq \<Rightarrow> irq" where
  "leave_critical s =
     (let s = s\<lparr>critical_depth := critical_depth s - 1\<rparr>
      in if critical_depth s \<noteq> 0 then s else s\<lparr>eflags := critical_saved_flags s\<rparr>)"

text \<open>A sequence of the two calls, and the nesting depth it reaches from depth \<open>d\<close>.\<close>

datatype crit = Enter | Leave

fun crit_step :: "crit \<Rightarrow> irq \<Rightarrow> irq" where
  "crit_step Enter s = enter_critical s"
| "crit_step Leave s = leave_critical s"

fun nests :: "nat \<Rightarrow> crit list \<Rightarrow> nat option" where
  "nests d [] = Some d"
| "nests d (Enter # cs) = (if Suc d < 2 ^ 32 then nests (Suc d) cs else None)"
| "nests d (Leave # cs) = (if 0 < d then nests (d - 1) cs else None)"

text \<open>At depth \<open>d\<close> of sections that were entered with the flags \<open>f\<close>.\<close>

definition crit_inv :: "u32 \<Rightarrow> nat \<Rightarrow> irq \<Rightarrow> bool" where
  "crit_inv f d s \<longleftrightarrow> d < 2 ^ 32 \<and> critical_depth s = of_nat d \<and>
     (if d = 0 then eflags s = f else critical_saved_flags s = f \<and> \<not> interrupts_on s)"

lemma cli_off [simp]: "\<not> interrupts_on (cli s)"
  by (simp add: interrupts_on_def cli_def IF_mask_def bit_eq_iff bit_simps)

lemma of_nat_u32_eq_0: "n < 2 ^ 32 \<Longrightarrow> (of_nat n :: u32) = 0 \<longleftrightarrow> n = 0"
  using unat_eqI [of "of_nat n" n] by (auto simp: word_unat_eq_iff)

lemma irq_simps [simp]:
  "interrupts_on (s\<lparr>critical_depth := d\<rparr>) = interrupts_on s"
  "interrupts_on (s\<lparr>critical_saved_flags := f\<rparr>) = interrupts_on s"
  "critical_depth (cli s) = critical_depth s" "critical_saved_flags (cli s) = critical_saved_flags s"
  by (simp_all add: interrupts_on_def cli_def)

lemma crit_inv_enter:
  "crit_inv f d s \<Longrightarrow> Suc d < 2 ^ 32 \<Longrightarrow> crit_inv f (Suc d) (enter_critical s)"
  using of_nat_u32_eq_0 [of d] by (auto simp: crit_inv_def enter_critical_def Let_def split: if_splits)

lemma crit_inv_leave: "crit_inv f (Suc d) s \<Longrightarrow> crit_inv f d (leave_critical s)"
  using of_nat_u32_eq_0 [of d] by (auto simp: crit_inv_def leave_critical_def Let_def split: if_splits)

lemma crit_inv_nests:
  "nests d cs = Some d' \<Longrightarrow> crit_inv f d s \<Longrightarrow> crit_inv f d' (fold crit_step cs s)"
proof (induction cs arbitrary: d s)
  case (Cons c cs)
  then show ?case
  proof (cases c)
    case Leave
    with Cons.prems obtain n where "d = Suc n" by (cases d) (auto split: if_splits)
    with Cons Leave crit_inv_leave [of f n s] show ?thesis by (auto split: if_splits)
  qed (use Cons crit_inv_enter [of f d s] in \<open>auto split: if_splits\<close>)
qed simp

section \<open>The processor\<close>

record cpu =
  eax :: u32
  ecx :: u32
  edx :: u32
  ebx :: u32
  esp :: u32
  ebp :: u32
  esi :: u32
  edi :: u32
  ds :: u32
  es :: u32
  fs :: u32
  gs :: u32
  cs :: u32
  ss :: u32
  eip :: u32
  flags :: u32
  mem :: "u32 \<Rightarrow> u32"

definition push :: "u32 \<Rightarrow> cpu \<Rightarrow> cpu" where
  "push v c = c\<lparr>esp := esp c - 4, mem := (mem c)(esp c - 4 := v)\<rparr>"

definition pop :: "cpu \<Rightarrow> u32 \<times> cpu" where
  "pop c = (mem c (esp c), c\<lparr>esp := esp c + 4\<rparr>)"

definition pusha :: "cpu \<Rightarrow> cpu" where
  "pusha c =
     (let temp = esp c
      in push (edi c) (push (esi c) (push (ebp c) (push temp (push (ebx c) (push (edx c)
           (push (ecx c) (push (eax c) c))))))))"

definition popa :: "cpu \<Rightarrow> cpu" where
  "popa c =
     (let (v, c) = pop c; c = c\<lparr>edi := v\<rparr>;
          (v, c) = pop c; c = c\<lparr>esi := v\<rparr>;
          (v, c) = pop c; c = c\<lparr>ebp := v\<rparr>;
          (v, c) = pop c;
          (v, c) = pop c; c = c\<lparr>ebx := v\<rparr>;
          (v, c) = pop c; c = c\<lparr>edx := v\<rparr>;
          (v, c) = pop c; c = c\<lparr>ecx := v\<rparr>;
          (v, c) = pop c
      in c\<lparr>eax := v\<rparr>)"

definition ret :: "cpu \<Rightarrow> cpu" where
  "ret c = (let (v, c) = pop c in c\<lparr>eip := v\<rparr>)"

text \<open>\<open>iret\<close> to the same ring, and to the outer ring.\<close>

definition iret_r0 :: "cpu \<Rightarrow> cpu" where
  "iret_r0 c =
     (let (v, c) = pop c; c = c\<lparr>eip := v\<rparr>;
          (v, c) = pop c; c = c\<lparr>cs := v\<rparr>;
          (v, c) = pop c
      in c\<lparr>flags := v\<rparr>)"

definition iret_r3 :: "cpu \<Rightarrow> cpu" where
  "iret_r3 c =
     (let c = iret_r0 c;
          (new_esp, c) = pop c;
          (new_ss, c) = pop c
      in c\<lparr>esp := new_esp, ss := new_ss\<rparr>)"

section \<open>Saving and restoring a context\<close>

definition save_context :: "cpu \<Rightarrow> cpu" where
  "save_context c =
     (let c = pusha c;
          c = push (ds c) c;
          c = push (es c) c;
          c = push (fs c) c
      in push (gs c) c)"

definition restore_context :: "cpu \<Rightarrow> cpu" where
  "restore_context c =
     (let (v, c) = pop c; c = c\<lparr>gs := v\<rparr>;
          (v, c) = pop c; c = c\<lparr>fs := v\<rparr>;
          (v, c) = pop c; c = c\<lparr>es := v\<rparr>;
          (v, c) = pop c; c = c\<lparr>ds := v\<rparr>
      in ret (popa c))"

text \<open>
  \<open>scheduler_entry\<close>: the scheduler gets the stack pointer after the registers are saved, and
  the registers are restored from the stack it returns. The frame of the call itself lies below
  the saved registers and is dropped by the switch of stacks.
\<close>

definition scheduler_entry :: "cpu \<times> sched \<Rightarrow> (cpu \<times> sched) result" where
  "scheduler_entry = (\<lambda>(c, s).
     let c = save_context c;
         old_esp = esp c;
         c = push old_esp c
     in rbind (scheduler old_esp s) (\<lambda>(new_esp, s).
          let c = c\<lparr>eax := new_esp\<rparr>;
              c = c\<lparr>esp := esp c + 4\<rparr>;
              c = c\<lparr>esp := eax c\<rparr>
          in Inr (restore_context c, s)))"

definition kthread_trampoline :: "cpu \<Rightarrow> cpu" where
  "kthread_trampoline c = iret_r0 (push (ebx c) (push 0x08 (push 0x202 c)))"

definition uthread_trampoline :: "cpu \<Rightarrow> cpu" where
  "uthread_trampoline c =
     (let c = push (ebx c) (push 0x1B (push 0x202 (push (esi c) (push 0x23 c))));
          c = c\<lparr>eax := eax c AND NOT 0xFFFF OR 0x23\<rparr>;
          c = c\<lparr>ds := 0x23, es := 0x23, fs := 0x23, gs := 0x23\<rparr>
      in iret_r3 c)"

section \<open>Frames on the stack\<close>

text \<open>
  \<open>SwitchFrame\<close> of \<open>kernel/kernel.hpp\<close>, in the order of its fields, at address \<open>b\<close>. The stack
  pointer in it is not used.
\<close>

record switch_frame =
  f_gs :: u32
  f_fs :: u32
  f_es :: u32
  f_ds :: u32
  f_edi :: u32
  f_esi :: u32
  f_ebp :: u32
  f_esp_unused :: u32
  f_ebx :: u32
  f_edx :: u32
  f_ecx :: u32
  f_eax :: u32
  f_return_eip :: u32

definition sizeof_SwitchFrame :: u32 where "sizeof_SwitchFrame = 52"

definition read_frame :: "(u32 \<Rightarrow> u32) \<Rightarrow> u32 \<Rightarrow> switch_frame" where
  "read_frame m b =
     \<lparr>f_gs = m b, f_fs = m (b + 4), f_es = m (b + 8), f_ds = m (b + 12), f_edi = m (b + 16),
      f_esi = m (b + 20), f_ebp = m (b + 24), f_esp_unused = m (b + 28), f_ebx = m (b + 32),
      f_edx = m (b + 36), f_ecx = m (b + 40), f_eax = m (b + 44), f_return_eip = m (b + 48)\<rparr>"

definition write_frame :: "switch_frame \<Rightarrow> u32 \<Rightarrow> (u32 \<Rightarrow> u32) \<Rightarrow> (u32 \<Rightarrow> u32)" where
  "write_frame f b m =
     m(b := f_gs f, b + 4 := f_fs f, b + 8 := f_es f, b + 12 := f_ds f, b + 16 := f_edi f,
       b + 20 := f_esi f, b + 24 := f_ebp f, b + 28 := f_esp_unused f, b + 32 := f_ebx f,
       b + 36 := f_edx f, b + 40 := f_ecx f, b + 44 := f_eax f, b + 48 := f_return_eip f)"

lemmas offset_simps = add.assoc add_diff_eq [symmetric]

lemma read_write_frame [simp]: "read_frame (write_frame f b m) b = f"
  by (simp add: read_frame_def write_frame_def)

text \<open>Restoring loads exactly a \<open>SwitchFrame\<close>.\<close>

lemma restore_context_frame:
  assumes "read_frame (mem c) (esp c) = f"
  shows "restore_context c = c\<lparr>gs := f_gs f, fs := f_fs f, es := f_es f, ds := f_ds f, edi := f_edi f,
    esi := f_esi f, ebp := f_ebp f, ebx := f_ebx f, edx := f_edx f, ecx := f_ecx f, eax := f_eax f,
    eip := f_return_eip f, esp := esp c + sizeof_SwitchFrame\<rparr>"
  using assms
  by (auto simp: restore_context_def ret_def popa_def pop_def Let_def read_frame_def offset_simps
      sizeof_SwitchFrame_def)

text \<open>Saving writes one, above the return address that the call of \<open>scheduler_entry\<close> pushed.\<close>

lemma save_context_frame:
  fixes c :: cpu
  defines "b \<equiv> esp c - 48"
  shows "esp (save_context c) = b"
    "read_frame (mem (save_context c)) b =
       \<lparr>f_gs = gs c, f_fs = fs c, f_es = es c, f_ds = ds c, f_edi = edi c, f_esi = esi c,
        f_ebp = ebp c, f_esp_unused = esp c, f_ebx = ebx c, f_edx = edx c, f_ecx = ecx c,
        f_eax = eax c, f_return_eip = mem c (esp c)\<rparr>"
proof -
  have e: "esp c = b + 48" by (simp add: b_def)
  show "esp (save_context c) = b"
    by (simp add: save_context_def pusha_def push_def Let_def e offset_simps)
  show "read_frame (mem (save_context c)) b =
       \<lparr>f_gs = gs c, f_fs = fs c, f_es = es c, f_ds = ds c, f_edi = edi c, f_esi = esi c,
        f_ebp = ebp c, f_esp_unused = esp c, f_ebx = ebx c, f_edx = edx c, f_ecx = ecx c,
        f_eax = eax c, f_return_eip = mem c (esp c)\<rparr>"
    by (simp add: save_context_def pusha_def push_def Let_def e offset_simps read_frame_def)
qed

lemma kthread_trampoline_run:
  "kthread_trampoline c = c\<lparr>eip := ebx c, cs := 0x08, flags := 0x202,
     mem := (mem c)(esp c - 4 := 0x202, esp c - 8 := 0x08, esp c - 12 := ebx c)\<rparr>"
  by (simp add: kthread_trampoline_def iret_r0_def push_def pop_def Let_def diff_diff_eq offset_simps fun_upd_twist)

lemma uthread_trampoline_run:
  "uthread_trampoline c = c\<lparr>eax := eax c AND NOT 0xFFFF OR 0x23, ds := 0x23, es := 0x23, fs := 0x23, gs := 0x23,
     eip := ebx c, cs := 0x1B, flags := 0x202, esp := esi c, ss := 0x23,
     mem := (mem c)(esp c - 4 := 0x23, esp c - 8 := esi c, esp c - 12 := 0x202, esp c - 16 := 0x1B,
       esp c - 20 := ebx c)\<rparr>"
  by (simp add: uthread_trampoline_def iret_r3_def iret_r0_def push_def pop_def Let_def diff_diff_eq offset_simps fun_upd_twist)

section \<open>Properties\<close>

text \<open>C16: critical sections nest. From outside any section, a sequence of entries and exits that
  never leaves more sections than it entered keeps interrupts off while some section is open,
  and gives back the processor flags exactly when the last one is left.\<close>

theorem critical_sections_nest:
  assumes "critical_depth s = 0" "nests 0 ops = Some d"
  shows "critical_depth (fold crit_step ops s) = of_nat d \<and>
    (if d = 0 then eflags (fold crit_step ops s) = eflags s
     else critical_saved_flags (fold crit_step ops s) = eflags s \<and> \<not> interrupts_on (fold crit_step ops s))"
  using crit_inv_nests [OF assms(2), of "eflags s" s] assms(1) by (simp add: crit_inv_def)

theorem critical_sections_nest_witness:
  "eflags (fold crit_step [Enter, Enter, Leave, Leave]
     \<lparr>critical_depth = 0, critical_saved_flags = 0, eflags = 0x202\<rparr>) = 0x202"
  using critical_sections_nest [of "\<lparr>critical_depth = 0, critical_saved_flags = 0, eflags = 0x202\<rparr>"
    "[Enter, Enter, Leave, Leave]" 0] by simp

text \<open>The depth is one variable for all threads. A thread that runs with interrupts on while
  another one is blocked inside a section (depth not 0) loses its interrupt flag by entering
  and leaving a section of its own.\<close>

theorem critical_depth_is_shared:
  assumes "critical_depth s \<noteq> 0" "interrupts_on s"
  shows "\<not> interrupts_on (leave_critical (enter_critical s))"
  using assms by (simp add: enter_critical_def leave_critical_def Let_def)

theorem critical_depth_is_shared_witness:
  "\<not> interrupts_on (leave_critical (enter_critical
     \<lparr>critical_depth = 1, critical_saved_flags = 0x202, eflags = 0x202\<rparr>))"
  using critical_depth_is_shared [of "\<lparr>critical_depth = 1, critical_saved_flags = 0x202, eflags = 0x202\<rparr>"]
  by (simp add: interrupts_on_def IF_mask_def)

text \<open>A context survives the switch. If the words that \<open>scheduler_entry\<close> saved on a thread's
  stack are still there when the scheduler returns that stack, every register has the value it
  had at the call, whatever the others are, and execution continues after the call.\<close>

theorem context_survives:
  assumes "read_frame (mem c') (esp c - 48) = read_frame (mem (save_context c)) (esp c - 48)"
  shows "restore_context (c'\<lparr>esp := esp (save_context c)\<rparr>) =
    c'\<lparr>eax := eax c, ecx := ecx c, edx := edx c, ebx := ebx c, ebp := ebp c, esi := esi c, edi := edi c,
       ds := ds c, es := es c, fs := fs c, gs := gs c, eip := mem c (esp c), esp := esp c + 4\<rparr>"
  using restore_context_frame [of "c'\<lparr>esp := esp (save_context c)\<rparr>"] assms
  by (simp add: save_context_frame sizeof_SwitchFrame_def)

definition demo_cpu :: "u32 \<Rightarrow> u32 \<Rightarrow> cpu" where
  "demo_cpu v e = \<lparr>eax = v, ecx = v, edx = v, ebx = v, esp = e, ebp = v, esi = v, edi = v, ds = v, es = v,
     fs = v, gs = v, cs = v, ss = v, eip = v, flags = v, mem = (\<lambda>_. 77)\<rparr>"

theorem context_survives_witness:
  "ebx (restore_context ((demo_cpu 9 500)\<lparr>mem := mem (save_context (demo_cpu 5 1000)),
     esp := esp (save_context (demo_cpu 5 1000))\<rparr>)) = 5"
  using context_survives [of "(demo_cpu 9 500)\<lparr>mem := mem (save_context (demo_cpu 5 1000))\<rparr>" "demo_cpu 5 1000"]
  by (simp add: demo_cpu_def)

text \<open>A thread that calls \<open>scheduler_entry\<close> while no other thread is ready returns from the
  call with all its registers.\<close>

theorem scheduler_entry_alone:
  assumes "sched_inv s [t] bs" "reap_heap s = Inr h"
  shows "\<exists>c' s'. scheduler_entry (c, s) = Inr (c', s') \<and> sched_inv s' [t] bs \<and>
    c' = c\<lparr>esp := esp c + 4, eip := mem c (esp c), mem := mem c'\<rparr>"
proof -
  define b where "b = esp c - 48"
  obtain s' e where run: "scheduler b s = Inr (e, s')" "switched b e s s'" "sched_inv s' [t] bs"
    by (rule yield_sim [OF assms, of b]) auto
  have "current_running s = t" "current_running s' = t"
    using sched_relD(2) [OF sched_invD(1)] assms(1) run(3) by fastforce+
  with run(2) have e: "e = b" by (simp add: switched_def)
  let ?c = "(push b (save_context c))\<lparr>eax := b\<rparr>"
  have m: "mem ?c = (mem (save_context c))(b - 4 := b)" "esp (save_context c) = b"
    by (simp_all add: push_def save_context_frame b_def)
  have "read_frame (mem ?c) b = read_frame (mem (save_context c)) b"
    unfolding m read_frame_def by (simp add: eq_diff_eq add.assoc)
  then have "restore_context (?c\<lparr>esp := b\<rparr>) = ?c\<lparr>eax := eax c, ecx := ecx c, edx := edx c, ebx := ebx c,
      ebp := ebp c, esi := esi c, edi := edi c, ds := ds c, es := es c, fs := fs c, gs := gs c,
      eip := mem c (esp c), esp := esp c + 4\<rparr>"
    using restore_context_frame [of "?c\<lparr>esp := b\<rparr>"] save_context_frame(2) [of c]
    by (simp add: sizeof_SwitchFrame_def b_def)
  then show ?thesis
    using run(1,3) e m(2)
    by (simp add: scheduler_entry_def Let_def save_context_def pusha_def push_def)
qed

theorem scheduler_entry_alone_witness:
  "\<exists>c' s'. scheduler_entry (demo_cpu 5 1000, demo_sched\<lparr>threads := (threads demo_sched)(16 := demo_thread READY 16 16 0)\<rparr>)
     = Inr (c', s') \<and> eip c' = 77 \<and> esp c' = 1004 \<and> ebx c' = 5"
proof -
  let ?s = "demo_sched\<lparr>threads := (threads demo_sched)(16 := demo_thread READY 16 16 0)\<rparr>"
  have "sched_inv ?s [16] ((\<lambda>_. [])(0 := [48]))" "reap_heap ?s = Inr small_heap"
    by (auto simp: sched_inv_def sched_rel_def demo_sched_def demo_thread_def ring_def reap_heap_def)
  then obtain c' s' where run: "scheduler_entry (demo_cpu 5 1000, ?s) = Inr (c', s')"
      "c' = (demo_cpu 5 1000)\<lparr>esp := esp (demo_cpu 5 1000) + 4, eip := mem (demo_cpu 5 1000) (esp (demo_cpu 5 1000)), mem := mem c'\<rparr>"
    using scheduler_entry_alone [of ?s 16 _ small_heap "demo_cpu 5 1000"] by blast
  have "eip c' = 77" "esp c' = 1004" "ebx c' = 5" by (subst run(2), simp add: demo_cpu_def)+
  with run(1) show ?thesis by blast
qed

end
