(* ===== verification/Traps.thy ===== *)
theory Traps
  imports Entry
begin

text \<open>
  The entry points of \<open>kernel/entry.S\<close> that a trap or a call reaches: \<open>timer_handler\<close>,
  \<open>syscall_entry\<close>, \<open>direct_scheduler_entry\<close>, with the interrupt the processor performs, and the
  system call stub of \<open>lib/syslib.cpp\<close>. A switch continues wherever the resumed thread left
  off, so the code after a switch is chosen by the instruction pointer.
\<close>

section \<open>Interrupts of the processor\<close>

text \<open>An interrupt from ring 3 moves to the stack \<open>esp0\<close> of the task state segment, one from ring 0
  stays on the current stack.\<close>

definition interrupt_r3 :: "u32 \<Rightarrow> u32 \<Rightarrow> cpu \<Rightarrow> cpu" where
  "interrupt_r3 handler esp0 c =
     (let c' = push (eip c) (push (cs c) (push (flags c) (push (esp c) (push (ss c) (c\<lparr>esp := esp0, ss := 0x10\<rparr>)))))
      in c'\<lparr>cs := 0x08, eip := handler, flags := flags c AND NOT IF_mask\<rparr>)"

definition interrupt_r0 :: "u32 \<Rightarrow> cpu \<Rightarrow> cpu" where
  "interrupt_r0 handler c =
     (let c' = push (eip c) (push (cs c) (push (flags c) c))
      in c'\<lparr>cs := 0x08, eip := handler, flags := flags c AND NOT IF_mask\<rparr>)"

text \<open>\<open>iret\<close> returns to the ring in the code segment on the stack.\<close>

definition iret :: "cpu \<Rightarrow> cpu" where
  "iret c = (if mem c (esp c + 4) AND 3 = 3 then iret_r3 c else iret_r0 c)"

section \<open>Entry points\<close>

text \<open>Addresses the linker chooses: of the instructions after the two calls of \<open>scheduler_entry\<close>
  in \<open>entry.S\<close>, and of the trampolines.\<close>

record labels =
  timer_ret :: u32
  direct_ret :: u32
  ktramp :: u32
  utramp :: u32

definition labels_ok :: "labels \<Rightarrow> bool" where
  "labels_ok L \<longleftrightarrow> distinct [timer_ret L, direct_ret L, ktramp L, utramp L]"

definition after_switch :: "labels \<Rightarrow> cpu \<Rightarrow> cpu" where
  "after_switch L c =
     (if eip c = timer_ret L then iret (popa c)
      else if eip c = direct_ret L then iret c
      else if eip c = ktramp L then kthread_trampoline c
      else if eip c = utramp L then uthread_trampoline c
      else c)"

text \<open>\<open>timer_handler\<close> up to its call of \<open>scheduler_entry\<close>, and all of it. The end-of-interrupt
  command to the interrupt controller changes \<open>al\<close> only.\<close>

definition timer_prologue :: "labels \<Rightarrow> cpu \<Rightarrow> cpu" where
  "timer_prologue L c =
     (let c = pusha c;
          c = c\<lparr>eax := eax c AND NOT 0xFF OR 0x20\<rparr>
      in push (timer_ret L) c)"

definition timer_handler :: "labels \<Rightarrow> cpu \<times> sched \<Rightarrow> (cpu \<times> sched) result" where
  "timer_handler L = (\<lambda>(c, s).
     rbind (scheduler_entry (timer_prologue L c, s)) (\<lambda>(c, s). Inr (after_switch L c, s)))"

definition direct_prologue :: "labels \<Rightarrow> cpu \<Rightarrow> cpu" where
  "direct_prologue L c =
     (let c = push (flags c) c;
          c = push (cs c) c;
          c = push (mem c (esp c + 8)) c;
          c = c\<lparr>flags := flags c AND NOT IF_mask\<rparr>
      in push (direct_ret L) c)"

definition direct_scheduler_entry :: "labels \<Rightarrow> cpu \<times> sched \<Rightarrow> (cpu \<times> sched) result" where
  "direct_scheduler_entry L = (\<lambda>(c, s).
     rbind (scheduler_entry (direct_prologue L c, s)) (\<lambda>(c, s). Inr (after_switch L c, s)))"

text \<open>\<open>syscall_entry\<close>. The compiled \<open>syscall_handler\<close> is a function from the registers and memory at
  its call to those at its return.\<close>

definition syscall_entry :: "(cpu \<Rightarrow> cpu) \<Rightarrow> cpu \<Rightarrow> cpu" where
  "syscall_entry handler c =
     (let c = pusha c;
          c = push (eax c) (push (ebx c) (push (ecx c) (push (edx c) (push (esi c) (push (edi c) c)))));
          c = handler c;
          c = c\<lparr>esp := esp c + 24\<rparr>;
          c = c\<lparr>mem := (mem c)(esp c + 28 := eax c)\<rparr>;
          c = popa c
      in iret c)"

text \<open>\<open>invoke_syscall\<close> of \<open>lib/syslib.cpp\<close>, in ring 3: \<open>int $0x80\<close> with the arguments in registers; the
  instruction after it is at \<open>eip\<close>.\<close>

definition invoke_syscall :: "(cpu \<Rightarrow> cpu) \<Rightarrow> u32 \<Rightarrow> u32 \<Rightarrow> u32 \<Rightarrow> u32 \<Rightarrow> u32 \<Rightarrow> u32 \<Rightarrow> u32 \<Rightarrow> u32 \<Rightarrow> cpu \<Rightarrow> u32 \<times> cpu" where
  "invoke_syscall handler entry_eip esp0 syscall_id arg1 arg2 arg3 arg4 arg5 c =
     (let c = c\<lparr>eax := syscall_id, ebx := arg1, ecx := arg2, edx := arg3, esi := arg4, edi := arg5\<rparr>;
          c = interrupt_r3 entry_eip esp0 c;
          c = syscall_entry handler c
      in (eax c, c))"

text \<open>The words on the stack from \<open>b\<close> upwards.\<close>

fun stack_words :: "(u32 \<Rightarrow> u32) \<Rightarrow> u32 \<Rightarrow> u32 list \<Rightarrow> bool" where
  "stack_words m b [] \<longleftrightarrow> True"
| "stack_words m b (x # xs) \<longleftrightarrow> m b = x \<and> stack_words m (b + 4) xs"

text \<open>The calling convention of a function with four arguments that computes \<open>h\<close>: the arguments are
  on the stack, the result is in \<open>eax\<close>, the callee restores \<open>ebx\<close>, \<open>esi\<close>, \<open>edi\<close>, \<open>ebp\<close>, \<open>esp\<close> and
  the segments, and leaves the 13 words above the six it was given as they are.\<close>

definition cdecl :: "(u32 \<Rightarrow> u32 \<Rightarrow> u32 \<Rightarrow> u32 \<Rightarrow> u32) \<Rightarrow> (cpu \<Rightarrow> cpu) \<Rightarrow> bool" where
  "cdecl h f \<longleftrightarrow> (\<forall>c. eax (f c) = h (mem c (esp c)) (mem c (esp c + 4)) (mem c (esp c + 8)) (mem c (esp c + 12)) \<and>
     ebx (f c) = ebx c \<and> esi (f c) = esi c \<and> edi (f c) = edi c \<and> ebp (f c) = ebp c \<and> esp (f c) = esp c \<and>
     ds (f c) = ds c \<and> es (f c) = es c \<and> fs (f c) = fs c \<and> gs (f c) = gs c \<and> cs (f c) = cs c \<and> ss (f c) = ss c \<and>
     (\<forall>xs. length xs = 13 \<longrightarrow> stack_words (mem c) (esp c + 24) xs \<longrightarrow> stack_words (mem (f c)) (esp c + 24) xs))"

lemma cdeclD:
  assumes "cdecl h f"
  shows "eax (f c) = h (mem c (esp c)) (mem c (esp c + 4)) (mem c (esp c + 8)) (mem c (esp c + 12))"
    "ebx (f c) = ebx c" "esi (f c) = esi c" "edi (f c) = edi c" "ebp (f c) = ebp c" "esp (f c) = esp c"
    "ds (f c) = ds c" "es (f c) = es c" "fs (f c) = fs c" "gs (f c) = gs c" "cs (f c) = cs c" "ss (f c) = ss c"
    "stack_words (mem c) (esp c + 24) xs \<Longrightarrow> length xs = 13 \<Longrightarrow> stack_words (mem (f c)) (esp c + 24) xs"
  using assms unfolding cdecl_def by blast+

text \<open>The state at the call of \<open>syscall_handler\<close>: its arguments, the registers, the interrupt frame.\<close>

definition syscall_call :: "cpu \<Rightarrow> cpu" where
  "syscall_call c =
     (let c = pusha c
      in push (eax c) (push (ebx c) (push (ecx c) (push (edx c) (push (esi c) (push (edi c) c))))))"

lemma syscall_call_state:
  fixes c :: cpu and b e :: u32
  defines "c' \<equiv> syscall_call (interrupt_r3 e (b + 76) c)"
  shows "stack_words (mem c') b [eax c, ebx c, ecx c, edx c, esi c, edi c]"
    "stack_words (mem c') (b + 24) [edi c, esi c, ebp c, b + 56, ebx c, edx c, ecx c, eax c, eip c, cs c, flags c, esp c, ss c]"
    "c' = c\<lparr>esp := b, ss := 0x10, cs := 0x08, eip := e, flags := flags c AND NOT IF_mask, mem := mem c'\<rparr>"
  unfolding c'_def
  by (simp_all add: syscall_call_def interrupt_r3_def pusha_def push_def Let_def offset_simps)

lemma syscall_entry_split:
  "syscall_entry f c =
     (let c' = f (syscall_call c);
          c' = c'\<lparr>esp := esp c' + 24\<rparr>
      in iret (popa (c'\<lparr>mem := (mem c')(esp c' + 28 := eax c')\<rparr>)))"
  by (simp add: syscall_entry_def syscall_call_def Let_def)

lemma popa_words:
  assumes "stack_words (mem c) (esp c) [di, si, bp, x, bx, dx, cx, ax]"
  shows "popa c = c\<lparr>edi := di, esi := si, ebp := bp, ebx := bx, edx := dx, ecx := cx, eax := ax, esp := esp c + 32\<rparr>"
  using assms by (auto simp: popa_def pop_def Let_def offset_simps)

lemma iret_words:
  "stack_words (mem c) (esp c) [ip, k, fl, sp', s'] \<Longrightarrow> k AND 3 = 3 \<Longrightarrow>
     iret c = c\<lparr>eip := ip, cs := k, flags := fl, esp := sp', ss := s'\<rparr>"
  "stack_words (mem c) (esp c) [ip, k, fl] \<Longrightarrow> k AND 3 \<noteq> 3 \<Longrightarrow>
     iret c = c\<lparr>eip := ip, cs := k, flags := fl, esp := esp c + 12\<rparr>"
  by (auto simp: iret_def iret_r3_def iret_r0_def pop_def Let_def offset_simps)

text \<open>The stack of a thread that \<open>scheduler_entry\<close> switched away from.\<close>

lemma stack_words_cong:
  "(\<And>k. k < length xs \<Longrightarrow> m (b + 4 * of_nat k) = m' (b + 4 * of_nat k)) \<Longrightarrow> stack_words m b xs = stack_words m' b xs"
proof (induction xs arbitrary: b)
  case (Cons x xs)
  have "m (b + 4 + 4 * of_nat k) = m' (b + 4 + 4 * of_nat k)" if "k < length xs" for k
    using Cons.prems [of "Suc k"] that by (simp add: algebra_simps)
  with Cons.IH [of "b + 4"] Cons.prems [of 0] show ?case by simp
qed simp

lemma restore_words:
  assumes "stack_words (mem c) (esp c) [g, f, e, d, di, si, bp, x, bx, dx, cx, ax, ip]"
  shows "restore_context c = c\<lparr>gs := g, fs := f, es := e, ds := d, edi := di, esi := si, ebp := bp, ebx := bx, edx := dx,
    ecx := cx, eax := ax, eip := ip, esp := esp c + 52\<rparr>"
  using assms by (auto simp: restore_context_def ret_def popa_def pop_def Let_def offset_simps)

text \<open>The top of the stack as a list of words: pushing a word is \<open>Cons\<close>.\<close>

definition stacked :: "cpu \<Rightarrow> u32 list \<Rightarrow> bool" where
  "stacked c xs \<longleftrightarrow> stack_words (mem c) (esp c) xs \<and> length xs < 100"

lemma stack_words_below:
  "length xs + n < 1000 \<Longrightarrow> stack_words (m(b - 4 := v)) (b + 4 * of_nat n) xs = stack_words m (b + 4 * of_nat n) xs"
proof (induction xs arbitrary: n)
  case (Cons x xs)
  have "unat (4 + 4 * of_nat n :: u32) = 4 + 4 * n" using Cons.prems by (intro unat_eqI) simp_all
  then have "4 + 4 * of_nat n \<noteq> (0 :: u32)" by (metis add_eq_0_iff_both_eq_0 unat_eq_zero zero_neq_numeral)
  then have "b + 4 * of_nat n \<noteq> b - 4" by (simp add: eq_diff_eq add.assoc add.commute)
  moreover have e: "b + 4 * of_nat n + 4 = b + 4 * of_nat (Suc n)" by (simp add: add.assoc add.commute)
  ultimately show ?case using Cons.IH [of "Suc n"] Cons.prems unfolding stack_words.simps e by (simp add: fun_upd_def)
qed simp

lemma stacked_push [intro]: "stacked c xs \<Longrightarrow> length xs < 99 \<Longrightarrow> stacked (push v c) (v # xs)"
  using stack_words_below [of xs 0 "mem c" "esp c" v] by (simp add: stacked_def push_def)

lemma stacked_Nil [simp]: "stacked c []"
  by (simp add: stacked_def)

lemma stacked_regs [simp]:
  "stacked (c\<lparr>eax := v\<rparr>) xs = stacked c xs" "stacked (c\<lparr>flags := v\<rparr>) xs = stacked c xs"
  "stacked (c\<lparr>cs := v\<rparr>) xs = stacked c xs" "stacked (c\<lparr>eip := v\<rparr>) xs = stacked c xs"
  by (simp_all add: stacked_def)

lemma push_regs [simp]:
  "eax (push v c) = eax c" "ecx (push v c) = ecx c" "edx (push v c) = edx c" "ebx (push v c) = ebx c" "ebp (push v c) = ebp c"
  "esi (push v c) = esi c" "edi (push v c) = edi c" "ds (push v c) = ds c" "es (push v c) = es c" "fs (push v c) = fs c"
  "gs (push v c) = gs c" "cs (push v c) = cs c" "ss (push v c) = ss c" "flags (push v c) = flags c" "eip (push v c) = eip c"
  "esp (push v c) = esp c - 4"
  by (simp_all add: push_def)

lemma stacked_pusha:
  "stacked c xs \<Longrightarrow> length xs < 80 \<Longrightarrow>
     stacked (pusha c) (edi c # esi c # ebp c # esp c # ebx c # edx c # ecx c # eax c # xs)"
  unfolding pusha_def Let_def by (intro stacked_push) simp_all

lemma pusha_regs [simp]:
  "eax (pusha c) = eax c" "ecx (pusha c) = ecx c" "edx (pusha c) = edx c" "ebx (pusha c) = ebx c" "ebp (pusha c) = ebp c"
  "esi (pusha c) = esi c" "edi (pusha c) = edi c" "ds (pusha c) = ds c" "es (pusha c) = es c" "fs (pusha c) = fs c"
  "gs (pusha c) = gs c" "cs (pusha c) = cs c" "ss (pusha c) = ss c" "flags (pusha c) = flags c" "eip (pusha c) = eip c"
  "esp (pusha c) = esp c - 32"
  by (simp_all add: pusha_def Let_def)

lemma stacked_save_context:
  "stacked c xs \<Longrightarrow> length xs < 60 \<Longrightarrow>
     stacked (save_context c) (gs c # fs c # es c # ds c # edi c # esi c # ebp c # esp c # ebx c # edx c # ecx c # eax c # xs)"
  "esp (save_context c) = esp c - 48"
  unfolding save_context_def Let_def
  by (auto intro!: stacked_push dest: stacked_pusha)

lemma timer_saved:
  assumes "stacked c xs" "length xs < 40"
  shows "stacked (save_context (timer_prologue L c)) ([gs c, fs c, es c, ds c, edi c, esi c, ebp c, esp c - 36, ebx c, edx c, ecx c,
      eax c AND NOT 0xFF OR 0x20, timer_ret L, edi c, esi c, ebp c, esp c, ebx c, edx c, ecx c, eax c] @ xs)"
    "esp (save_context (timer_prologue L c)) = esp c - 84"
proof -
  have "stacked (timer_prologue L c) (timer_ret L # edi c # esi c # ebp c # esp c # ebx c # edx c # ecx c # eax c # xs)"
    unfolding timer_prologue_def Let_def using stacked_pusha [OF assms(1)] assms(2) by (intro stacked_push) simp_all
  from stacked_save_context(1) [OF this] assms(2)
  show "stacked (save_context (timer_prologue L c)) ([gs c, fs c, es c, ds c, edi c, esi c, ebp c, esp c - 36, ebx c, edx c, ecx c,
      eax c AND NOT 0xFF OR 0x20, timer_ret L, edi c, esi c, ebp c, esp c, ebx c, edx c, ecx c, eax c] @ xs)"
    by (simp add: timer_prologue_def Let_def)
  show "esp (save_context (timer_prologue L c)) = esp c - 84"
    by (simp add: stacked_save_context(2) timer_prologue_def Let_def)
qed

lemma direct_saved:
  "stacked (save_context (direct_prologue L c)) [gs c, fs c, es c, ds c, edi c, esi c, ebp c, esp c - 16, ebx c, edx c, ecx c, eax c,
     direct_ret L, mem c (esp c), cs c, flags c]"
  "esp (save_context (direct_prologue L c)) = esp c - 64"
proof -
  have m: "mem (push (cs c) (push (flags c) c)) (esp (push (cs c) (push (flags c) c)) + 8) = mem c (esp c)"
    by (simp add: push_def offset_simps)
  have "stacked (direct_prologue L c) [direct_ret L, mem c (esp c), cs c, flags c]"
    unfolding direct_prologue_def Let_def using m by (auto intro!: stacked_push)
  from stacked_save_context(1) [OF this]
  show "stacked (save_context (direct_prologue L c)) [gs c, fs c, es c, ds c, edi c, esi c, ebp c, esp c - 16, ebx c, edx c, ecx c, eax c,
     direct_ret L, mem c (esp c), cs c, flags c]"
    by (simp add: direct_prologue_def Let_def)
  show "esp (save_context (direct_prologue L c)) = esp c - 64"
    by (simp add: stacked_save_context(2) direct_prologue_def Let_def)
qed

text \<open>A thread interrupted by the timer, up to the \<open>iret\<close>.\<close>

lemma resume_timer:
  assumes "stack_words m b ([gs c, fs c, es c, ds c, edi c, esi c, ebp c, x, ebx c, edx c, ecx c, y,
     timer_ret L, edi c, esi c, ebp c, z, ebx c, edx c, ecx c, eax c] @ ws)"
  shows "after_switch L (restore_context (c'\<lparr>mem := m, esp := b\<rparr>)) =
      iret (c\<lparr>mem := m, esp := b + 84, eip := timer_ret L, cs := cs c', ss := ss c', flags := flags c'\<rparr>)"
    "stack_words m (b + 84) ws"
proof -
  let ?c = "c'\<lparr>mem := m, esp := b\<rparr>"
  have r: "restore_context ?c = ?c\<lparr>gs := gs c, fs := fs c, es := es c, ds := ds c, edi := edi c, esi := esi c, ebp := ebp c,
      ebx := ebx c, edx := edx c, ecx := ecx c, eax := y, eip := timer_ret L, esp := b + 52\<rparr>"
    (is "_ = ?r") by (rule trans [OF restore_words]) (use assms in \<open>simp_all add: add.assoc\<close>)
  have p: "popa ?r = ?r\<lparr>edi := edi c, esi := esi c, ebp := ebp c, ebx := ebx c, edx := edx c, ecx := ecx c, eax := eax c, esp := b + 84\<rparr>"
    by (rule trans [OF popa_words]) (use assms in \<open>simp_all add: add.assoc\<close>)
  have "popa ?r = c\<lparr>mem := m, esp := b + 84, eip := timer_ret L, cs := cs c', ss := ss c', flags := flags c'\<rparr>"
    unfolding p by (rule cpu.equality) simp_all
  then show "after_switch L (restore_context ?c) =
      iret (c\<lparr>mem := m, esp := b + 84, eip := timer_ret L, cs := cs c', ss := ss c', flags := flags c'\<rparr>)"
    by (simp add: after_switch_def r)
  show "stack_words m (b + 84) ws" using assms by (simp add: add.assoc)
qed

section \<open>Properties\<close>

text \<open>C23: a system call is a function call. For a handler that computes \<open>h\<close> by the calling convention, a
  ring 3 program that invokes a system call gets the value of \<open>h\<close> on the system call number and its
  first three arguments, and continues after the trap with every other register, its stack and
  its flags as they were.\<close>

theorem syscall_returns:
  assumes f: "cdecl h f" and r3: "cs c AND 3 = 3"
  shows "\<exists>m. invoke_syscall f e esp0 n a1 a2 a3 a4 a5 c =
    (h n a1 a2 a3, c\<lparr>eax := h n a1 a2 a3, ebx := a1, ecx := a2, edx := a3, esi := a4, edi := a5, mem := m\<rparr>)"
proof -
  define u where "u = c\<lparr>eax := n, ebx := a1, ecx := a2, edx := a3, esi := a4, edi := a5\<rparr>"
  define b where "b = esp0 - 76"
  have e: "esp0 = b + 76" by (simp add: b_def)
  let ?c = "syscall_call (interrupt_r3 e esp0 u)"
  note st = syscall_call_state [of e b u, folded e]
  define g where "g = f ?c"
  have regs: "esp ?c = b" "ds ?c = ds u" "es ?c = es u" "fs ?c = fs u" "gs ?c = gs u" by (subst st(3), simp)+
  note G = cdeclD [OF f, of ?c, folded g_def, unfolded regs]
  have ax: "eax g = h n a1 a2 a3" using G(1) st(1) by (simp add: u_def add.assoc)
  have w: "stack_words (mem g) (b + 24) [edi u, esi u, ebp u, b + 56, ebx u, edx u, ecx u, eax u, eip u, cs u, flags u, esp u, ss u]"
    by (rule G(13) [OF st(2)]) simp
  let ?g = "g\<lparr>esp := esp g + 24, mem := (mem g)(esp g + 24 + 28 := eax g)\<rparr>"
  have w1: "stack_words (mem ?g) (esp ?g) [edi u, esi u, ebp u, b + 56, ebx u, edx u, ecx u, eax g]"
    "stack_words (mem ?g) (esp ?g + 32) [eip u, cs u, flags u, esp u, ss u]"
    using w G(6) by (simp_all add: offset_simps)
  have p: "popa ?g = ?g\<lparr>edi := edi u, esi := esi u, ebp := ebp u, ebx := ebx u, edx := edx u, ecx := ecx u, eax := eax g,
      esp := esp ?g + 32\<rparr>" by (rule popa_words [OF w1(1)])
  have i: "iret (popa ?g) = (popa ?g)\<lparr>eip := eip u, cs := cs u, flags := flags u, esp := esp u, ss := ss u\<rparr>"
  proof (rule iret_words(1))
    show "stack_words (mem (popa ?g)) (esp (popa ?g)) [eip u, cs u, flags u, esp u, ss u]" unfolding p using w1(2) by simp
  qed (simp add: u_def r3)
  have "iret (popa ?g) = c\<lparr>eax := h n a1 a2 a3, ebx := a1, ecx := a2, edx := a3, esi := a4, edi := a5, mem := mem ?g\<rparr>"
    unfolding i unfolding p by (rule cpu.equality) (use G(7-10) in \<open>simp_all add: u_def ax\<close>)
  moreover have "invoke_syscall f e esp0 n a1 a2 a3 a4 a5 c = (eax (iret (popa ?g)), iret (popa ?g))"
    by (simp add: invoke_syscall_def syscall_entry_split Let_def u_def g_def)
  ultimately show ?thesis by auto
qed

theorem syscall_returns_witness:
  "fst (invoke_syscall (\<lambda>c. c\<lparr>eax := mem c (esp c) + mem c (esp c + 4) + mem c (esp c + 8) + mem c (esp c + 12)\<rparr>)
     0x9000 0x2000 4 10 20 30 0 0 ((demo_cpu 5 1000)\<lparr>cs := 0x1B\<rparr>)) = 64"
proof -
  let ?f = "\<lambda>c. c\<lparr>eax := mem c (esp c) + mem c (esp c + 4) + mem c (esp c + 8) + mem c (esp c + 12)\<rparr>"
  have "cdecl (\<lambda>n a b d. n + a + b + d) ?f" by (simp add: cdecl_def)
  from syscall_returns [OF this, of "(demo_cpu 5 1000)\<lparr>cs := 0x1B\<rparr>"
      "0x9000" "0x2000" 4 10 20 30 0 0] show ?thesis by auto
qed

text \<open>C24: preemption is invisible to the program. A thread of ring 3 that the timer interrupts, and
  whose stack of saved words is as it was when the scheduler picks the thread again, continues
  with all its registers, its stack, its flags and at the interrupted instruction, whatever the
  processor held in between.\<close>

theorem preemption_transparent:
  assumes r3: "cs c AND 3 = 3"
    and kept: "\<forall>k < 26. m (esp0 - 104 + 4 * of_nat k) =
      mem (save_context (timer_prologue L (interrupt_r3 h esp0 c))) (esp0 - 104 + 4 * of_nat k)"
  shows "esp (save_context (timer_prologue L (interrupt_r3 h esp0 c))) = esp0 - 104 \<and>
    after_switch L (restore_context (c'\<lparr>mem := m, esp := esp0 - 104\<rparr>)) = c\<lparr>mem := m\<rparr>"
proof -
  let ?i = "interrupt_r3 h esp0 c"
  have st: "stacked ?i [eip c, cs c, flags c, esp c, ss c]" and i: "?i = c\<lparr>esp := esp0 - 20, ss := 0x10, cs := 0x08, eip := h,
      flags := flags c AND NOT IF_mask, mem := mem ?i\<rparr>"
    unfolding interrupt_r3_def Let_def by ((simp, intro stacked_push, simp_all)[], simp add: push_def)
  have regs: "gs ?i = gs c" "fs ?i = fs c" "es ?i = es c" "ds ?i = ds c" "edi ?i = edi c" "esi ?i = esi c" "ebp ?i = ebp c"
    "ebx ?i = ebx c" "edx ?i = edx c" "ecx ?i = ecx c" "eax ?i = eax c" "esp ?i = esp0 - 20" by (subst i, simp)+
  note saved = timer_saved [OF st, of L, unfolded regs]
  have sp: "esp (save_context (timer_prologue L ?i)) = esp0 - 104" using saved(2) by simp
  have w: "stack_words m (esp0 - 104) ([gs c, fs c, es c, ds c, edi c, esi c, ebp c, esp0 - 20 - 36, ebx c, edx c, ecx c,
      eax c AND NOT 0xFF OR 0x20, timer_ret L, edi c, esi c, ebp c, esp0 - 20, ebx c, edx c, ecx c, eax c] @
      [eip c, cs c, flags c, esp c, ss c])"
    by (rule stack_words_cong [THEN iffD2, OF _ saved(1) [unfolded stacked_def sp, THEN conjunct1]]) (use kept in simp_all)
  have "iret (c\<lparr>mem := m, esp := esp0 - 104 + 84, eip := timer_ret L, cs := cs c', ss := ss c', flags := flags c'\<rparr>) = c\<lparr>mem := m\<rparr>"
    (is "iret ?c = _")
  proof -
    have "iret ?c = ?c\<lparr>eip := eip c, cs := cs c, flags := flags c, esp := esp c, ss := ss c\<rparr>"
      by (rule iret_words(1)) (use resume_timer(2) [OF w] r3 in simp_all)
    also have "\<dots> = c\<lparr>mem := m\<rparr>" by (rule cpu.equality) simp_all
    finally show ?thesis .
  qed
  with resume_timer(1) [OF w] sp show ?thesis by (simp only:)
qed

theorem preemption_transparent_witness:
  "let c = (demo_cpu 5 1000)\<lparr>cs := 0x1B\<rparr>; L = \<lparr>timer_ret = 1, direct_ret = 2, ktramp = 3, utramp = 4\<rparr>;
       m = mem (save_context (timer_prologue L (interrupt_r3 7 0x2000 c)))
   in after_switch L (restore_context ((demo_cpu 9 4)\<lparr>mem := m, esp := 0x2000 - 104\<rparr>)) = c\<lparr>mem := m\<rparr>"
  unfolding Let_def by (rule preemption_transparent [where h = 7, THEN conjunct2]) simp_all

text \<open>C25: what \<open>direct_scheduler_entry\<close> gives back. A kernel thread that calls it and is picked again
  with its saved words in place continues after the call with all its registers and flags,
  but the return address is still on its stack: the stack pointer is 4 lower than after a return.\<close>

theorem direct_scheduler_entry_resumes:
  assumes L: "labels_ok L" and r0: "cs c AND 3 \<noteq> 3" "ss c' = ss c"
    and kept: "\<forall>k < 16. m (esp c - 64 + 4 * of_nat k) = mem (save_context (direct_prologue L c)) (esp c - 64 + 4 * of_nat k)"
  shows "esp (save_context (direct_prologue L c)) = esp c - 64 \<and>
    after_switch L (restore_context (c'\<lparr>mem := m, esp := esp c - 64\<rparr>)) = c\<lparr>mem := m, eip := mem c (esp c)\<rparr>"
proof -
  define b where "b = esp c - 64"
  have e: "esp c = b + 64" by (simp add: b_def)
  note saved = direct_saved [of L c]
  have w: "stack_words m b [gs c, fs c, es c, ds c, edi c, esi c, ebp c, esp c - 16, ebx c, edx c, ecx c, eax c,
       direct_ret L, mem c (esp c), cs c, flags c]"
    by (rule stack_words_cong [THEN iffD2, OF _ saved(1) [unfolded stacked_def saved(2) b_def [symmetric], THEN conjunct1]])
      (use kept in \<open>simp add: b_def\<close>)
  let ?c = "c'\<lparr>mem := m, esp := b\<rparr>"
  have r: "restore_context ?c = ?c\<lparr>gs := gs c, fs := fs c, es := es c, ds := ds c, edi := edi c, esi := esi c, ebp := ebp c,
      ebx := ebx c, edx := edx c, ecx := ecx c, eax := eax c, eip := direct_ret L, esp := b + 52\<rparr>"
    (is "_ = ?r") by (rule trans [OF restore_words]) (use w in \<open>simp_all add: add.assoc\<close>)
  have "after_switch L ?r = iret ?r" using L by (auto simp: after_switch_def labels_ok_def)
  also have "\<dots> = ?r\<lparr>eip := mem c (esp c), cs := cs c, flags := flags c, esp := b + 64\<rparr>"
    by (rule trans [OF iret_words(2)]) (use w r0 in \<open>simp_all add: add.assoc\<close>)
  also have "\<dots> = c\<lparr>mem := m, eip := mem c (esp c)\<rparr>" by (rule cpu.equality) (use r0 e in simp_all)
  finally show ?thesis using saved(2) unfolding b_def [symmetric] r by simp
qed

theorem direct_scheduler_entry_resumes_witness:
  "let c = (demo_cpu 5 1000)\<lparr>cs := 0x08\<rparr>; L = \<lparr>timer_ret = 1, direct_ret = 2, ktramp = 3, utramp = 4\<rparr>;
       m = mem (save_context (direct_prologue L c))
   in after_switch L (restore_context ((demo_cpu 5 4)\<lparr>mem := m, esp := esp c - 64\<rparr>)) = c\<lparr>mem := m, eip := 77\<rparr>"
proof -
  let ?c = "(demo_cpu 5 1000)\<lparr>cs := 0x08\<rparr>" and ?L = "\<lparr>timer_ret = 1, direct_ret = 2, ktramp = 3, utramp = 4\<rparr>"
  have "mem ?c (esp ?c) = 77" by (simp add: demo_cpu_def)
  with direct_scheduler_entry_resumes [of ?L ?c "demo_cpu 5 4" "mem (save_context (direct_prologue ?L ?c))"] show ?thesis
    by (simp add: labels_ok_def demo_cpu_def)
qed

end
