(* ===== verification/Paging.thy ===== *)
theory Paging
  imports Minstd Slots
begin

text \<open>
  Page tables of \<open>kernel/paging.cpp\<close> and \<open>paging.hpp\<close>: the allocators for page directories,
  page tables and frames, \<open>map_page\<close>, the identity map and \<open>init_paging\<close>. Tables live in
  physical memory, a 32-bit word at each aligned address; the static arrays of tables have
  addresses that the linker chooses, which are fields of the state that nothing changes.
  \<open>translate\<close> is the walk the processor makes.
\<close>

section \<open>State\<close>

definition PAGE_SIZE :: u32 where "PAGE_SIZE = 0x1000"
definition PAGE_PRESENT :: u32 where "PAGE_PRESENT = 1"
definition PAGE_RW :: u32 where "PAGE_RW = 2"
definition PAGE_USER :: u32 where "PAGE_USER = 4"

definition PD_INDEX :: "u32 \<Rightarrow> u32" where "PD_INDEX va = drop_bit 22 va AND 0x3FF"
definition PT_INDEX :: "u32 \<Rightarrow> u32" where "PT_INDEX va = drop_bit 12 va AND 0x3FF"
definition PAGE_ALIGN :: "u32 \<Rightarrow> u32" where "PAGE_ALIGN a = a AND NOT 0xFFF"

definition FRAME_START :: u32 where "FRAME_START = 0x800000"
definition FRAME_END :: u32 where "FRAME_END = 0x2000000"
definition FRAME_COUNT :: nat where "FRAME_COUNT = 6144"
definition THREAD_LIMIT :: nat where "THREAD_LIMIT = 12"
definition MAX_USER_PT :: nat where "MAX_USER_PT = 32"

lemmas paging_consts = PAGE_SIZE_def PAGE_PRESENT_def PAGE_RW_def PAGE_USER_def FRAME_START_def
  FRAME_END_def FRAME_COUNT_def THREAD_LIMIT_def MAX_USER_PT_def

record paging =
  pmem :: "u32 \<Rightarrow> u32"
  kernel_page_directory :: u32
  pd_used :: "bool list"
  frame_bitmap :: "u8 list"
  user_pt_used :: "bool list"
  pt_count :: nat
  page_dir_storage :: u32
  page_table_storage :: u32
  page_dirs :: u32
  user_pt_storage :: u32
  pcr3 :: u32
  pcr0 :: u32

text \<open>Entry \<open>i\<close> of the table at address \<open>t\<close>, and table \<open>i\<close> of an array of tables.\<close>

definition entry :: "u32 \<Rightarrow> u32 \<Rightarrow> u32" where "entry t i = t + 4 * i"

definition tbl :: "u32 \<Rightarrow> nat \<Rightarrow> u32" where "tbl base i = base + PAGE_SIZE * of_nat i"

section \<open>Operations\<close>

definition alloc_page_table :: "paging \<Rightarrow> u32 \<times> paging" where
  "alloc_page_table s =
     (if pt_count s \<ge> 8 then (0, s)
      else (tbl (page_table_storage s) (pt_count s), s\<lparr>pt_count := pt_count s + 1\<rparr>))"

text \<open>The loops that copy and clear the 1024 entries of a table.\<close>

fun copy_table :: "u32 \<Rightarrow> u32 \<Rightarrow> nat \<Rightarrow> nat \<Rightarrow> (u32 \<Rightarrow> u32) \<Rightarrow> (u32 \<Rightarrow> u32)" where
  "copy_table dst src j 0 m = m"
| "copy_table dst src j (Suc k) m =
     copy_table dst src (Suc j) k (m(entry dst (of_nat j) := m (entry src (of_nat j))))"

fun clear_table :: "u32 \<Rightarrow> nat \<Rightarrow> nat \<Rightarrow> (u32 \<Rightarrow> u32) \<Rightarrow> (u32 \<Rightarrow> u32)" where
  "clear_table t j 0 m = m"
| "clear_table t j (Suc k) m = clear_table t (Suc j) k (m(entry t (of_nat j) := 0))"

definition alloc_page_directory :: "paging \<Rightarrow> u32 \<times> paging" where
  "alloc_page_directory s =
     (case scan (\<lambda>i. \<not> pd_used s ! i) 0 THREAD_LIMIT of
        Some i \<Rightarrow>
          let pd = tbl (page_dirs s) i
          in (pd, s\<lparr>pd_used := (pd_used s)[i := True],
                    pmem := copy_table pd (kernel_page_directory s) 0 1024 (pmem s)\<rparr>)
      | None \<Rightarrow> (0, s))"

definition free_page_directory :: "u32 \<Rightarrow> paging \<Rightarrow> paging" where
  "free_page_directory pd s =
     (case scan (\<lambda>i. tbl (page_dirs s) i = pd) 0 THREAD_LIMIT of
        Some i \<Rightarrow> s\<lparr>pd_used := (pd_used s)[i := False]\<rparr>
      | None \<Rightarrow> s)"

definition frame_free_bit :: "paging \<Rightarrow> nat \<Rightarrow> bool" where
  "frame_free_bit s i \<longleftrightarrow> frame_bitmap s ! (i div 8) AND push_bit (i mod 8) 1 = 0"

definition frame_alloc :: "paging \<Rightarrow> u32 \<times> paging" where
  "frame_alloc s =
     (case scan (frame_free_bit s) 0 FRAME_COUNT of
        Some i \<Rightarrow> (FRAME_START + of_nat i * PAGE_SIZE,
          s\<lparr>frame_bitmap := (frame_bitmap s)[i div 8 := frame_bitmap s ! (i div 8) OR push_bit (i mod 8) 1]\<rparr>)
      | None \<Rightarrow> (0, s))"

definition frame_free :: "u32 \<Rightarrow> paging \<Rightarrow> paging" where
  "frame_free paddr s =
     (if paddr < FRAME_START \<or> paddr \<ge> FRAME_END then s
      else
        let i = unat ((paddr - FRAME_START) div PAGE_SIZE)
        in s\<lparr>frame_bitmap := (frame_bitmap s)
               [i div 8 := frame_bitmap s ! (i div 8) AND NOT (push_bit (i mod 8) 1)]\<rparr>)"

definition alloc_user_page_table :: "paging \<Rightarrow> u32 \<times> paging" where
  "alloc_user_page_table s =
     (case scan (\<lambda>i. \<not> user_pt_used s ! i) 0 MAX_USER_PT of
        Some i \<Rightarrow>
          (tbl (user_pt_storage s) i,
           s\<lparr>user_pt_used := (user_pt_used s)[i := True],
             pmem := clear_table (tbl (user_pt_storage s) i) 0 1024 (pmem s)\<rparr>)
      | None \<Rightarrow> (0, s))"

definition map_page :: "u32 \<Rightarrow> u32 \<Rightarrow> u32 \<Rightarrow> u32 \<Rightarrow> paging \<Rightarrow> paging" where
  "map_page pd vaddr paddr flags s =
     (let pdi = PD_INDEX vaddr;
          pti = PT_INDEX vaddr;
          (ok, s) =
            (if pmem s (entry pd pdi) AND PAGE_PRESENT = 0
             then
               let (pt, s) = alloc_user_page_table s
               in if pt = 0 then (False, s)
                  else (True, s\<lparr>pmem := (pmem s)(entry pd pdi := pt OR PAGE_PRESENT OR PAGE_RW OR PAGE_USER)\<rparr>)
             else (True, s))
      in if \<not> ok then s
         else
           let pt = pmem s (entry pd pdi) AND NOT 0xFFF
           in s\<lparr>pmem := (pmem s)(entry pt pti := paddr OR flags OR PAGE_PRESENT)\<rparr>)"

text \<open>The loop of \<open>identity_map\<close>; it does not end when \<open>va\<close> wraps around below \<open>vaddr_end\<close>.\<close>

partial_function (option) identity_loop :: "u32 \<Rightarrow> u32 \<Rightarrow> u32 \<Rightarrow> paging \<Rightarrow> paging option" where
  "identity_loop page_dir vaddr_end va s =
     (if va < vaddr_end
      then
        let pdi = PD_INDEX va;
            pti = PT_INDEX va;
            (ok, s) =
              (if pmem s (entry page_dir pdi) AND PAGE_PRESENT = 0
               then
                 let (pt, s) = alloc_page_table s
                 in if pt = 0 then (False, s)
                    else (True, s\<lparr>pmem := (pmem s)(entry page_dir pdi := pt OR PAGE_PRESENT OR PAGE_RW)\<rparr>)
               else (True, s))
        in if \<not> ok then Some s
           else
             let pt = pmem s (entry page_dir pdi) AND NOT 0xFFF
             in identity_loop page_dir vaddr_end (va + PAGE_SIZE)
                  (s\<lparr>pmem := (pmem s)(entry pt pti := va OR PAGE_PRESENT OR PAGE_RW)\<rparr>)
      else Some s)"

definition identity_map :: "u32 \<Rightarrow> u32 \<Rightarrow> u32 \<Rightarrow> paging \<Rightarrow> paging option" where
  "identity_map page_dir vaddr_start vaddr_end s =
     identity_loop page_dir vaddr_end (PAGE_ALIGN vaddr_start) s"

definition init_paging :: "paging \<Rightarrow> paging result" where
  "init_paging s =
     (let s = s\<lparr>kernel_page_directory := page_dir_storage s\<rparr>
      in case identity_map (kernel_page_directory s) 0 0x2000000 s of
           None \<Rightarrow> Inl Diverges
         | Some s \<Rightarrow> Inr (s\<lparr>pcr3 := kernel_page_directory s, pcr0 := pcr0 s OR 0x80000000\<rparr>))"

section \<open>Translation\<close>

text \<open>
  The physical address and whether ring 3 may use it; None is a page fault.
\<close>

definition translate :: "(u32 \<Rightarrow> u32) \<Rightarrow> u32 \<Rightarrow> u32 \<Rightarrow> (u32 \<times> bool) option" where
  "translate m pd va =
     (let pde = m (entry pd (PD_INDEX va))
      in if pde AND PAGE_PRESENT = 0 then None
         else
           let pte = m (entry (pde AND NOT 0xFFF) (PT_INDEX va))
           in if pte AND PAGE_PRESENT = 0 then None
              else Some ((pte AND NOT 0xFFF) OR (va AND 0xFFF), pde AND pte AND PAGE_USER \<noteq> 0))"

section \<open>Addresses\<close>

definition aligned :: "u32 \<Rightarrow> bool" where
  "aligned a \<longleftrightarrow> a AND 0xFFF = 0"

abbreviation pres :: "u32 \<Rightarrow> bool" where
  "pres e \<equiv> e AND PAGE_PRESENT \<noteq> 0"

lemma mask_FFF: "(0xFFF :: u32) = mask 12" and mask_3FF: "(0x3FF :: u32) = mask 10"
  by (simp_all add: mask_eq_exp_minus_1)

lemma index_bounds: "unat (PD_INDEX va) < 1024" "unat (PT_INDEX va) < 1024"
proof -
  have "unat (x AND 0x3FF) < 1024" for x :: u32
    using take_bit_nat_less_exp [of 10 "unat x"]
    by (simp add: mask_3FF unsigned_take_bit_eq flip: take_bit_eq_mask)
  then show "unat (PD_INDEX va) < 1024" "unat (PT_INDEX va) < 1024" by (simp_all add: PD_INDEX_def PT_INDEX_def)
qed

lemma aligned_unat: "aligned a \<longleftrightarrow> 4096 dvd unat a"
proof -
  have "a AND 0xFFF = take_bit 12 a" by (simp add: mask_FFF take_bit_eq_mask)
  then have "aligned a \<longleftrightarrow> unat (take_bit 12 a) = 0" by (simp add: aligned_def word_unat_eq_iff)
  also have "unat (take_bit 12 a) = unat a mod 4096"
    unfolding unsigned_take_bit_eq by (simp add: take_bit_eq_mod)
  finally show ?thesis by (simp add: dvd_eq_mod_eq_0)
qed

lemma unat_entry:
  assumes "aligned a" "unat i < 1024"
  shows "unat (entry a i) = unat a + 4 * unat i"
proof -
  obtain k where k: "unat a = 4096 * k" using assms(1) by (auto simp: aligned_unat dvd_def)
  then have "k < 1048576" using unat_u32_less [of a] by simp
  with k assms(2) have "unat a + 4 * unat i < 2 ^ 32" by simp
  then show ?thesis by (intro unat_eqI) (simp_all add: entry_def)
qed

lemma entry_inj:
  assumes "aligned a" "aligned b" "unat i < 1024" "unat j < 1024"
  shows "entry a i = entry b j \<longleftrightarrow> a = b \<and> i = j"
proof
  assume "entry a i = entry b j"
  then have e: "unat a + 4 * unat i = unat b + 4 * unat j" using unat_entry assms by metis
  obtain k l where kl: "unat a = 4096 * k" "unat b = 4096 * l" using assms(1,2) by (auto simp: aligned_unat dvd_def)
  with e assms(3,4) have "k = l" by linarith
  with e kl show "a = b \<and> i = j" by (simp add: word_unat_eq_iff)
qed simp

lemma bits_of_flags:
  assumes "aligned t" "f AND NOT 0xFFF = 0"
  shows "(t OR f) AND NOT 0xFFF = t" "(t OR f) AND PAGE_PRESENT = f AND PAGE_PRESENT"
    "(t OR f) AND PAGE_USER = f AND PAGE_USER"
proof -
  have t: "t AND NOT 0xFFF = t"
    using assms(1) by (simp add: aligned_def bit_eq_iff bit_simps) blast
  show "(t OR f) AND NOT 0xFFF = t" using assms(2) t by (simp add: bit.conj_disj_distrib2)
  have "t AND PAGE_PRESENT = (t AND 0xFFF) AND PAGE_PRESENT" "t AND PAGE_USER = (t AND 0xFFF) AND PAGE_USER"
    by (simp_all add: PAGE_PRESENT_def PAGE_USER_def and.assoc)
  then have "t AND PAGE_PRESENT = 0" "t AND PAGE_USER = 0" using assms(1) by (simp_all add: aligned_def)
  then show "(t OR f) AND PAGE_PRESENT = f AND PAGE_PRESENT" "(t OR f) AND PAGE_USER = f AND PAGE_USER"
    by (simp_all add: bit.conj_disj_distrib2)
qed

lemma aligned_mask [simp]: "aligned (w AND NOT 0xFFF)"
  by (simp add: aligned_def and.assoc)

lemma page_bits: "PAGE_ALIGN va = PAGE_ALIGN va' \<longleftrightarrow> (\<forall>n. 12 \<le> n \<and> n < 32 \<longrightarrow> bit va n = bit va' n)"
  by (auto simp: PAGE_ALIGN_def mask_FFF bit_eq_iff bit_simps)

lemma index_bits:
  "PD_INDEX va = PD_INDEX va' \<longleftrightarrow> (\<forall>n < 10. bit va (22 + n) = bit va' (22 + n))"
  "PT_INDEX va = PT_INDEX va' \<longleftrightarrow> (\<forall>n < 10. bit va (12 + n) = bit va' (12 + n))"
  by (auto simp: PD_INDEX_def PT_INDEX_def mask_3FF bit_eq_iff bit_simps) (drule_tac x = n in spec, simp)+

lemma page_eq_iff:
  "PAGE_ALIGN va = PAGE_ALIGN va' \<longleftrightarrow> PD_INDEX va = PD_INDEX va' \<and> PT_INDEX va = PT_INDEX va'"
proof -
  have "bit va n = bit va' n" if "\<forall>n < 10. bit va (22 + n) = bit va' (22 + n)"
    "\<forall>n < 10. bit va (12 + n) = bit va' (12 + n)" "12 \<le> n" "n < 32" for n
    using that(1) [rule_format, of "n - 22"] that(2) [rule_format, of "n - 12"] that(3,4)
    by (cases "n < 22") auto
  then show ?thesis unfolding page_bits index_bits by auto
qed

section \<open>Clearing and copying tables\<close>

lemma unat_small: "n < 1024 \<Longrightarrow> unat (of_nat n :: u32) = n"
  by (rule unat_eqI) simp_all

lemma clear_table_from:
  "j + k \<le> 1024 \<Longrightarrow>
     clear_table t j k m a = (if \<exists>n \<in> {j..<j + k}. a = entry t (of_nat n) then 0 else m a)"
proof (induction k arbitrary: j m)
  case (Suc k)
  have "{j..<j + Suc k} = insert j {Suc j..<Suc j + k}" by auto
  with Suc show ?case by auto
qed simp

lemma clear_table_entry:
  assumes "aligned t" "aligned t'" "unat i < 1024"
  shows "clear_table t 0 1024 m (entry t' i) = (if t' = t then 0 else m (entry t' i))"
proof -
  have "(\<exists>n \<in> {0..<0 + 1024}. entry t' i = entry t (of_nat n)) \<longleftrightarrow> t' = t"
  proof
    assume "t' = t"
    then have "entry t' i = entry t (of_nat (unat i))" by simp
    then show "\<exists>n \<in> {0..<0 + 1024}. entry t' i = entry t (of_nat n)" using assms(3) by force
  next
    assume "\<exists>n \<in> {0..<0 + 1024}. entry t' i = entry t (of_nat n)"
    then show "t' = t" using entry_inj [OF assms(2,1,3)] unat_small by auto
  qed
  then show ?thesis using clear_table_from [of 0 1024 t m "entry t' i"] by simp
qed

lemma copy_table_other:
  "(\<And>n. n \<in> {j..<j + k} \<Longrightarrow> a \<noteq> entry dst (of_nat n)) \<Longrightarrow> copy_table dst src j k m a = m a"
  by (induction k arbitrary: j m) auto

lemma copy_table_from:
  assumes "aligned dst" "aligned src" "dst \<noteq> src"
  shows "j + k \<le> 1024 \<Longrightarrow> n \<in> {j..<j + k} \<Longrightarrow>
    copy_table dst src j k m (entry dst (of_nat n)) = m (entry src (of_nat n))"
proof (induction k arbitrary: j m)
  case (Suc k)
  show ?case
  proof (cases "n = j")
    case True
    have "entry dst (of_nat j) \<noteq> entry dst (of_nat i)" if "i \<in> {Suc j..<Suc j + k}" for i
      using entry_inj [OF assms(1,1), of "of_nat j" "of_nat i"] that Suc.prems unat_small [of i] unat_small [of j]
      by (auto simp: word_unat_eq_iff)
    from copy_table_other [of "Suc j" k "entry dst (of_nat j)" dst src, OF this] True show ?thesis by simp
  next
    case False
    have "entry src (of_nat n) \<noteq> entry dst (of_nat j)"
      using entry_inj [OF assms(2,1)] assms(3) Suc.prems unat_small [of n] unat_small [of j] by auto
    then show ?thesis using Suc False by auto
  qed
qed simp

lemma copy_table_entry:
  assumes "aligned dst" "aligned src" "dst \<noteq> src" "aligned t" "unat i < 1024"
  shows "copy_table dst src 0 1024 m (entry t i) = (if t = dst then m (entry src i) else m (entry t i))"
proof (cases "t = dst")
  case True
  have "copy_table dst src 0 1024 m (entry dst (of_nat (unat i))) = m (entry src (of_nat (unat i)))"
    by (rule copy_table_from [OF assms(1-3)]) (use assms(5) in auto)
  with True show ?thesis by simp
next
  case False
  then have "entry t i \<noteq> entry dst (of_nat n)" if "n \<in> {0..<0 + 1024}" for n
    using entry_inj [OF assms(4,1,5), of "of_nat n"] unat_small [of n] that by simp
  from copy_table_other [of 0 1024 "entry t i" dst src m, OF this] False show ?thesis by simp
qed

section \<open>Invariant\<close>

text \<open>All tables of the static arrays.\<close>

definition tables :: "paging \<Rightarrow> u32 list" where
  "tables s = page_dir_storage s # map (tbl (page_table_storage s)) [0..<8] @
     map (tbl (page_dirs s)) [0..<THREAD_LIMIT] @ map (tbl (user_pt_storage s)) [0..<MAX_USER_PT]"

definition layout_ok :: "paging \<Rightarrow> bool" where
  "layout_ok s \<longleftrightarrow> distinct (tables s) \<and> (\<forall>t \<in> set (tables s). aligned t \<and> t \<noteq> 0)"

text \<open>The page tables of the kernel, the page directories and user page tables in use.\<close>

definition kpts :: "paging \<Rightarrow> u32 set" where
  "kpts s = tbl (page_table_storage s) ` {..<pt_count s}"

definition dirs :: "paging \<Rightarrow> u32 set" where
  "dirs s = tbl (page_dirs s) ` {i. i < THREAD_LIMIT \<and> pd_used s ! i}"

definition upts :: "paging \<Rightarrow> u32 set" where
  "upts s = tbl (user_pt_storage s) ` {i. i < MAX_USER_PT \<and> user_pt_used s ! i}"

abbreviation kpde :: "paging \<Rightarrow> u32 \<Rightarrow> u32" where
  "kpde s i \<equiv> pmem s (entry (page_dir_storage s) i)"

definition sizes_ok :: "paging \<Rightarrow> bool" where
  "sizes_ok s \<longleftrightarrow> layout_ok s \<and> kernel_page_directory s = page_dir_storage s \<and> pt_count s \<le> 8 \<and>
     length (pd_used s) = THREAD_LIMIT \<and> length (user_pt_used s) = MAX_USER_PT \<and> length (frame_bitmap s) = 768"

text \<open>
  The kernel's directory refers to the kernel's tables; every other directory shares these
  entries and otherwise refers to user page tables, each of which has one place only.
\<close>

definition paging_inv :: "paging \<Rightarrow> bool" where
  "paging_inv s \<longleftrightarrow> sizes_ok s \<and>
     (\<forall>i. unat i < 1024 \<longrightarrow> pres (kpde s i) \<longrightarrow> kpde s i AND NOT 0xFFF \<in> kpts s) \<and>
     (\<forall>pd \<in> dirs s. \<forall>i. unat i < 1024 \<longrightarrow>
        (if pres (kpde s i) then pmem s (entry pd i) = kpde s i
         else pres (pmem s (entry pd i)) \<longrightarrow> (\<exists>t \<in> upts s. pmem s (entry pd i) = t OR 7))) \<and>
     (\<forall>pd \<in> dirs s. \<forall>pd' \<in> dirs s. \<forall>i j t. unat i < 1024 \<longrightarrow> unat j < 1024 \<longrightarrow> t \<in> upts s \<longrightarrow>
        pmem s (entry pd i) = t OR 7 \<longrightarrow> pmem s (entry pd' j) = t OR 7 \<longrightarrow> pd = pd' \<and> i = j)"

lemma tables_mem:
  assumes "sizes_ok s"
  shows "kpts s \<subseteq> set (tables s)" "dirs s \<subseteq> set (tables s)" "upts s \<subseteq> set (tables s)"
    "page_dir_storage s \<in> set (tables s)"
  using assms by (auto simp: kpts_def dirs_def upts_def tables_def sizes_ok_def)

lemma distinct_parts:
  assumes "distinct (p # xs @ ys @ zs)" "K \<subseteq> set xs" "D \<subseteq> set ys" "U \<subseteq> set zs"
  shows "K \<inter> U = {}" "D \<inter> U = {}" "K \<inter> D = {}" "p \<notin> K" "p \<notin> U" "p \<notin> D"
  using assms by auto

lemma tables_disjoint:
  assumes "sizes_ok s"
  shows "kpts s \<inter> upts s = {}" "dirs s \<inter> upts s = {}" "kpts s \<inter> dirs s = {}"
    "page_dir_storage s \<notin> kpts s" "page_dir_storage s \<notin> upts s" "page_dir_storage s \<notin> dirs s"
proof -
  have d: "distinct (tables s)" using assms by (simp add: sizes_ok_def layout_ok_def)
  have sub: "kpts s \<subseteq> set (map (tbl (page_table_storage s)) [0..<8])"
    "dirs s \<subseteq> set (map (tbl (page_dirs s)) [0..<THREAD_LIMIT])"
    "upts s \<subseteq> set (map (tbl (user_pt_storage s)) [0..<MAX_USER_PT])"
    using assms by (auto simp: kpts_def dirs_def upts_def sizes_ok_def)
  note parts = distinct_parts [OF d [unfolded tables_def] sub]
  show "kpts s \<inter> upts s = {}" "dirs s \<inter> upts s = {}" "kpts s \<inter> dirs s = {}"
    "page_dir_storage s \<notin> kpts s" "page_dir_storage s \<notin> upts s" "page_dir_storage s \<notin> dirs s"
    by (rule parts)+
qed

lemma tables_aligned: "sizes_ok s \<Longrightarrow> t \<in> set (tables s) \<Longrightarrow> aligned t \<and> t \<noteq> 0"
  by (simp add: sizes_ok_def layout_ok_def)

lemma entry_other:
  assumes "sizes_ok s" "t \<in> set (tables s)" "t' \<in> set (tables s)" "unat i < 1024" "unat j < 1024"
  shows "entry t i = entry t' j \<longleftrightarrow> t = t' \<and> i = j"
  using entry_inj tables_aligned [OF assms(1)] assms(2-) by blast

lemma bits_of_7:
  assumes "aligned t"
  shows "(t OR 7) AND NOT 0xFFF = t" "pres (t OR 7)" "(t OR 7) AND PAGE_USER \<noteq> 0"
  using bits_of_flags [OF assms, of 7] by (simp_all add: PAGE_PRESENT_def PAGE_USER_def)

lemma paging_invD:
  assumes "paging_inv s"
  shows "sizes_ok s"
    "unat i < 1024 \<Longrightarrow> pres (kpde s i) \<Longrightarrow> kpde s i AND NOT 0xFFF \<in> kpts s"
    "pd \<in> dirs s \<Longrightarrow> unat i < 1024 \<Longrightarrow> pres (kpde s i) \<Longrightarrow> pmem s (entry pd i) = kpde s i"
    "pd \<in> dirs s \<Longrightarrow> unat i < 1024 \<Longrightarrow> \<not> pres (kpde s i) \<Longrightarrow> pres (pmem s (entry pd i)) \<Longrightarrow>
       \<exists>t \<in> upts s. pmem s (entry pd i) = t OR 7"
    "pd \<in> dirs s \<Longrightarrow> pd' \<in> dirs s \<Longrightarrow> unat i < 1024 \<Longrightarrow> unat j < 1024 \<Longrightarrow> t \<in> upts s \<Longrightarrow>
       pmem s (entry pd i) = t OR 7 \<Longrightarrow> pmem s (entry pd' j) = t OR 7 \<Longrightarrow> pd = pd' \<and> i = j"
  using assms unfolding paging_inv_def by (blast, blast, meson, meson, blast)

text \<open>A present entry of a directory refers to a table of the kernel or to a user page table.\<close>

lemma pde_target:
  assumes "paging_inv s" "pd \<in> insert (page_dir_storage s) (dirs s)" "unat i < 1024" "pres (pmem s (entry pd i))"
  obtains (kernel) "pmem s (entry pd i) AND NOT 0xFFF \<in> kpts s"
  | (user) t where "pd \<in> dirs s" "t \<in> upts s" "pmem s (entry pd i) = t OR 7" "pmem s (entry pd i) AND NOT 0xFFF = t"
proof (cases "pres (kpde s i)")
  case True
  then have "pmem s (entry pd i) = kpde s i" using assms(2) paging_invD(3) [OF assms(1) _ assms(3)] by blast
  with True paging_invD(2) [OF assms(1,3)] show thesis by (intro kernel) simp
next
  case False
  with assms(2,4) have pd: "pd \<in> dirs s" by blast
  then obtain t where t: "t \<in> upts s" "pmem s (entry pd i) = t OR 7"
    using paging_invD(4) [OF assms(1) _ assms(3) False assms(4)] by blast
  have "aligned t"
    using t(1) tables_mem(3) [OF paging_invD(1) [OF assms(1)]] tables_aligned [OF paging_invD(1) [OF assms(1)]] by blast
  then have "pmem s (entry pd i) AND NOT 0xFFF = t" unfolding t(2) by (rule bits_of_7(1))
  then show thesis by (rule user [OF pd t])
qed

section \<open>Mapping a page\<close>

text \<open>The entry of the page table \<open>t\<close> for \<open>vaddr\<close> is written last.\<close>

definition write_pte :: "u32 \<Rightarrow> u32 \<Rightarrow> u32 \<Rightarrow> paging \<Rightarrow> paging" where
  "write_pte t vaddr v s = s\<lparr>pmem := (pmem s)(entry t (PT_INDEX vaddr) := v)\<rparr>"

lemma write_pte_inv:
  assumes "paging_inv s" "t \<in> upts s"
  shows "paging_inv (write_pte t vaddr v s)" "dirs (write_pte t vaddr v s) = dirs s"
    "pd \<in> insert (page_dir_storage s) (dirs s) \<Longrightarrow> unat i < 1024 \<Longrightarrow>
       pmem (write_pte t vaddr v s) (entry pd i) = pmem s (entry pd i)"
proof -
  let ?s = "write_pte t vaddr v s"
  note so = paging_invD(1) [OF assms(1)]
  have t: "t \<in> set (tables s)" using assms(2) tables_mem [OF so] by blast
  have pde: "pmem ?s (entry pd i) = pmem s (entry pd i)"
    if "pd \<in> insert (page_dir_storage s) (dirs s)" "unat i < 1024" for pd i
  proof -
    have "pd \<in> set (tables s)" "pd \<noteq> t" using that(1) assms(2) tables_mem [OF so] tables_disjoint [OF so] by blast+
    then show ?thesis using entry_other [OF so _ t that(2) index_bounds(2)] by (simp add: write_pte_def)
  qed
  then show "pd \<in> insert (page_dir_storage s) (dirs s) \<Longrightarrow> unat i < 1024 \<Longrightarrow> pmem ?s (entry pd i) = pmem s (entry pd i)" .
  have same: "sizes_ok ?s = sizes_ok s" "kpts ?s = kpts s" "dirs ?s = dirs s" "upts ?s = upts s"
      "page_dir_storage ?s = page_dir_storage s"
    by (simp_all add: write_pte_def sizes_ok_def layout_ok_def tables_def kpts_def dirs_def upts_def)
  show "dirs ?s = dirs s" by (fact same)
  show "paging_inv ?s" using assms(1) unfolding paging_inv_def same by (simp add: pde)
qed

text \<open>The page table that one directory entry refers to is referred to from nowhere else.\<close>

lemma pde_table:
  assumes inv: "paging_inv s" and t: "t \<in> upts s" and pd: "pd \<in> dirs s"
    and e: "pmem s (entry pd i) = t OR 7" and i: "unat i < 1024" "unat j < 1024"
    and pd': "pd' \<in> insert (page_dir_storage s) (dirs s)" and p: "pres (pmem s (entry pd' j))"
  shows "pmem s (entry pd' j) AND NOT 0xFFF = t \<longleftrightarrow> pd' = pd \<and> j = i"
    "pmem s (entry pd' j) AND NOT 0xFFF \<in> set (tables s)"
proof -
  note so = paging_invD(1) [OF inv]
  have "aligned t" using t tables_mem [OF so] tables_aligned [OF so] by blast
  then have e': "pmem s (entry pd i) AND NOT 0xFFF = t" unfolding e by (rule bits_of_7(1))
  have uniq: "pd' = pd \<and> j = i" if "pmem s (entry pd' j) AND NOT 0xFFF = t"
  proof (cases rule: pde_target [OF inv pd' i(2) p])
    case 1
    with that t tables_disjoint(1) [OF so] show ?thesis by blast
  next
    case (2 t')
    with that have "pmem s (entry pd' j) = t OR 7" by metis
    then show ?thesis by (rule paging_invD(5) [OF inv 2(1) pd i(2,1) t _ e])
  qed
  with e' show "pmem s (entry pd' j) AND NOT 0xFFF = t \<longleftrightarrow> pd' = pd \<and> j = i" by blast
  show "pmem s (entry pd' j) AND NOT 0xFFF \<in> set (tables s)"
    by (cases rule: pde_target [OF inv pd' i(2) p]) (use tables_mem [OF so] in blast)+
qed

lemma and_user:
  assumes "aligned t"
  shows "(t OR 7) AND v AND PAGE_USER = v AND PAGE_USER"
proof -
  have "(t OR 7) AND PAGE_USER = PAGE_USER" using bits_of_flags(3) [OF assms, of 7] by (simp add: PAGE_USER_def)
  then show ?thesis by (metis and.commute and.left_commute)
qed

lemma write_pte_translate:
  assumes inv: "paging_inv s" and t: "t \<in> upts s" and pd: "pd \<in> dirs s"
    and e: "pmem s (entry pd (PD_INDEX vaddr)) = t OR 7"
    and pd': "pd' \<in> insert (page_dir_storage s) (dirs s)"
  shows "translate (pmem (write_pte t vaddr v s)) pd' va =
    (if pd' = pd \<and> PAGE_ALIGN va = PAGE_ALIGN vaddr
     then if pres v then Some ((v AND NOT 0xFFF) OR (va AND 0xFFF), v AND PAGE_USER \<noteq> 0) else None
     else translate (pmem s) pd' va)"
proof -
  let ?s = "write_pte t vaddr v s" and ?e = "pmem s (entry pd' (PD_INDEX va))"
  note so = paging_invD(1) [OF inv]
  have ts: "t \<in> set (tables s)" and ta: "aligned t" using t tables_mem [OF so] tables_aligned [OF so] by blast+
  have pde: "pmem ?s (entry pd' (PD_INDEX va)) = ?e" by (rule write_pte_inv(3) [OF inv t pd' index_bounds(1)])
  have hit: "?e = t OR 7" if "pd' = pd \<and> PAGE_ALIGN va = PAGE_ALIGN vaddr"
    using that e by (simp add: page_eq_iff)
  show ?thesis
  proof (cases "pres ?e")
    case False
    then have "\<not> (pd' = pd \<and> PAGE_ALIGN va = PAGE_ALIGN vaddr)" using hit bits_of_7(2) [OF ta] by metis
    moreover have "translate (pmem ?s) pd' va = None" "translate (pmem s) pd' va = None"
      using False pde by (simp_all add: translate_def Let_def)
    ultimately show ?thesis by simp
  next
    case True
    note tab = pde_table [OF inv t pd e index_bounds(1) index_bounds(1) pd' True]
    have pte: "pmem ?s (entry (?e AND NOT 0xFFF) (PT_INDEX va)) =
        (if pd' = pd \<and> PAGE_ALIGN va = PAGE_ALIGN vaddr then v else pmem s (entry (?e AND NOT 0xFFF) (PT_INDEX va)))"
      unfolding write_pte_def page_eq_iff
      using entry_other [OF so tab(2) ts index_bounds(2) index_bounds(2), of va vaddr] tab(1) by simp
    show ?thesis
    proof (cases "pd' = pd \<and> PAGE_ALIGN va = PAGE_ALIGN vaddr")
      case hit': True
      then show ?thesis
        using True hit and_user [OF ta, of v] unfolding translate_def Let_def pde pte 
        by (simp only: if_True if_False simp_thms split: if_split) blast
    next
      case False
      then show ?thesis using True unfolding translate_def Let_def pde pte by (simp only: if_False)
    qed
  qed
qed

text \<open>A directory entry that is not present gets a user page table with no entries.\<close>

definition fresh_table :: "u32 \<Rightarrow> u32 \<Rightarrow> nat \<Rightarrow> paging \<Rightarrow> paging" where
  "fresh_table pd pdi k s =
     s\<lparr>user_pt_used := (user_pt_used s)[k := True],
       pmem := (clear_table (tbl (user_pt_storage s) k) 0 1024 (pmem s))
                 (entry pd pdi := tbl (user_pt_storage s) k OR 7)\<rparr>"

lemma tbl_upts:
  assumes "sizes_ok s" "k < MAX_USER_PT"
  shows "tbl (user_pt_storage s) k \<in> set (tables s)"
    "\<not> user_pt_used s ! k \<Longrightarrow> tbl (user_pt_storage s) k \<notin> upts s"
    "tbl (user_pt_storage s) k \<notin> kpts s" "tbl (user_pt_storage s) k \<notin> dirs s"
    "tbl (user_pt_storage s) k \<noteq> page_dir_storage s"
proof -
  let ?U = "map (tbl (user_pt_storage s)) [0..<MAX_USER_PT]"
  have m: "tbl (user_pt_storage s) k \<in> set ?U" using assms(2) by simp
  then show "tbl (user_pt_storage s) k \<in> set (tables s)" by (simp add: tables_def)
  have "distinct (tables s)" using assms(1) by (simp add: sizes_ok_def layout_ok_def)
  then have d: "distinct ?U" by (simp add: tables_def)
  then have "inj_on (tbl (user_pt_storage s)) {0..<MAX_USER_PT}" by (simp add: distinct_map)
  then show "\<not> user_pt_used s ! k \<Longrightarrow> tbl (user_pt_storage s) k \<notin> upts s"
    using assms(2) by (auto simp: upts_def dest: inj_onD)
  let ?s = "s\<lparr>user_pt_used := (user_pt_used s)[k := True]\<rparr>"
  have "sizes_ok ?s" using assms(1) by (simp add: sizes_ok_def layout_ok_def tables_def)
  moreover have "tbl (user_pt_storage s) k \<in> upts ?s" using assms by (auto simp: upts_def sizes_ok_def)
  moreover have "kpts ?s = kpts s" "dirs ?s = dirs s" by (simp_all add: kpts_def dirs_def)
  ultimately show "tbl (user_pt_storage s) k \<notin> kpts s" "tbl (user_pt_storage s) k \<notin> dirs s"
    "tbl (user_pt_storage s) k \<noteq> page_dir_storage s"
    using tables_disjoint [of ?s] by auto
qed

lemma fresh_table_same:
  assumes "sizes_ok s" "k < MAX_USER_PT"
  shows "sizes_ok (fresh_table pd pdi k s)" "kpts (fresh_table pd pdi k s) = kpts s"
    "dirs (fresh_table pd pdi k s) = dirs s"
    "upts (fresh_table pd pdi k s) = insert (tbl (user_pt_storage s) k) (upts s)"
    "page_dir_storage (fresh_table pd pdi k s) = page_dir_storage s"
proof -
  have "{i. i < MAX_USER_PT \<and> (user_pt_used s)[k := True] ! i} = insert k {i. i < MAX_USER_PT \<and> user_pt_used s ! i}"
    using assms by (auto simp: sizes_ok_def nth_list_update split: if_splits)
  then show "upts (fresh_table pd pdi k s) = insert (tbl (user_pt_storage s) k) (upts s)"
    by (simp add: upts_def fresh_table_def)
qed (use assms in \<open>simp_all add: fresh_table_def sizes_ok_def layout_ok_def tables_def kpts_def dirs_def\<close>)

lemma fresh_table_entry:
  assumes "sizes_ok s" "k < MAX_USER_PT" "pd \<in> set (tables s)" "t \<in> set (tables s)" "unat pdi < 1024" "unat i < 1024"
  shows "pmem (fresh_table pd pdi k s) (entry t i) =
    (if t = pd \<and> i = pdi then tbl (user_pt_storage s) k OR 7
     else if t = tbl (user_pt_storage s) k then 0 else pmem s (entry t i))"
proof -
  have c: "clear_table (tbl (user_pt_storage s) k) 0 1024 (pmem s) (entry t i) =
      (if t = tbl (user_pt_storage s) k then 0 else pmem s (entry t i))"
    using clear_table_entry tables_aligned [OF assms(1)] tbl_upts(1) [OF assms(1,2)] assms(4,6) by blast
  show ?thesis
    using entry_other [OF assms(1,4,3,6,5)] c
    by (cases "t = tbl (user_pt_storage s) k") (simp_all add: fresh_table_def)
qed

lemma fresh_table_inv:
  assumes inv: "paging_inv s" and pd: "pd \<in> dirs s" and i: "unat pdi < 1024"
    and k: "k < MAX_USER_PT" "\<not> user_pt_used s ! k" and np: "\<not> pres (pmem s (entry pd pdi))" "\<not> pres (kpde s pdi)"
  shows "paging_inv (fresh_table pd pdi k s)"
proof -
  let ?s = "fresh_table pd pdi k s" and ?t = "tbl (user_pt_storage s) k"
  note so = paging_invD(1) [OF inv] and D = paging_invD [OF inv]
  note T = tbl_upts [OF so k(1)] and M = tables_mem [OF so] and same = fresh_table_same [OF so k(1)]
  have pdt: "pd \<in> set (tables s)" using pd M by blast
  have al: "aligned t" if "t \<in> set (tables s)" for t using tables_aligned [OF so that] by blast
  have ent: "pmem ?s (entry d j) = (if d = pd \<and> j = pdi then ?t OR 7 else pmem s (entry d j))"
    if "d \<in> insert (page_dir_storage s) (dirs s)" "unat j < 1024" for d j
  proof -
    have "d \<in> set (tables s)" "d \<noteq> ?t" using that(1) M T by auto
    then show ?thesis using fresh_table_entry [OF so k(1) pdt _ i that(2)] by simp
  qed
  have kp: "pmem ?s (entry (page_dir_storage s) j) = kpde s j" if "unat j < 1024" for j
    using ent [OF _ that, of "page_dir_storage s"] pd tables_disjoint(6) [OF so] by auto
  have seven: "t OR 7 = t' OR 7 \<Longrightarrow> t = t'" if "t \<in> set (tables s)" "t' \<in> set (tables s)" for t t'
    using bits_of_7(1) [OF al [OF that(1)]] bits_of_7(1) [OF al [OF that(2)]] by metis
  have u1: "pmem ?s (entry d j) = t OR 7 \<longleftrightarrow> (if t = ?t then d = pd \<and> j = pdi else pmem s (entry d j) = t OR 7)"
    if d: "d \<in> dirs s" and j: "unat j < 1024" and t: "t \<in> insert ?t (upts s)" for d j t
  proof -
    have ts: "t \<in> set (tables s)" using t T(1) M by auto
    have "pmem s (entry d j) \<noteq> ?t OR 7"
    proof
      assume e: "pmem s (entry d j) = ?t OR 7"
      then have p: "pres (pmem s (entry d j))" using bits_of_7(2) [OF al [OF T(1)]] by simp
      have b: "pmem s (entry d j) AND NOT 0xFFF = ?t" unfolding e by (rule bits_of_7(1) [OF al [OF T(1)]])
      show False
        by (cases rule: pde_target [OF inv _ j p]) (use d b T(2,3) k(2) in auto)
    qed
    then show ?thesis using ent [of d j] d j seven [OF ts T(1)] np(1) bits_of_7(2) [OF al [OF ts]] by auto
  qed
  show ?thesis
    unfolding paging_inv_def same
  proof (intro conjI ballI allI impI)
    show "sizes_ok ?s" by (rule same)
  next
    fix j :: u32 assume j: "unat j < 1024" "pres (pmem ?s (entry (page_dir_storage s) j))"
    then show "pmem ?s (entry (page_dir_storage s) j) AND NOT 0xFFF \<in> kpts s" using D(2) [of j] by (simp add: kp)
  next
    fix d j :: u32 assume d: "d \<in> dirs s" and j: "unat j < 1024"
    show "if pres (pmem ?s (entry (page_dir_storage s) j)) then pmem ?s (entry d j) = pmem ?s (entry (page_dir_storage s) j)
       else pres (pmem ?s (entry d j)) \<longrightarrow> (\<exists>t \<in> insert ?t (upts s). pmem ?s (entry d j) = t OR 7)"
      using D(3,4) [OF d j] np(2) ent [OF _ j, of d] d by (auto simp: kp [OF j])
  next
    fix d d' j j' t :: u32
    assume "d \<in> dirs s" "d' \<in> dirs s" "unat j < 1024" "unat j' < 1024" "t \<in> insert ?t (upts s)"
      "pmem ?s (entry d j) = t OR 7" "pmem ?s (entry d' j') = t OR 7"
    then show "d = d'" "j = j'" using u1 [of d j t] u1 [of d' j' t] D(5) [of d d' j j' t] T(2) k(2) by (auto split: if_splits)
  qed
qed

lemma fresh_table_translate:
  assumes inv: "paging_inv s" and pd: "pd \<in> dirs s" and i: "unat pdi < 1024"
    and k: "k < MAX_USER_PT" "\<not> user_pt_used s ! k" and np: "\<not> pres (pmem s (entry pd pdi))"
    and pd': "pd' \<in> insert (page_dir_storage s) (dirs s)"
  shows "translate (pmem (fresh_table pd pdi k s)) pd' va = translate (pmem s) pd' va"
proof -
  let ?s = "fresh_table pd pdi k s" and ?t = "tbl (user_pt_storage s) k" and ?e = "pmem s (entry pd' (PD_INDEX va))"
  note so = paging_invD(1) [OF inv]
  note T = tbl_upts [OF so k(1)] and M = tables_mem [OF so]
  have al: "aligned ?t" using tables_aligned [OF so T(1)] by blast
  have pdt: "pd \<in> set (tables s)" and pdt': "pd' \<in> set (tables s)" "pd' \<noteq> ?t" using pd pd' M T by auto
  note ent = fresh_table_entry [OF so k(1) pdt _ i]
  show ?thesis
  proof (cases "pd' = pd \<and> PD_INDEX va = pdi")
    case True
    have e: "pmem ?s (entry pd' (PD_INDEX va)) = ?t OR 7" using True ent [OF pdt'(1) index_bounds(1), of va] by simp
    have "pmem ?s (entry ?t (PT_INDEX va)) = 0"
      using ent [OF T(1) index_bounds(2)] pd T(4) by auto
    then show ?thesis using True np e bits_of_7(1) [OF al] unfolding translate_def Let_def by simp
  next
    case False
    then have e: "pmem ?s (entry pd' (PD_INDEX va)) = ?e" using pdt' ent [OF pdt'(1) index_bounds(1)] by auto
    have "pmem ?s (entry (?e AND NOT 0xFFF) (PT_INDEX va)) = pmem s (entry (?e AND NOT 0xFFF) (PT_INDEX va))" if "pres ?e"
    proof -
      have "?e AND NOT 0xFFF \<in> kpts s \<union> upts s"
        by (cases rule: pde_target [OF inv pd' index_bounds(1) that]) simp_all
      moreover have "?t \<notin> kpts s \<union> upts s" "pd \<notin> kpts s \<union> upts s" "kpts s \<union> upts s \<subseteq> set (tables s)"
        using M T(2) [OF k(2)] T(3) pd tables_disjoint(2,3) [OF so] by blast+
      ultimately have m: "?e AND NOT 0xFFF \<in> set (tables s)" and ne: "?e AND NOT 0xFFF \<noteq> ?t" "?e AND NOT 0xFFF \<noteq> pd"
        by (blast, metis, metis)
      from ent [OF m index_bounds(2), of va] ne show ?thesis by (simp only: if_False simp_thms)
    qed
    then show ?thesis
      unfolding translate_def Let_def e by (cases "pres ?e") (simp_all only: if_False if_True simp_thms)
  qed
qed

text \<open>The three branches of \<open>map_page\<close>.\<close>

lemma map_page_present:
  assumes "pres (pmem s (entry pd (PD_INDEX vaddr)))"
  shows "map_page pd vaddr paddr flags s =
    write_pte (pmem s (entry pd (PD_INDEX vaddr)) AND NOT 0xFFF) vaddr (paddr OR flags OR PAGE_PRESENT) s"
  using assms by (simp add: map_page_def Let_def write_pte_def)

lemma map_page_fresh:
  assumes "\<not> pres (pmem s (entry pd (PD_INDEX vaddr)))" "scan (\<lambda>i. \<not> user_pt_used s ! i) 0 MAX_USER_PT = Some k"
    "tbl (user_pt_storage s) k \<noteq> 0" "aligned (tbl (user_pt_storage s) k)"
  shows "map_page pd vaddr paddr flags s =
    write_pte (tbl (user_pt_storage s) k) vaddr (paddr OR flags OR PAGE_PRESENT) (fresh_table pd (PD_INDEX vaddr) k s)"
  using assms(1-3) bits_of_7(1) [OF assms(4)]
  by (simp add: map_page_def alloc_user_page_table_def Let_def write_pte_def fresh_table_def
      PAGE_PRESENT_def PAGE_RW_def PAGE_USER_def)

lemma map_page_none:
  assumes "\<not> pres (pmem s (entry pd (PD_INDEX vaddr)))" "scan (\<lambda>i. \<not> user_pt_used s ! i) 0 MAX_USER_PT = None"
  shows "map_page pd vaddr paddr flags s = s"
  using assms by (simp add: map_page_def alloc_user_page_table_def Let_def)

section \<open>The identity map\<close>

lemma unat_drop_bit: "unat (drop_bit n x) = unat x div 2 ^ n" for x :: u32
  using unat_u32_less [of x]
  by (simp only: unsigned_drop_bit_eq) (simp add: drop_bit_eq_div take_bit_nat_eq_self)

lemma unat_index: "unat (PD_INDEX va) = unat va div 4194304" "unat (PT_INDEX va) = unat va div 4096 mod 1024"
proof -
  have m: "unat (x AND 0x3FF) = unat x mod 1024" for x :: u32
  proof -
    have "x AND 0x3FF = take_bit 10 x" by (simp add: mask_3FF take_bit_eq_mask)
    then have "unat (x AND 0x3FF) = take_bit 10 (unat x)" by (simp only: unsigned_take_bit_eq)
    then show ?thesis by (simp add: take_bit_eq_mod)
  qed
  have "unat va div 4194304 < 1024" using unat_u32_less [of va] by simp
  then show "unat (PD_INDEX va) = unat va div 4194304" by (simp add: PD_INDEX_def m unat_drop_bit)
  show "unat (PT_INDEX va) = unat va div 4096 mod 1024" by (simp add: PT_INDEX_def m unat_drop_bit)
qed

abbreviation page :: "nat \<Rightarrow> u32" where
  "page n \<equiv> of_nat (4096 * n)"

lemma unat_page: "n < 1048576 \<Longrightarrow> unat (page n) = 4096 * n"
  by (rule unat_eqI) simp_all

lemma page_index:
  assumes "n < 8192"
  shows "PD_INDEX (page n) = of_nat (n div 1024)" "PT_INDEX (page n) = of_nat (n mod 1024)"
proof -
  have "unat (page n) = 4096 * n" using assms by (intro unat_page) simp
  then have "unat (PD_INDEX (page n)) = n div 1024" "unat (PT_INDEX (page n)) = n mod 1024"
    by (simp_all only: unat_index) simp_all
  moreover have "unat (of_nat (n div 1024) :: u32) = n div 1024" "unat (of_nat (n mod 1024) :: u32) = n mod 1024"
    using assms by (intro unat_small, simp)+
  ultimately show "PD_INDEX (page n) = of_nat (n div 1024)" "PT_INDEX (page n) = of_nat (n mod 1024)"
    by (metis word_unat_eq_iff)+
qed

lemma page_aligned: "n < 1048576 \<Longrightarrow> aligned (page n)"
  by (simp only: aligned_unat unat_page) simp

abbreviation ktbl :: "paging \<Rightarrow> nat \<Rightarrow> u32" where
  "ktbl s k \<equiv> tbl (page_table_storage s) k"

text \<open>Tables as the loader leaves them: all entries 0.\<close>

definition boot_paging :: "paging \<Rightarrow> bool" where
  "boot_paging s \<longleftrightarrow> layout_ok s \<and> pt_count s = 0 \<and> pd_used s = replicate THREAD_LIMIT False \<and>
     user_pt_used s = replicate MAX_USER_PT False \<and> frame_bitmap s = replicate 768 0 \<and>
     (\<forall>t \<in> set (tables s). \<forall>i. unat i < 1024 \<longrightarrow> pmem s (entry t i) = 0)"

text \<open>The first \<open>n\<close> pages are mapped.\<close>

definition mapped :: "nat \<Rightarrow> paging \<Rightarrow> paging \<Rightarrow> bool" where
  "mapped n s0 s \<longleftrightarrow> s = s0\<lparr>pmem := pmem s, pt_count := (n + 1023) div 1024\<rparr> \<and>
     (\<forall>i < 1024. pmem s (entry (page_dir_storage s0) (of_nat i)) =
        (if i < (n + 1023) div 1024 then ktbl s0 i OR 3 else 0)) \<and>
     (\<forall>k < 8. \<forall>i < 1024. pmem s (entry (ktbl s0 k) (of_nat i)) =
        (if 1024 * k + i < n then page (1024 * k + i) OR 3 else 0))"

lemma ktbl_facts:
  assumes "layout_ok s" "k < 8" "l < 8"
  shows "aligned (ktbl s k)" "ktbl s k \<noteq> 0" "ktbl s k \<noteq> page_dir_storage s" "aligned (page_dir_storage s)"
    "ktbl s k = ktbl s l \<longleftrightarrow> k = l"
proof -
  have d: "distinct (tables s)" and a: "\<And>t. t \<in> set (tables s) \<Longrightarrow> aligned t \<and> t \<noteq> 0"
    using assms(1) by (simp_all add: layout_ok_def)
  have m: "ktbl s k \<in> set (map (ktbl s) [0..<8])" using assms(2) by simp
  then have "ktbl s k \<in> set (tables s)" by (simp add: tables_def)
  then show "aligned (ktbl s k)" "ktbl s k \<noteq> 0" using a by blast+
  show "aligned (page_dir_storage s)" using a by (simp add: tables_def)
  show "ktbl s k \<noteq> page_dir_storage s" using m d by (auto simp: tables_def)
  have "distinct (map (ktbl s) [0..<8])" using d by (simp add: tables_def)
  then have "inj_on (ktbl s) {0..<8}" by (simp add: distinct_map)
  then show "ktbl s k = ktbl s l \<longleftrightarrow> k = l" using assms(2,3) by (auto dest: inj_onD)
qed

lemma small_eq: "i < 1024 \<Longrightarrow> j < 1024 \<Longrightarrow> (of_nat i :: u32) = of_nat j \<longleftrightarrow> i = j"
  using unat_small by metis

lemma mapped_entry:
  assumes "layout_ok s" "k < 8" "l < 8" "i < 1024" "j < 1024"
  shows "entry (ktbl s k) (of_nat i) = entry (ktbl s l) (of_nat j) \<longleftrightarrow> k = l \<and> i = j"
    "entry (ktbl s k) (of_nat i) \<noteq> entry (page_dir_storage s) (of_nat j)"
    "entry (page_dir_storage s) (of_nat i) = entry (page_dir_storage s) (of_nat j) \<longleftrightarrow> i = j"
  using entry_inj ktbl_facts [OF assms(1-3)] ktbl_facts [OF assms(1,3,2)] unat_small assms(4,5) small_eq by metis+

lemma identity_step:
  assumes "layout_ok s0" "mapped n s0 s" "n < 8192"
  shows "\<exists>s'. mapped (Suc n) s0 s' \<and>
    identity_loop (page_dir_storage s0) 0x2000000 (page n) s = identity_loop (page_dir_storage s0) 0x2000000 (page (Suc n)) s'"
proof -
  define k i where "k = n div 1024" and "i = n mod 1024"
  have ki: "k < 8" "i < 1024" "n = 1024 * k + i" using assms(3) by (simp_all add: k_def i_def)
  have s: "s = s0\<lparr>pmem := pmem s, pt_count := (n + 1023) div 1024\<rparr>"
    and kd: "\<And>j. j < 1024 \<Longrightarrow> pmem s (entry (page_dir_storage s0) (of_nat j)) =
        (if j < (n + 1023) div 1024 then ktbl s0 j OR 3 else 0)"
    and kt: "\<And>l j. l < 8 \<Longrightarrow> j < 1024 \<Longrightarrow> pmem s (entry (ktbl s0 l) (of_nat j)) =
        (if 1024 * l + j < n then page (1024 * l + j) OR 3 else 0)"
    using assms(2) by (simp_all add: mapped_def)
  have "unat (page n) < 0x2000000" using assms(3) by (simp only: unat_page)
  then have lt: "page n < 0x2000000" by (simp add: word_less_nat_alt)
  have idx: "PD_INDEX (page n) = of_nat k" "PT_INDEX (page n) = of_nat i" using page_index [OF assms(3)] by (simp_all add: k_def i_def)
  have fields: "pt_count s = (if i = 0 then k else k + 1)" "(Suc n + 1023) div 1024 = k + 1" "page_table_storage s = page_table_storage s0"
  proof -
    have "(n + 1023) div 1024 = (if i = 0 then k else k + 1)" using ki by (auto intro!: div_nat_eqI)
    then show "pt_count s = (if i = 0 then k else k + 1)" by (subst s) simp
    show "(Suc n + 1023) div 1024 = k + 1" using ki by (auto intro!: div_nat_eqI)
    show "page_table_storage s = page_table_storage s0" by (subst s) simp
  qed
  note K = ktbl_facts [OF assms(1) ki(1) ki(1)]
  define s1 where "s1 = (if i = 0 then s\<lparr>pt_count := k + 1, pmem := (pmem s)(entry (page_dir_storage s0) (of_nat k) := ktbl s0 k OR 3)\<rparr> else s)"
  define s' where "s' = s1\<lparr>pmem := (pmem s1)(entry (ktbl s0 k) (of_nat i) := page n OR 3)\<rparr>"
  have three: "(ktbl s0 k OR 3) AND NOT 0xFFF = ktbl s0 k" "pres (ktbl s0 k OR 3)"
    using bits_of_flags [OF K(1), of 3] by (simp_all add: PAGE_PRESENT_def)
  have pde: "pmem s (entry (page_dir_storage s0) (of_nat k)) = (if i = 0 then 0 else ktbl s0 k OR 3)"
    using kd [of k] ki by auto
  have pde1: "pmem s1 (entry (page_dir_storage s0) (of_nat k)) = ktbl s0 k OR 3" using pde by (simp add: s1_def)
  have "page n + PAGE_SIZE = page (Suc n)" by (simp add: PAGE_SIZE_def)
  then have "identity_loop (page_dir_storage s0) 0x2000000 (page n) s = identity_loop (page_dir_storage s0) 0x2000000 (page (Suc n)) s'"
    using pde pde1 fields K ki three idx lt
    by (subst identity_loop.simps, cases "i = 0")
      (simp_all add: s'_def s1_def alloc_page_table_def PAGE_PRESENT_def PAGE_RW_def Let_def add.commute)
  moreover have "mapped (Suc n) s0 s'"
    unfolding mapped_def
  proof (intro conjI allI impI)
    have a: "s\<lparr>pt_count := y, pmem := x\<rparr> = s0\<lparr>pmem := x, pt_count := y\<rparr>" for x y by (subst s) simp
    have "pt_count s = (n + 1023) div 1024" by (subst s) simp
    with s have "s = s0\<lparr>pmem := pmem s, pt_count := pt_count s\<rparr>" by simp
    then have "s\<lparr>pmem := x\<rparr> = s0\<lparr>pmem := x, pt_count := pt_count s\<rparr>" for x by (cases s, cases s0) simp
    with a show "s' = s0\<lparr>pmem := pmem s', pt_count := (Suc n + 1023) div 1024\<rparr>"
      using fields by (simp add: s'_def s1_def)
  next
    fix j :: nat assume j: "j < 1024"
    show "pmem s' (entry (page_dir_storage s0) (of_nat j)) = (if j < (Suc n + 1023) div 1024 then ktbl s0 j OR 3 else 0)"
      using kd [OF j] mapped_entry(2) [OF assms(1) ki(1,1,2) j] mapped_entry(3) [OF assms(1) ki(1,1) j, of k] ki fields
      by (auto simp: s'_def s1_def)
  next
    fix l j :: nat assume j: "l < 8" "j < 1024"
    have n: "1024 * l + j < Suc n \<longleftrightarrow> k = l \<and> i = j \<or> 1024 * l + j < n"
    proof -
      have "k = l \<and> i = j" if "1024 * l + j = n"
      proof -
        from that j(2) ki(2,3) have "k = l" by linarith
        with that ki(3) show ?thesis by simp
      qed
      with ki(3) show ?thesis by (auto simp: less_Suc_eq)
    qed
    have "pmem s' (entry (ktbl s0 l) (of_nat j)) =
        (if k = l \<and> i = j then page n OR 3 else pmem s (entry (ktbl s0 l) (of_nat j)))"
      using mapped_entry(1) [OF assms(1) ki(1) j(1) ki(2) j(2)] ki(1) mapped_entry(2) [OF assms(1) j(1) j(1) j(2), of k]
      by (auto simp: s'_def s1_def)
    then show "pmem s' (entry (ktbl s0 l) (of_nat j)) = (if 1024 * l + j < Suc n then page (1024 * l + j) OR 3 else 0)"
      unfolding n kt [OF j] using ki(3) by auto
  qed
  ultimately show ?thesis by (intro exI [of _ s'] conjI)
qed

lemma identity_loop_run:
  assumes "layout_ok s0" "n \<le> 8192" "mapped n s0 s"
  shows "\<exists>s'. mapped 8192 s0 s' \<and> identity_loop (page_dir_storage s0) 0x2000000 (page n) s = Some s'"
  using assms(2,3)
proof (induction "8192 - n" arbitrary: n s)
  case 0
  have "identity_loop (page_dir_storage s0) 0x2000000 0x2000000 s = Some s" by (subst identity_loop.simps) simp
  with 0 show ?case by auto
next
  case (Suc m)
  then have "n < 8192" by simp
  from identity_step [OF assms(1) Suc.prems(2) this] Suc.hyps(1) [of "Suc n"] Suc.hyps(2) this show ?case by auto
qed

lemma mapped_frame: "mapped n s0 s \<Longrightarrow> s = s0\<lparr>pmem := pmem s, pt_count := (n + 1023) div 1024\<rparr>"
  unfolding mapped_def by (rule conjunct1)

text \<open>Paging is on with every address below 32 MB mapped to itself for ring 0 only.\<close>

lemma init_paging_run:
  assumes "boot_paging s0"
  obtains s where "init_paging s0 = Inr (s\<lparr>pcr3 := page_dir_storage s0, pcr0 := pcr0 s0 OR 0x80000000\<rparr>)"
    "mapped 8192 (s0\<lparr>kernel_page_directory := page_dir_storage s0\<rparr>) s"
proof -
  let ?s = "s0\<lparr>kernel_page_directory := page_dir_storage s0\<rparr>"
  have lay: "layout_ok ?s" "page_dir_storage ?s = page_dir_storage s0" "pt_count ?s = 0" "\<And>k. ktbl ?s k = ktbl s0 k"
    using assms by (simp_all add: boot_paging_def layout_ok_def tables_def)
  have z: "pmem ?s (entry t (of_nat i)) = 0" if "t \<in> set (tables s0)" "i < 1024" for t i
    using assms that unat_small [of i] by (simp add: boot_paging_def)
  have m: "page_dir_storage s0 \<in> set (tables s0)" "\<And>k. k < 8 \<Longrightarrow> ktbl s0 k \<in> set (tables s0)" by (simp_all add: tables_def)
  have "mapped 0 ?s ?s" using z [OF m(1)] z [OF m(2)] lay(3) unfolding mapped_def by simp
  from identity_loop_run [OF lay(1) le0 this] obtain s where
    run: "mapped 8192 ?s s \<and> identity_loop (page_dir_storage ?s) 0x2000000 (page 0) ?s = Some s" by (rule exE)
  note s = conjunct1 [OF run] conjunct2 [OF run]
  have "kernel_page_directory s = page_dir_storage s0" "pcr0 s = pcr0 s0"
    by (subst mapped_frame [OF s(1)], simp)+
  then show thesis by (intro that [of s] s(1)) (use s(2) in \<open>simp add: init_paging_def identity_map_def PAGE_ALIGN_def\<close>)
qed

lemma mapped_kpde:
  assumes "mapped 8192 s0 s" "unat i < 1024"
  shows "pmem s (entry (page_dir_storage s0) i) = (if unat i < 8 then ktbl s0 (unat i) OR 3 else 0)"
  using assms(1) [unfolded mapped_def, THEN conjunct2, THEN conjunct1, rule_format, OF assms(2)] by simp

lemma mapped_kpte:
  assumes "mapped 8192 s0 s" "k < 8" "unat i < 1024"
  shows "pmem s (entry (ktbl s0 k) i) = page (1024 * k + unat i) OR 3"
proof -
  have "1024 * k + unat i < 8192" using assms(2,3) by linarith
  then show ?thesis
    using assms(1) [unfolded mapped_def, THEN conjunct2, THEN conjunct2, rule_format, OF assms(2,3)] by simp
qed

lemma page_of_index: "page (1024 * (unat va div 4194304) + unat va div 4096 mod 1024) = va AND NOT 0xFFF"
proof -
  have e: "unat va div 4194304 = unat va div 4096 div 1024" by (simp only: div_mult2_eq [symmetric]) simp
  have "va AND NOT 0xFFF = push_bit 12 (drop_bit 12 va)"
    by (rule bit_word_eqI) (auto simp: mask_FFF bit_simps)
  also have "\<dots> = of_nat (4096 * unat (drop_bit 12 va))" by (simp add: push_bit_eq_mult)
  finally show ?thesis by (simp only: e mult_div_mod_eq unat_drop_bit) simp
qed

lemma mapped_translate:
  assumes "layout_ok s0" "mapped 8192 s0 s"
  shows "translate (pmem s) (page_dir_storage s0) va = (if va < 0x2000000 then Some (va, False) else None)"
proof -
  have lt: "va < 0x2000000 \<longleftrightarrow> unat (PD_INDEX va) < 8"
    by (simp only: unat_index word_less_nat_alt) auto
  show ?thesis
  proof (cases "va < 0x2000000")
    case True
    let ?t = "ktbl s0 (unat (PD_INDEX va))" and ?p = "va AND NOT 0xFFF"
    note k = True [unfolded lt]
    have al: "aligned ?t" by (rule ktbl_facts(1) [OF assms(1) k k])
    have three: "(t OR 3) AND NOT 0xFFF = t" "pres (t OR 3)" "(t OR 3) AND PAGE_USER = 0" if "aligned t" for t
      using bits_of_flags [OF that, of 3] by (simp_all add: PAGE_PRESENT_def PAGE_USER_def)
    have e: "pmem s (entry (page_dir_storage s0) (PD_INDEX va)) = ?t OR 3"
      using mapped_kpde [OF assms(2) index_bounds(1), of va] k by simp
    have e': "pmem s (entry ?t (PT_INDEX va)) = ?p OR 3"
      using mapped_kpte [OF assms(2) k index_bounds(2), of va] by (simp only: unat_index page_of_index)
    have "?p OR (va AND 0xFFF) = va" by (rule bit_word_eqI) (auto simp: mask_FFF bit_simps)
    then show ?thesis
      using True three [OF al] three [OF aligned_mask, of va] unfolding translate_def Let_def e
      by (simp only: e' if_True if_False simp_thms) (simp only: and.assoc and_zero_eq simp_thms)
  next
    case False
    then show ?thesis using mapped_kpde [OF assms(2) index_bounds(1), of va] lt by (simp add: translate_def)
  qed
qed

lemma mapped_inv:
  assumes "boot_paging s0" "mapped 8192 (s0\<lparr>kernel_page_directory := page_dir_storage s0\<rparr>) s"
  shows "paging_inv (s\<lparr>pcr3 := x, pcr0 := y\<rparr>)" (is "paging_inv ?s")
proof -
  let ?b = "s0\<lparr>kernel_page_directory := page_dir_storage s0\<rparr>"
  have lay: "layout_ok ?b" using assms(1) by (simp add: boot_paging_def layout_ok_def tables_def)
  have s: "?s = ?b\<lparr>pmem := pmem s, pt_count := 8, pcr3 := x, pcr0 := y\<rparr>" by (subst mapped_frame [OF assms(2)]) simp
  have so: "sizes_ok ?s" unfolding s using assms(1) by (simp add: sizes_ok_def boot_paging_def layout_ok_def tables_def)
  have sets: "dirs ?s = {}" "upts ?s = {}" "kpts ?s = ktbl ?b ` {..<8}" "page_dir_storage ?s = page_dir_storage ?b" "pmem ?s = pmem s"
    unfolding s using assms(1) by (auto simp: boot_paging_def dirs_def upts_def kpts_def)
  have "pmem s (entry (page_dir_storage ?b) i) AND NOT 0xFFF \<in> ktbl ?b ` {..<8}"
    if i: "unat i < 1024" and p: "pres (pmem s (entry (page_dir_storage ?b) i))" for i
  proof -
    have k: "unat i < 8" using p mapped_kpde [OF assms(2) i] by (cases "unat i < 8") simp_all
    have "(ktbl ?b (unat i) OR 3) AND NOT 0xFFF = ktbl ?b (unat i)"
      using bits_of_flags(1) [OF ktbl_facts(1) [OF lay k k], of 3] by simp
    then show ?thesis using k mapped_kpde [OF assms(2) i] by (simp only: if_True) (rule imageI, simp)
  qed
  then show ?thesis using so unfolding paging_inv_def sets by (simp only: ball_empty simp_thms) blast
qed

section \<open>Frames\<close>

definition frame_addr :: "nat \<Rightarrow> u32" where
  "frame_addr i = FRAME_START + of_nat i * PAGE_SIZE"

abbreviation frames :: "paging \<Rightarrow> nat set" where
  "frames s \<equiv> bits (frame_bitmap s)"

definition frame_take :: "paging \<Rightarrow> nat option \<times> paging" where
  "frame_take s = (case frame_alloc s of (a, s') \<Rightarrow> (if a = 0 then None else Some (unat ((a - FRAME_START) div PAGE_SIZE)), s'))"

definition frame_give :: "nat \<Rightarrow> paging \<Rightarrow> paging" where
  "frame_give i = frame_free (frame_addr i)"

lemma frame_addr_facts:
  assumes "i < FRAME_COUNT"
  shows "unat (frame_addr i) = 0x800000 + 4096 * i" "frame_addr i \<noteq> 0" "aligned (frame_addr i)"
    "FRAME_START \<le> frame_addr i" "frame_addr i < FRAME_END"
    "unat ((frame_addr i - FRAME_START) div PAGE_SIZE) = i"
proof -
  have i: "i < 6144" using assms by (simp add: FRAME_COUNT_def)
  have "of_nat (0x800000 + 4096 * i) = frame_addr i" by (simp add: frame_addr_def paging_consts)
  then show u: "unat (frame_addr i) = 0x800000 + 4096 * i" using i by (intro unat_eqI) simp_all
  then show "frame_addr i \<noteq> 0" by (auto simp: unat_eq_0)
  have "0x800000 + 4096 * i = 4096 * (0x800 + i)" by simp
  then show "aligned (frame_addr i)" unfolding aligned_unat u by (metis dvd_triv_left)
  show "FRAME_START \<le> frame_addr i" "frame_addr i < FRAME_END"
    using u i by (simp_all add: word_le_nat_alt word_less_nat_alt FRAME_START_def FRAME_END_def)
  have "frame_addr i - FRAME_START = page i" by (simp add: frame_addr_def PAGE_SIZE_def)
  moreover have "unat (page i) = 4096 * i" using i by (intro unat_page) simp
  ultimately show "unat ((frame_addr i - FRAME_START) div PAGE_SIZE) = i"
    by (simp only: unat_div) (simp add: PAGE_SIZE_def)
qed

lemma frame_free_bit_bits:
  assumes "length (frame_bitmap s) = 768" "i < FRAME_COUNT"
  shows "frame_free_bit s i \<longleftrightarrow> i \<notin> frames s"
  using bitmap_get_bits [of i "frame_bitmap s"] assms
  by (auto simp: frame_free_bit_def bitmap_get_def FRAME_COUNT_def byte_index Let_def)

lemma frames_mark:
  assumes "length (frame_bitmap s) = 768" "i < FRAME_COUNT"
  shows "bits ((frame_bitmap s)[i div 8 := frame_bitmap s ! (i div 8) OR push_bit (i mod 8) 1]) = insert i (frames s)"
    "bits ((frame_bitmap s)[i div 8 := frame_bitmap s ! (i div 8) AND NOT (push_bit (i mod 8) 1)]) = frames s - {i}"
  using bitmap_mark_bits [of i "frame_bitmap s"] bitmap_unmark_bits [of i "frame_bitmap s"] assms
  by (simp_all add: bitmap_mark_def bitmap_unmark_def FRAME_COUNT_def byte_index Let_def)

lemma frame_alloc_cases:
  assumes "length (frame_bitmap s) = 768"
  obtains (found) i s' where "frame_alloc s = (frame_addr i, s')" "i < FRAME_COUNT" "i \<notin> frames s" "{..<i} \<subseteq> frames s"
      "frames s' = insert i (frames s)" "s' = s\<lparr>frame_bitmap := frame_bitmap s'\<rparr>" "length (frame_bitmap s') = 768"
  | (full) "frame_alloc s = (0, s)" "{..<FRAME_COUNT} \<subseteq> frames s"
proof (cases "scan (frame_free_bit s) 0 FRAME_COUNT")
  case None
  then have "{..<FRAME_COUNT} \<subseteq> frames s" using scan_None [of _ 0 FRAME_COUNT] frame_free_bit_bits [OF assms] by auto
  with None full show thesis by (simp add: frame_alloc_def)
next
  case (Some i)
  note sc = scan_Some [OF this]
  then have i: "i < FRAME_COUNT" "i \<notin> frames s" "{..<i} \<subseteq> frames s" using frame_free_bit_bits [OF assms] by auto
  let ?s = "s\<lparr>frame_bitmap := (frame_bitmap s)[i div 8 := frame_bitmap s ! (i div 8) OR push_bit (i mod 8) 1]\<rparr>"
  have "frame_alloc s = (frame_addr i, ?s)" using Some by (simp add: frame_alloc_def frame_addr_def)
  then show thesis by (rule found [OF _ i]) (use assms frames_mark(1) [OF assms i(1)] in simp_all)
qed

lemma frame_free_addr:
  assumes "length (frame_bitmap s) = 768" "i < FRAME_COUNT"
  shows "frames (frame_free (frame_addr i) s) = frames s - {i}" "length (frame_bitmap (frame_free (frame_addr i) s)) = 768"
  using frame_addr_facts [OF assms(2)] frames_mark(2) [OF assms] assms(1)
  by (simp_all add: frame_free_def Let_def linorder_not_less)

interpretation fr: slots_free "\<lambda>s. length (frame_bitmap s) = 768" frames "\<lambda>_. FRAME_COUNT" frame_take frame_give
proof unfold_locales
  fix s :: paging
  assume "length (frame_bitmap s) = 768"
  then show "frames s \<subseteq> {..<FRAME_COUNT}" by (auto simp: bits_def FRAME_COUNT_def)
next
  fix s s' :: paging and i
  assume "length (frame_bitmap s) = 768" "frame_take s = (Some i, s')"
  then show "i < FRAME_COUNT \<and> i \<notin> frames s \<and> {..<i} \<subseteq> frames s \<and> frames s' = insert i (frames s) \<and>
      FRAME_COUNT = FRAME_COUNT \<and> length (frame_bitmap s') = 768"
    by (cases rule: frame_alloc_cases) (auto simp: frame_take_def frame_addr_facts)
next
  fix s s' :: paging
  assume len: "length (frame_bitmap s) = 768" and "frame_take s = (None, s')"
  then show "{..<FRAME_COUNT} \<subseteq> frames s \<and> frames s' = frames s \<and> FRAME_COUNT = FRAME_COUNT \<and> length (frame_bitmap s') = 768"
    by (cases rule: frame_alloc_cases [OF len]) (auto simp: frame_take_def frame_addr_facts)
qed (auto simp: frame_give_def frame_free_addr)

section \<open>Page directories\<close>

definition new_dir :: "nat \<Rightarrow> paging \<Rightarrow> paging" where
  "new_dir k s = s\<lparr>pd_used := (pd_used s)[k := True],
     pmem := copy_table (tbl (page_dirs s) k) (kernel_page_directory s) 0 1024 (pmem s)\<rparr>"

lemma new_dir_same:
  assumes "sizes_ok s" "k < THREAD_LIMIT"
  shows "sizes_ok (new_dir k s)" "kpts (new_dir k s) = kpts s" "upts (new_dir k s) = upts s"
    "dirs (new_dir k s) = insert (tbl (page_dirs s) k) (dirs s)"
    "page_dir_storage (new_dir k s) = page_dir_storage s"
proof -
  have "{i. i < THREAD_LIMIT \<and> (pd_used s)[k := True] ! i} = insert k {i. i < THREAD_LIMIT \<and> pd_used s ! i}"
    using assms by (auto simp: sizes_ok_def nth_list_update split: if_splits)
  then show "dirs (new_dir k s) = insert (tbl (page_dirs s) k) (dirs s)" by (simp add: dirs_def new_dir_def)
qed (use assms in \<open>simp_all add: new_dir_def sizes_ok_def layout_ok_def tables_def kpts_def upts_def\<close>)

lemma tbl_dirs:
  assumes "sizes_ok s" "k < THREAD_LIMIT"
  shows "tbl (page_dirs s) k \<in> set (tables s)" "\<not> pd_used s ! k \<Longrightarrow> tbl (page_dirs s) k \<notin> dirs s"
    "tbl (page_dirs s) k \<notin> kpts s" "tbl (page_dirs s) k \<notin> upts s" "tbl (page_dirs s) k \<noteq> page_dir_storage s"
proof -
  let ?D = "map (tbl (page_dirs s)) [0..<THREAD_LIMIT]"
  have "tbl (page_dirs s) k \<in> set ?D" using assms(2) by simp
  then show "tbl (page_dirs s) k \<in> set (tables s)" by (simp add: tables_def)
  have "distinct (tables s)" using assms(1) by (simp add: sizes_ok_def layout_ok_def)
  then have "distinct ?D" by (simp add: tables_def)
  then have "inj_on (tbl (page_dirs s)) {0..<THREAD_LIMIT}" by (simp add: distinct_map)
  then show "\<not> pd_used s ! k \<Longrightarrow> tbl (page_dirs s) k \<notin> dirs s" using assms(2) by (auto simp: dirs_def dest: inj_onD)
  note dj = tables_disjoint [OF new_dir_same(1) [OF assms], unfolded new_dir_same(2-5) [OF assms]]
  show "tbl (page_dirs s) k \<notin> kpts s" using dj(3) by simp
  show "tbl (page_dirs s) k \<notin> upts s" using dj(2) by simp
  show "tbl (page_dirs s) k \<noteq> page_dir_storage s" using dj(6) by auto
qed

lemma new_dir_entry:
  assumes "sizes_ok s" "k < THREAD_LIMIT" "t \<in> set (tables s)" "unat i < 1024"
  shows "pmem (new_dir k s) (entry t i) = (if t = tbl (page_dirs s) k then kpde s i else pmem s (entry t i))"
proof -
  have "kernel_page_directory s = page_dir_storage s" using assms(1) by (simp add: sizes_ok_def)
  then show ?thesis
    using copy_table_entry tables_aligned [OF assms(1)] tbl_dirs [OF assms(1,2)] tables_mem(4) [OF assms(1)] assms(3,4)
    by (simp add: new_dir_def)
qed

lemma kpde_not_user:
  assumes "paging_inv s" "unat i < 1024" "t \<in> upts s"
  shows "kpde s i \<noteq> t OR 7"
proof
  note so = paging_invD(1) [OF assms(1)]
  assume e: "kpde s i = t OR 7"
  have al: "aligned t" using assms(3) tables_mem [OF so] tables_aligned [OF so] by blast
  have b: "kpde s i AND NOT 0xFFF = t" unfolding e by (rule bits_of_7(1) [OF al])
  have "pres (kpde s i)" unfolding e by (rule bits_of_7(2) [OF al])
  from paging_invD(2) [OF assms(1,2) this] have "t \<in> kpts s" unfolding b .
  with assms(3) tables_disjoint(1) [OF so] show False by blast
qed

lemma new_dir_inv:
  assumes inv: "paging_inv s" and k: "k < THREAD_LIMIT" "\<not> pd_used s ! k"
  shows "paging_inv (new_dir k s)"
proof -
  let ?s = "new_dir k s" and ?d = "tbl (page_dirs s) k"
  note so = paging_invD(1) [OF inv] and D = paging_invD [OF inv]
  note T = tbl_dirs [OF so k(1)] and M = tables_mem [OF so] and same = new_dir_same [OF so k(1)]
  have ent: "pmem ?s (entry d j) = (if d = ?d then kpde s j else pmem s (entry d j))"
    if "d \<in> insert (page_dir_storage s) (insert ?d (dirs s))" "unat j < 1024" for d j
    using new_dir_entry [OF so k(1) _ that(2)] that(1) M T(1) by blast
  have kp: "pmem ?s (entry (page_dir_storage s) j) = kpde s j" if "unat j < 1024" for j
    using ent [OF _ that, of "page_dir_storage s"] T(5) by auto
  show ?thesis
    unfolding paging_inv_def same
  proof (intro conjI ballI allI impI)
    show "sizes_ok ?s" by (rule same)
  next
    fix j :: u32 assume j: "unat j < 1024" "pres (pmem ?s (entry (page_dir_storage s) j))"
    then show "pmem ?s (entry (page_dir_storage s) j) AND NOT 0xFFF \<in> kpts s" using D(2) [of j] by (simp add: kp)
  next
    fix d j :: u32 assume d: "d \<in> insert ?d (dirs s)" and j: "unat j < 1024"
    show "if pres (pmem ?s (entry (page_dir_storage s) j)) then pmem ?s (entry d j) = pmem ?s (entry (page_dir_storage s) j)
       else pres (pmem ?s (entry d j)) \<longrightarrow> (\<exists>t \<in> upts s. pmem ?s (entry d j) = t OR 7)"
      using D(3,4) [OF _ j, of d] ent [OF _ j, of d] d T(2) [OF k(2)] by (auto simp: kp [OF j])
  next
    fix d d' j j' t :: u32
    assume a: "d \<in> insert ?d (dirs s)" "d' \<in> insert ?d (dirs s)" "unat j < 1024" "unat j' < 1024" "t \<in> upts s"
      "pmem ?s (entry d j) = t OR 7" "pmem ?s (entry d' j') = t OR 7"
    have "d \<noteq> ?d" using ent [of d j] a kpde_not_user [OF inv a(3,5)] by auto
    moreover have "d' \<noteq> ?d" using ent [of d' j'] a kpde_not_user [OF inv a(4,5)] by auto
    ultimately show "d = d'" "j = j'" using a ent [of d j] ent [of d' j'] D(5) [of d d' j j' t] by auto
  qed
qed

lemma new_dir_translate:
  assumes inv: "paging_inv s" and k: "k < THREAD_LIMIT" "\<not> pd_used s ! k"
    and pd: "pd \<in> insert (page_dir_storage s) (dirs s)"
  shows "translate (pmem (new_dir k s)) pd va = translate (pmem s) pd va"
    "translate (pmem (new_dir k s)) (tbl (page_dirs s) k) va = translate (pmem s) (page_dir_storage s) va"
proof -
  let ?s = "new_dir k s" and ?d = "tbl (page_dirs s) k"
  note so = paging_invD(1) [OF inv]
  note T = tbl_dirs [OF so k(1)] and M = tables_mem [OF so]
  have pte: "pmem ?s (entry (pmem s (entry d (PD_INDEX va)) AND NOT 0xFFF) (PT_INDEX va)) =
      pmem s (entry (pmem s (entry d (PD_INDEX va)) AND NOT 0xFFF) (PT_INDEX va))"
    if "d \<in> insert (page_dir_storage s) (dirs s)" "pres (pmem s (entry d (PD_INDEX va)))" for d
  proof -
    have "pmem s (entry d (PD_INDEX va)) AND NOT 0xFFF \<in> kpts s \<union> upts s"
      by (cases rule: pde_target [OF inv that(1) index_bounds(1) that(2)]) simp_all
    moreover have "?d \<notin> kpts s \<union> upts s" "kpts s \<union> upts s \<subseteq> set (tables s)" using T M by blast+
    ultimately have m: "pmem s (entry d (PD_INDEX va)) AND NOT 0xFFF \<in> set (tables s)"
      "pmem s (entry d (PD_INDEX va)) AND NOT 0xFFF \<noteq> ?d" by (blast, metis)
    from new_dir_entry [OF so k(1) m(1) index_bounds(2), of va] m(2) show ?thesis by (simp only: if_False)
  qed
  have tr: "translate (pmem ?s) d' va = translate (pmem s) d va"
    if "d \<in> insert (page_dir_storage s) (dirs s)" "pmem ?s (entry d' (PD_INDEX va)) = pmem s (entry d (PD_INDEX va))" for d d'
    unfolding translate_def Let_def that(2)
    by (cases "pres (pmem s (entry d (PD_INDEX va)))") (simp_all only: pte [OF that(1)] if_False if_True simp_thms)
  have m: "pd \<in> set (tables s)" "pd \<noteq> ?d" using pd M T k(2) by blast+
  show "translate (pmem ?s) pd va = translate (pmem s) pd va"
    by (rule tr [OF pd]) (use new_dir_entry [OF so k(1) m(1) index_bounds(1)] m(2) in simp)
  show "translate (pmem ?s) ?d va = translate (pmem s) (page_dir_storage s) va"
    by (rule tr) (use new_dir_entry [OF so k(1) T(1) index_bounds(1)] in simp_all)
qed

section \<open>Properties\<close>

text \<open>Two states with a concrete layout: at boot, and with one directory in use.\<close>

definition demo_boot :: paging where
  "demo_boot = \<lparr>pmem = (\<lambda>_. 0), kernel_page_directory = 0, pd_used = replicate THREAD_LIMIT False,
     frame_bitmap = replicate 768 0, user_pt_used = replicate MAX_USER_PT False, pt_count = 0,
     page_dir_storage = 0x10000, page_table_storage = 0x20000, page_dirs = 0x40000, user_pt_storage = 0x60000,
     pcr3 = 0, pcr0 = 1\<rparr>"

definition demo_paging :: paging where
  "demo_paging = demo_boot\<lparr>kernel_page_directory := 0x10000, pd_used := (replicate THREAD_LIMIT False)[0 := True]\<rparr>"

lemma demo_tables: "tables demo_boot = 0x10000 # map (\<lambda>i. 0x20000 + 0x1000 * of_nat i) [0..<8] @
    map (\<lambda>i. 0x40000 + 0x1000 * of_nat i) [0..<12] @ map (\<lambda>i. 0x60000 + 0x1000 * of_nat i) [0..<32]"
  by (simp add: tables_def demo_boot_def tbl_def paging_consts)

lemma demo_layout: "layout_ok demo_boot"
  unfolding layout_ok_def demo_tables aligned_def by code_simp

lemma demo_boot_ok: "boot_paging demo_boot"
  using demo_layout by (simp add: boot_paging_def demo_boot_def)

lemma demo_paging_ok: "paging_inv demo_paging" "0x40000 \<in> dirs demo_paging"
proof -
  have "tables demo_paging = tables demo_boot" by (simp add: demo_paging_def tables_def demo_boot_def)
  then have "sizes_ok demo_paging"
    using demo_layout by (simp add: sizes_ok_def layout_ok_def demo_paging_def demo_boot_def)
  moreover have "upts demo_paging = {}" by (auto simp: upts_def demo_paging_def demo_boot_def)
  moreover have "pmem demo_paging a = 0" for a by (simp add: demo_paging_def demo_boot_def)
  ultimately show "paging_inv demo_paging" unfolding paging_inv_def by simp
  show "0x40000 \<in> dirs demo_paging"
    by (auto simp: dirs_def demo_paging_def demo_boot_def tbl_def THREAD_LIMIT_def intro!: image_eqI [where x = 0])
qed



lemma map_page_frames: "frame_bitmap (map_page pd vaddr paddr fl s) = frame_bitmap s"
  by (auto simp: map_page_def alloc_user_page_table_def Let_def split: prod.splits option.splits if_splits)

text \<open>Mapping a page leaves the kernel's directory alone and the page's table in place.\<close>

lemma map_page_directories:
  assumes inv: "paging_inv s" and pd: "pd \<in> dirs s" and user: "\<not> pres (kpde s (PD_INDEX vaddr))"
    and room: "pres (pmem s (entry pd (PD_INDEX vaddr))) \<or> (\<exists>k < MAX_USER_PT. \<not> user_pt_used s ! k)"
  shows "page_dir_storage (map_page pd vaddr paddr fl s) = page_dir_storage s"
    "unat i < 1024 \<Longrightarrow> kpde (map_page pd vaddr paddr fl s) i = kpde s i"
    "pres (pmem (map_page pd vaddr paddr fl s) (entry pd (PD_INDEX vaddr)))"
proof -
  note so = paging_invD(1) [OF inv]
  let ?v = "paddr OR fl OR PAGE_PRESENT"
  have main: "page_dir_storage (map_page pd vaddr paddr fl s) = page_dir_storage s \<and>
      (unat i < 1024 \<longrightarrow> kpde (map_page pd vaddr paddr fl s) i = kpde s i) \<and>
      pres (pmem (map_page pd vaddr paddr fl s) (entry pd (PD_INDEX vaddr)))"
    if s1: "paging_inv s1" "dirs s1 = dirs s" "page_dir_storage s1 = page_dir_storage s" "t \<in> upts s1"
      "pres (pmem s1 (entry pd (PD_INDEX vaddr)))" "\<And>i. unat i < 1024 \<Longrightarrow> kpde s1 i = kpde s i"
      "map_page pd vaddr paddr fl s = write_pte t vaddr ?v s1" for s1 t
  proof -
    note w = write_pte_inv(3) [OF s1(1,4), of _ _ vaddr ?v]
    have st: "page_dir_storage (write_pte t vaddr ?v s1) = page_dir_storage s" using s1(3) by (simp add: write_pte_def)
    have "pmem (write_pte t vaddr ?v s1) (entry pd (PD_INDEX vaddr)) = pmem s1 (entry pd (PD_INDEX vaddr))"
      using w [of pd "PD_INDEX vaddr"] pd s1(2) index_bounds(1) by simp
    moreover have "pmem (write_pte t vaddr ?v s1) (entry (page_dir_storage s) i) = kpde s i" if "unat i < 1024"
      using w [of "page_dir_storage s" i] that s1(3,6) by simp
    ultimately show ?thesis using st s1(5,7) by simp
  qed
  have "page_dir_storage (map_page pd vaddr paddr fl s) = page_dir_storage s \<and>
      (unat i < 1024 \<longrightarrow> kpde (map_page pd vaddr paddr fl s) i = kpde s i) \<and>
      pres (pmem (map_page pd vaddr paddr fl s) (entry pd (PD_INDEX vaddr)))"
  proof (cases "pres (pmem s (entry pd (PD_INDEX vaddr)))")
    case True
    from paging_invD(4) [OF inv pd index_bounds(1) user True] obtain t where
      t: "t \<in> upts s" "pmem s (entry pd (PD_INDEX vaddr)) = t OR 7" by blast
    have "aligned t" using t(1) tables_mem [OF so] tables_aligned [OF so] by blast
    then have e: "pmem s (entry pd (PD_INDEX vaddr)) AND NOT 0xFFF = t" unfolding t(2) by (rule bits_of_7(1))
    show ?thesis by (rule main [OF inv refl refl t(1) True refl map_page_present [OF True, unfolded e]])
  next
    case False
    with room obtain k where "k < MAX_USER_PT" "\<not> user_pt_used s ! k" by blast
    then obtain k where k: "scan (\<lambda>i. \<not> user_pt_used s ! i) 0 MAX_USER_PT = Some k"
      by (cases "scan (\<lambda>i. \<not> user_pt_used s ! i) 0 MAX_USER_PT") (auto simp: scan_None)
    from scan_Some [OF this] have kk: "k < MAX_USER_PT" "\<not> user_pt_used s ! k" by auto
    let ?t = "tbl (user_pt_storage s) k" and ?s = "fresh_table pd (PD_INDEX vaddr) k s"
    note T = tbl_upts [OF so kk(1)] and same = fresh_table_same [OF so kk(1)] and M = tables_mem [OF so]
    have al: "?t \<noteq> 0" "aligned ?t" using tables_aligned [OF so T(1)] by auto
    have pdt: "pd \<in> set (tables s)" using pd M by blast
    have ent: "pmem ?s (entry pd (PD_INDEX vaddr)) = ?t OR 7"
      using fresh_table_entry [OF so kk(1) pdt pdt index_bounds(1) index_bounds(1)] by simp
    have kp: "kpde ?s i = kpde s i" if "unat i < 1024" for i
    proof -
      have "page_dir_storage s \<noteq> pd" using pd tables_disjoint [OF so] by blast
      then show ?thesis using fresh_table_entry [OF so kk(1) pdt M(4) index_bounds(1) that] T(5) same(5) by simp
    qed
    show ?thesis
    proof (rule main [OF fresh_table_inv [OF inv pd index_bounds(1) kk False user] same(3) same(5) _ _ kp map_page_fresh [OF False k al]])
      show "?t \<in> upts ?s" using same(4) by simp
      show "pres (pmem ?s (entry pd (PD_INDEX vaddr)))" unfolding ent by (rule bits_of_7(2) [OF al(2)])
    qed
  qed
  then show "page_dir_storage (map_page pd vaddr paddr fl s) = page_dir_storage s"
    "unat i < 1024 \<Longrightarrow> kpde (map_page pd vaddr paddr fl s) i = kpde s i"
    "pres (pmem (map_page pd vaddr paddr fl s) (entry pd (PD_INDEX vaddr)))" by blast+
qed

lemma map_page_translate:
  assumes inv: "paging_inv s" and pd: "pd \<in> dirs s" and user: "\<not> pres (kpde s (PD_INDEX vaddr))"
    and room: "pres (pmem s (entry pd (PD_INDEX vaddr))) \<or> (\<exists>k < MAX_USER_PT. \<not> user_pt_used s ! k)"
    and pa: "aligned paddr" "flags AND NOT 0xFFF = 0" and pd': "pd' \<in> insert (page_dir_storage s) (dirs s)"
  shows "paging_inv (map_page pd vaddr paddr flags s) \<and> dirs (map_page pd vaddr paddr flags s) = dirs s \<and>
    translate (pmem (map_page pd vaddr paddr flags s)) pd' va =
      (if pd' = pd \<and> PAGE_ALIGN va = PAGE_ALIGN vaddr then Some (paddr OR (va AND 0xFFF), flags AND PAGE_USER \<noteq> 0)
       else translate (pmem s) pd' va)"
proof -
  note so = paging_invD(1) [OF inv]
  define v where "v = paddr OR flags OR PAGE_PRESENT"
  have fl: "(flags OR PAGE_PRESENT) AND NOT 0xFFF = 0"
    using pa(2) by (simp add: bit.conj_disj_distrib2 PAGE_PRESENT_def)
  have v: "v AND NOT 0xFFF = paddr" "pres v" "v AND PAGE_USER = flags AND PAGE_USER"
    using bits_of_flags [OF pa(1) fl] by (simp_all add: v_def bit.conj_disj_distrib2 PAGE_PRESENT_def PAGE_USER_def)
  have main: ?thesis if s1: "paging_inv s1" "dirs s1 = dirs s" "page_dir_storage s1 = page_dir_storage s"
      "t \<in> upts s1" "pmem s1 (entry pd (PD_INDEX vaddr)) = t OR 7"
      "translate (pmem s1) pd' va = translate (pmem s) pd' va"
      "map_page pd vaddr paddr flags s = write_pte t vaddr v s1" for s1 t
    using write_pte_inv(1,2) [OF s1(1,4), of vaddr v] write_pte_translate [OF s1(1,4) _ s1(5), of pd' v va] pd pd'
    by (simp only: s1(2,3,6,7) v) (simp add: v)
  show ?thesis
  proof (cases "pres (pmem s (entry pd (PD_INDEX vaddr)))")
    case True
    obtain t where t: "t \<in> upts s" "pmem s (entry pd (PD_INDEX vaddr)) = t OR 7"
      using paging_invD(4) [OF inv pd index_bounds(1) user True] by blast
    have al: "aligned t" using t(1) tables_mem [OF so] tables_aligned [OF so] by blast
    show ?thesis
      by (rule main [OF inv refl refl t refl]) (simp only: map_page_present [OF True] t(2) bits_of_7(1) [OF al] v_def)
  next
    case False
    with room have "\<not> scan (\<lambda>i. \<not> user_pt_used s ! i) 0 MAX_USER_PT = None" by (auto simp: scan_None)
    then obtain k where sc: "scan (\<lambda>i. \<not> user_pt_used s ! i) 0 MAX_USER_PT = Some k" by blast
    from scan_Some [OF sc] have k: "k < MAX_USER_PT" "\<not> user_pt_used s ! k" by auto
    let ?t = "tbl (user_pt_storage s) k" and ?s1 = "fresh_table pd (PD_INDEX vaddr) k s"
    have t: "aligned ?t \<and> ?t \<noteq> 0" by (rule tables_aligned [OF so tbl_upts(1) [OF so k(1)]])
    show ?thesis
    proof (rule main)
      show "paging_inv ?s1" by (rule fresh_table_inv [OF inv pd index_bounds(1) k False user])
      show "translate (pmem ?s1) pd' va = translate (pmem s) pd' va"
        by (rule fresh_table_translate [OF inv pd index_bounds(1) k False pd'])
      show "map_page pd vaddr paddr flags s = write_pte ?t vaddr v ?s1"
        using map_page_fresh [OF False sc] t by (simp add: v_def)
      show "pmem ?s1 (entry pd (PD_INDEX vaddr)) = ?t OR 7" by (simp add: fresh_table_def)
    qed (simp_all add: fresh_table_same [OF so k(1)])
  qed
qed

text \<open>C19: address spaces are isolated. Mapping a page in one directory outside the kernel's region,
  with a page table there or one to spare, makes exactly the addresses of that page translate to
  the frame, open to ring 3 when the flags say so. No other address of that directory and no address of
  any other directory or of the kernel's changes its translation, and the tables stay well formed.\<close>

theorem map_page_isolated:
  assumes inv: "paging_inv s" and pd: "pd \<in> dirs s" and user: "\<not> pres (kpde s (PD_INDEX vaddr))"
    and room: "pres (pmem s (entry pd (PD_INDEX vaddr))) \<or> (\<exists>k < MAX_USER_PT. \<not> user_pt_used s ! k)"
    and pa: "aligned paddr" "flags AND NOT 0xFFF = 0" and pd': "pd' \<in> insert (page_dir_storage s) (dirs s)"
  shows "paging_inv (map_page pd vaddr paddr flags s) \<and> dirs (map_page pd vaddr paddr flags s) = dirs s \<and>
    translate (pmem (map_page pd vaddr paddr flags s)) pd' va =
      (if pd' = pd \<and> PAGE_ALIGN va = PAGE_ALIGN vaddr then Some (paddr OR (va AND 0xFFF), flags AND PAGE_USER \<noteq> 0)
       else translate (pmem s) pd' va)"
  by (rule map_page_translate [OF assms])

theorem map_page_isolated_witness:
  "translate (pmem (map_page 0x40000 0xBFFFF000 0x800000 (PAGE_RW OR PAGE_USER) demo_paging)) 0x40000 0xBFFFF123 =
     Some (0x800123, True)"
proof -
  have "\<not> pres (kpde demo_paging (PD_INDEX 0xBFFFF000))" "\<exists>k < MAX_USER_PT. \<not> user_pt_used demo_paging ! k"
    by (auto simp: demo_paging_def demo_boot_def MAX_USER_PT_def intro!: exI [of _ 0])
  then have "translate (pmem (map_page 0x40000 0xBFFFF000 0x800000 (PAGE_RW OR PAGE_USER) demo_paging)) 0x40000 0xBFFFF123 =
      (if (0x40000 :: u32) = 0x40000 \<and> PAGE_ALIGN 0xBFFFF123 = PAGE_ALIGN 0xBFFFF000
       then Some (0x800000 OR (0xBFFFF123 AND 0xFFF), (PAGE_RW OR PAGE_USER) AND PAGE_USER \<noteq> 0)
       else translate (pmem demo_paging) 0x40000 0xBFFFF123)"
    using map_page_isolated [OF demo_paging_ok, where vaddr = "0xBFFFF000" and paddr = "0x800000"
        and flags = "PAGE_RW OR PAGE_USER" and pd' = "0x40000" and va = "0xBFFFF123"]
      demo_paging_ok(2) by (simp add: aligned_def PAGE_RW_def PAGE_USER_def)
  then show ?thesis by (simp add: PAGE_ALIGN_def PAGE_RW_def PAGE_USER_def)
qed

lemma alloc_page_directory_new:
  assumes inv: "paging_inv s"
  shows "case alloc_page_directory s of (pd, s') \<Rightarrow>
    if \<forall>k < THREAD_LIMIT. pd_used s ! k then pd = 0 \<and> s' = s
    else pd \<noteq> 0 \<and> pd \<notin> dirs s \<and> dirs s' = insert pd (dirs s) \<and> paging_inv s' \<and>
      (\<forall>va. translate (pmem s') pd va = translate (pmem s) (page_dir_storage s) va) \<and>
      (\<forall>pd' \<in> insert (page_dir_storage s) (dirs s). \<forall>va. translate (pmem s') pd' va = translate (pmem s) pd' va)"
proof (cases "scan (\<lambda>i. \<not> pd_used s ! i) 0 THREAD_LIMIT")
  case None
  then have "\<forall>k < THREAD_LIMIT. pd_used s ! k" by (auto simp: scan_None)
  with None show ?thesis by (simp add: alloc_page_directory_def)
next
  case (Some k)
  from scan_Some [OF this] have k: "k < THREAD_LIMIT" "\<not> pd_used s ! k" by auto
  then have n: "\<not> (\<forall>k < THREAD_LIMIT. pd_used s ! k)" by blast
  note so = paging_invD(1) [OF inv]
  have run: "alloc_page_directory s = (tbl (page_dirs s) k, new_dir k s)"
    using Some by (simp add: alloc_page_directory_def new_dir_def Let_def)
  have "tbl (page_dirs s) k \<noteq> 0" using tables_aligned [OF so tbl_dirs(1) [OF so k(1)]] by blast
  then show ?thesis
    unfolding run prod.case if_not_P [OF n]
    using tbl_dirs(2) [OF so k] new_dir_same(4) [OF so k(1)] new_dir_inv [OF inv k] new_dir_translate(1) [OF inv k]
      new_dir_translate(2) [OF inv k insertI1] by simp
qed

text \<open>C21: a new page directory is an address space with the kernel in it and nothing else. With a
  free directory \<open>alloc_page_directory\<close> returns one that is not in use, which translates every address as the
  kernel does, and changes no other translation; with none it returns null and changes nothing.\<close>

theorem alloc_page_directory_behaviour:
  assumes inv: "paging_inv s"
  shows "case alloc_page_directory s of (pd, s') \<Rightarrow>
    if \<forall>k < THREAD_LIMIT. pd_used s ! k then pd = 0 \<and> s' = s
    else pd \<noteq> 0 \<and> pd \<notin> dirs s \<and> dirs s' = insert pd (dirs s) \<and> paging_inv s' \<and>
      (\<forall>va. translate (pmem s') pd va = translate (pmem s) (page_dir_storage s) va) \<and>
      (\<forall>pd' \<in> insert (page_dir_storage s) (dirs s). \<forall>va. translate (pmem s') pd' va = translate (pmem s) pd' va)"
  by (rule alloc_page_directory_new [OF assms])

theorem alloc_page_directory_behaviour_witness:
  "fst (alloc_page_directory demo_paging) = 0x41000 \<and> paging_inv (snd (alloc_page_directory demo_paging))"
proof -
  have "scan (\<lambda>i. \<not> pd_used demo_paging ! i) 0 THREAD_LIMIT = Some 1"
    by (simp add: demo_paging_def demo_boot_def THREAD_LIMIT_def eval_nat_numeral)
  then have pd: "fst (alloc_page_directory demo_paging) = 0x41000"
    by (simp add: alloc_page_directory_def Let_def tbl_def demo_paging_def demo_boot_def PAGE_SIZE_def)
  then show ?thesis
    using alloc_page_directory_behaviour [OF demo_paging_ok(1)] by (auto split: prod.splits if_splits)
qed

text \<open>C22: frames are handed out once. A sequence of \<open>n\<close> allocations returns as many frames as are
  left, up to \<open>n\<close>, all different and none in use, page aligned between \<open>FRAME_START\<close> and
  \<open>FRAME_END\<close>; freeing a frame makes exactly that frame available.\<close>

theorem frames_handed_out_once:
  assumes "length (frame_bitmap s) = 768" "take_slots frame_take n s = (fs, s')"
  shows "length fs = min n (6144 - card (frames s)) \<and> distinct fs \<and> set fs \<inter> frames s = {} \<and>
    frames s' = frames s \<union> set fs \<and>
    (\<forall>i \<in> set fs. aligned (frame_addr i) \<and> FRAME_START \<le> frame_addr i \<and> frame_addr i < FRAME_END \<and>
       frames (frame_free (frame_addr i) s') = frames s' - {i})"
proof -
  note fresh = fr.take_slots_fresh [OF assms] and len = fr.take_slots_length [OF assms]
  have "aligned (frame_addr i) \<and> FRAME_START \<le> frame_addr i \<and> frame_addr i < FRAME_END \<and>
      frames (frame_free (frame_addr i) s') = frames s' - {i}" if "i \<in> set fs" for i
    using that fresh frame_addr_facts [of i] frame_free_addr(1) [of s' i] by blast
  with fresh len show ?thesis by (simp add: FRAME_COUNT_def)
qed

theorem frames_handed_out_once_witness:
  "\<exists>fs s'. take_slots frame_take 2 demo_paging = (fs, s') \<and> length fs = 2 \<and> distinct fs"
proof -
  obtain fs s' where r: "take_slots frame_take 2 demo_paging = (fs, s')" by fastforce
  have l: "frame_bitmap demo_paging = replicate 768 0" by (simp add: demo_paging_def demo_boot_def)
  then have "length fs = 2 \<and> distinct fs" using frames_handed_out_once [OF _ r] by simp
  with r show ?thesis by blast
qed


end
