(* ===== verification/Ident.thy ===== *)
theory Ident
  imports Memory
begin

text \<open>
  The identifiers of \<open>kernel/id.cpp\<close>: an \<open>IDAllocator\<close> hands out numbers from a pool of reference-counted
  entries, each of which keeps the address of the object it names; when the last user closes an identifier the
  allocator calls its \<open>reaping_func\<close> on that address. \<open>kernel/kstructs.hpp\<close> makes the pool on the heap.
\<close>

section \<open>Operations\<close>

record ident =
  id_ptr :: u32
  id_count :: u16
  id_lock :: lock

text \<open>The functions whose addresses the program stores in an allocator.\<close>

datatype reaping_func = dummy_idk_ptr | thread_reap_delayed_ptr

record id_allocator =
  id_pool :: "ident pool"
  reaping :: reaping_func

text \<open>An entry on the 32-bit target: a pointer, the padded count, a lock of two words.\<close>

definition sizeof_ID :: u32 where "sizeof_ID = 16"

definition sizeof_IDAllocator :: u32 where "sizeof_IDAllocator = 8"

definition ident_zero :: ident where
  "ident_zero = \<lparr>id_ptr = 0, id_count = 0, id_lock = lock_init\<rparr>"

definition kcreate_pool :: "nat \<Rightarrow> 'a \<Rightarrow> u32 \<Rightarrow> u32 \<Rightarrow> heap \<Rightarrow> ('a pool \<times> heap) result" where
  "kcreate_pool kp z sz entries h =
     (let bitmap_bytes = divide_roundup entries 8;
          n = entries * sz + sizeof_pool + bitmap_bytes
      in rbind (kmalloc kp n h) (\<lambda>(start, h).
           if start = 0 then Inl NullDeref else Inr (create_pool z entries start, h)))"

definition create_id_allocator :: "nat \<Rightarrow> u32 \<Rightarrow> reaping_func \<Rightarrow> heap \<Rightarrow> (id_allocator \<times> heap) result" where
  "create_id_allocator kp entries f h =
     rbind (kcreate_pool kp ident_zero sizeof_ID entries h) (\<lambda>(p, h).
     rbind (kmalloc kp sizeof_IDAllocator h) (\<lambda>(rt, h).
       if rt = 0 then Inl NullDeref else Inr (\<lparr>id_pool = p, reaping = f\<rparr>, h)))"

definition upd_ident :: "nat \<Rightarrow> (ident \<Rightarrow> ident) \<Rightarrow> id_allocator \<Rightarrow> id_allocator" where
  "upd_ident n f a = a\<lparr>id_pool := (id_pool a)\<lparr>datamap := (datamap (id_pool a))(n := f (datamap (id_pool a) n))\<rparr>\<rparr>"

definition ident_at :: "id_allocator \<Rightarrow> nat \<Rightarrow> ident" where
  "ident_at a n = datamap (id_pool a) n"

text \<open>\<open>next\<close> writes the entry whose number \<open>allocate\<close> gave; when the pool is full that number is -1 and the
  entry lies in front of the array.\<close>

definition id_next :: "u32 \<Rightarrow> id_allocator \<Rightarrow> (u32 \<times> id_allocator) result" where
  "id_next ptr a =
     rbind (pool_allocate (id_pool a)) (\<lambda>(i, p).
       if i = - 1 then Inl OutOfBounds
       else Inr (i, upd_ident (unat i) (\<lambda>_. \<lparr>id_ptr = ptr, id_count = 1, id_lock = lock_init\<rparr>) (a\<lparr>id_pool := p\<rparr>)))"

definition id_open :: "u32 \<Rightarrow> id_allocator \<Rightarrow> id_allocator result" where
  "id_open i a =
     (let n = unat i
      in if max_entries (id_pool a) \<le> i then Inl OutOfBounds
         else rbind (lock_acquire (id_lock (ident_at a n))) (\<lambda>l.
           let a = upd_ident n (\<lambda>e. e\<lparr>id_lock := l\<rparr>) a
           in if id_count (ident_at a n) = 0 then Inr a
              else
                let a = upd_ident n (\<lambda>e. e\<lparr>id_count := id_count e + 1\<rparr>) a
                in Inr (upd_ident n (\<lambda>e. e\<lparr>id_lock := lock_release (id_lock e)\<rparr>) a)))"

text \<open>\<open>call\<close> runs the function that the allocator was made with; what it changes is the state \<open>s\<close>.\<close>

definition id_close :: "(reaping_func \<Rightarrow> u32 \<Rightarrow> 's \<Rightarrow> 's result) \<Rightarrow> u32 \<Rightarrow> id_allocator \<Rightarrow> 's \<Rightarrow> (id_allocator \<times> 's) result" where
  "id_close call i a s =
     (let n = unat i
      in if max_entries (id_pool a) \<le> i then Inl OutOfBounds
         else rbind (lock_acquire (id_lock (ident_at a n))) (\<lambda>l.
           let a = upd_ident n (\<lambda>e. e\<lparr>id_lock := l\<rparr>) a
           in if id_count (ident_at a n) = 0 then Inr (a, s)
              else
                let a = upd_ident n (\<lambda>e. e\<lparr>id_count := id_count e - 1\<rparr>) a
                in rbind (if id_count (ident_at a n) = 0
                          then rbind (call (reaping a) (id_ptr (ident_at a n)) s) (\<lambda>s.
                               rbind (pool_free i (id_pool a)) (\<lambda>p. Inr (a\<lparr>id_pool := p\<rparr>, s)))
                          else Inr (a, s)) (\<lambda>(a, s).
                     Inr (upd_ident n (\<lambda>e. e\<lparr>id_lock := lock_release (id_lock e)\<rparr>) a, s))))"

section \<open>Reference counting\<close>

text \<open>The object and the number of users of every identifier in use.\<close>

definition refs :: "id_allocator \<Rightarrow> nat \<Rightarrow> (u32 \<times> nat) option" where
  "refs a n = (if n \<in> pool_used (id_pool a) then Some (id_ptr (ident_at a n), unat (id_count (ident_at a n))) else None)"

definition id_inv :: "id_allocator \<Rightarrow> bool" where
  "id_inv a \<longleftrightarrow> pool_inv (id_pool a) \<and>
     (\<forall>n < pool_cap (id_pool a). lock_free (id_lock (ident_at a n)) \<and>
        (n \<in> pool_used (id_pool a) \<longleftrightarrow> id_count (ident_at a n) \<noteq> 0))"

definition id_room :: "id_allocator \<Rightarrow> bool" where
  "id_room a \<longleftrightarrow> pool_used (id_pool a) \<noteq> {..<pool_cap (id_pool a)}"

datatype id_use = Opened | Closed

text \<open>The number of users after a sequence of uses, as long as there is one and there are not too many.\<close>

fun users :: "nat \<Rightarrow> nat \<Rightarrow> id_use list \<Rightarrow> nat option" where
  "users lim c [] = Some c"
| "users lim c (Opened # us) = (if 0 < c \<and> c < lim then users lim (Suc c) us else None)"
| "users lim c (Closed # us) = (if 0 < c then users lim (c - 1) us else None)"

lemma users_0: "users lim 0 us = Some d \<Longrightarrow> us = [] \<and> d = 0"
  by (cases "(lim, 0 :: nat, us)" rule: users.cases) simp_all

primrec uses :: "(u32 \<Rightarrow> 'a \<Rightarrow> 'a result) \<Rightarrow> (u32 \<Rightarrow> 'a \<Rightarrow> 's \<Rightarrow> ('a \<times> 's) result) \<Rightarrow>
    u32 \<Rightarrow> id_use list \<Rightarrow> 'a \<Rightarrow> 's \<Rightarrow> ('a \<times> 's) result" where
  "uses opn cls i [] a s = Inr (a, s)"
| "uses opn cls i (u # us) a s =
     rbind (case u of Opened \<Rightarrow> rbind (opn i a) (\<lambda>a. Inr (a, s)) | Closed \<Rightarrow> cls i a s) (\<lambda>(a, s). uses opn cls i us a s)"

locale refcount =
  fixes inv :: "'a \<Rightarrow> bool"
    and room :: "'a \<Rightarrow> bool"
    and held :: "'a \<Rightarrow> nat \<Rightarrow> (u32 \<times> nat) option"
    and new :: "u32 \<Rightarrow> 'a \<Rightarrow> (u32 \<times> 'a) result"
    and opn :: "u32 \<Rightarrow> 'a \<Rightarrow> 'a result"
    and cls :: "('f \<Rightarrow> u32 \<Rightarrow> 's \<Rightarrow> 's result) \<Rightarrow> u32 \<Rightarrow> 'a \<Rightarrow> 's \<Rightarrow> ('a \<times> 's) result"
    and reaper :: "'a \<Rightarrow> 'f"
    and lim :: nat
  assumes new_law: "inv a \<Longrightarrow> room a \<Longrightarrow> \<exists>i a'. new p a = Inr (i, a') \<and> inv a' \<and> reaper a' = reaper a \<and>
      held a (unat i) = None \<and> held a' = (held a)(unat i \<mapsto> (p, 1))"
    and opn_law: "inv a \<Longrightarrow> held a (unat i) = Some (p, c) \<Longrightarrow> c < lim \<Longrightarrow>
      \<exists>a'. opn i a = Inr a' \<and> inv a' \<and> reaper a' = reaper a \<and> held a' = (held a)(unat i \<mapsto> (p, Suc c))"
    and cls_law: "inv a \<Longrightarrow> held a (unat i) = Some (p, c) \<Longrightarrow> 1 < c \<Longrightarrow>
      \<exists>a'. cls call i a s = Inr (a', s) \<and> inv a' \<and> reaper a' = reaper a \<and> held a' = (held a)(unat i \<mapsto> (p, c - 1))"
    and last_law: "inv a \<Longrightarrow> held a (unat i) = Some (p, 1) \<Longrightarrow> call (reaper a) p s = Inr s' \<Longrightarrow>
      \<exists>a'. cls call i a s = Inr (a', s') \<and> inv a' \<and> reaper a' = reaper a \<and> held a' = (held a)(unat i := None)"
begin

lemma uses_alive:
  "inv a \<Longrightarrow> held a (unat i) = Some (p, c) \<Longrightarrow> users lim c us = Some d \<Longrightarrow> 0 < d \<Longrightarrow>
     \<exists>a'. uses opn (cls call) i us a s = Inr (a', s) \<and> inv a' \<and> reaper a' = reaper a \<and> held a' = (held a)(unat i \<mapsto> (p, d))"
proof (induction us arbitrary: a c)
  case Nil
  then show ?case by auto
next
  case (Cons u us)
  show ?case
  proof (cases u)
    case Opened
    with Cons.prems have c: "c < lim" "users lim (Suc c) us = Some d" by (auto split: if_splits)
    from opn_law [OF Cons.prems(1,2) c(1)] obtain a' where
      a': "opn i a = Inr a'" "inv a'" "reaper a' = reaper a" "held a' = (held a)(unat i \<mapsto> (p, Suc c))" by blast
    with Cons.IH [OF a'(2) _ c(2) Cons.prems(4)] show ?thesis by (auto simp: Opened fun_eq_iff)
  next
    case Closed
    with Cons.prems have c: "0 < c" "users lim (c - 1) us = Some d" by (auto split: if_splits)
    then have "1 < c" using Cons.prems(4) users_0 by (cases "c = 1") auto
    from cls_law [OF Cons.prems(1,2) this] obtain a' where
      a': "cls call i a s = Inr (a', s)" "inv a'" "reaper a' = reaper a" "held a' = (held a)(unat i \<mapsto> (p, c - 1))" by blast
    with Cons.IH [OF a'(2) _ c(2) Cons.prems(4)] show ?thesis by (auto simp: Closed fun_eq_iff)
  qed
qed

lemma uses_last:
  "inv a \<Longrightarrow> held a (unat i) = Some (p, c) \<Longrightarrow> 0 < c \<Longrightarrow> users lim c us = Some 0 \<Longrightarrow> call (reaper a) p s = Inr s' \<Longrightarrow>
     \<exists>a'. uses opn (cls call) i us a s = Inr (a', s') \<and> inv a' \<and> held a' = (held a)(unat i := None)"
proof (induction us arbitrary: a c)
  case Nil
  then show ?case by simp
next
  case (Cons u us)
  consider "u = Opened" | "u = Closed" "1 < c" | "u = Closed" "c = 1" using Cons.prems(3) by (cases u) force+
  then show ?case
  proof cases
    case 1
    with Cons.prems have c: "c < lim" "users lim (Suc c) us = Some 0" by (auto split: if_splits)
    from opn_law [OF Cons.prems(1,2) c(1)] obtain a' where
      a': "opn i a = Inr a'" "inv a'" "reaper a' = reaper a" "held a' = (held a)(unat i \<mapsto> (p, Suc c))" by blast
    with Cons.IH [OF a'(2) _ _ c(2)] Cons.prems(5) show ?thesis by (auto simp: 1 fun_eq_iff)
  next
    case 2
    with Cons.prems have c: "users lim (c - 1) us = Some 0" by (auto split: if_splits)
    from cls_law [OF Cons.prems(1,2) 2(2)] obtain a' where
      a': "cls call i a s = Inr (a', s)" "inv a'" "reaper a' = reaper a" "held a' = (held a)(unat i \<mapsto> (p, c - 1))" by blast
    with Cons.IH [OF a'(2) _ _ c] Cons.prems(5) 2 show ?thesis by (auto simp: fun_eq_iff)
  next
    case 3
    with Cons.prems have us: "us = []" using users_0 by auto
    from last_law [of a i p call s s'] Cons.prems(1,2,5) 3 us show ?thesis by auto
  qed
qed

lemma lifecycle:
  assumes "inv a" "room a" "users lim 1 us = Some d"
  obtains i a1 where "new p a = Inr (i, a1)" "held a (unat i) = None"
    "0 < d \<Longrightarrow> \<exists>a'. uses opn (cls call) i us a1 s = Inr (a', s) \<and> inv a' \<and> held a' = (held a)(unat i \<mapsto> (p, d))"
    "d = 0 \<Longrightarrow> call (reaper a) p s = Inr s' \<Longrightarrow> \<exists>a'. uses opn (cls call) i us a1 s = Inr (a', s') \<and> inv a' \<and> held a' = held a"
proof -
  from new_law [OF assms(1,2)] obtain i a1 where
    n: "new p a = Inr (i, a1)" "inv a1" "reaper a1 = reaper a" "held a (unat i) = None" "held a1 = (held a)(unat i \<mapsto> (p, 1))"
    by blast
  then have h: "held a1 (unat i) = Some (p, 1)" by simp
  have "\<exists>a'. uses opn (cls call) i us a1 s = Inr (a', s) \<and> inv a' \<and> held a' = (held a)(unat i \<mapsto> (p, d))" if "0 < d"
    using uses_alive [OF n(2) h assms(3) that] n(5) by auto
  moreover have "\<exists>a'. uses opn (cls call) i us a1 s = Inr (a', s') \<and> inv a' \<and> held a' = held a"
    if d: "d = 0" and c: "call (reaper a) p s = Inr s'"
  proof -
    have "(held a)(unat i := None) = held a" using n(4) by auto
    with uses_last [OF n(2) h _ assms(3) [unfolded d]] c n(3,5) show ?thesis by auto
  qed
  ultimately show thesis using that n by blast
qed

end

section \<open>The allocator counts references\<close>

lemma upd_ident_simps [simp]:
  "ident_at (upd_ident n f a) m = (if m = n then f (ident_at a n) else ident_at a m)"
  "reaping (upd_ident n f a) = reaping a"
  "pool_used (id_pool (upd_ident n f a)) = pool_used (id_pool a)"
  "pool_cap (id_pool (upd_ident n f a)) = pool_cap (id_pool a)"
  "pool_inv (id_pool (upd_ident n f a)) = pool_inv (id_pool a)"
  "max_entries (id_pool (upd_ident n f a)) = max_entries (id_pool a)"
  by (auto simp: upd_ident_def ident_at_def pool_used_def pool_cap_def pool_inv_def)

lemma refs_upd:
  "refs (upd_ident n f a) = (\<lambda>m. if m = n \<and> n \<in> pool_used (id_pool a)
     then Some (id_ptr (f (ident_at a n)), unat (id_count (f (ident_at a n)))) else refs a m)"
  by (auto simp: refs_def fun_eq_iff)

lemma refs_used: "refs a (unat i) = Some (p, c) \<Longrightarrow>
    unat i \<in> pool_used (id_pool a) \<and> unat i < pool_cap (id_pool a) \<and> \<not> max_entries (id_pool a) \<le> i \<and>
    p = id_ptr (ident_at a (unat i)) \<and> c = unat (id_count (ident_at a (unat i)))"
  by (auto simp: refs_def pool_used_def pool_cap_def word_le_nat_alt split: if_splits)

lemma id_next_run:
  assumes "id_inv a" "id_room a"
  shows "\<exists>i a'. id_next ptr a = Inr (i, a') \<and> id_inv a' \<and> reaping a' = reaping a \<and>
    refs a (unat i) = None \<and> refs a' = (refs a)(unat i \<mapsto> (ptr, 1))"
proof -
  have "pool_inv (id_pool a)" using assms(1) by (simp add: id_inv_def)
  then show ?thesis
  proof (cases rule: pool_allocate_cases)
    case (found i p')
    note u = of_nat_less_cap [OF found(2)]
    define b where "b = upd_ident i (\<lambda>_. \<lparr>id_ptr = ptr, id_count = 1, id_lock = lock_init\<rparr>) (a\<lparr>id_pool := p'\<rparr>)"
    have run: "id_next ptr a = Inr (of_nat i, b)"
      unfolding id_next_def found(1) rbind_Inr prod.case b_def u(1) by (simp only: u if_False)
    have e: "ident_at (a\<lparr>id_pool := p'\<rparr>) = ident_at a" using found(8) by (simp add: ident_at_def fun_eq_iff)
    have "id_inv b" using assms(1) found e by (auto simp: id_inv_def b_def)
    moreover have "refs b = (refs a)(i \<mapsto> (ptr, 1))" using found e by (auto simp: b_def refs_def fun_eq_iff)
    moreover have "refs a i = None" "reaping b = reaping a" using found(3) by (simp_all add: refs_def b_def)
    ultimately show ?thesis using run by (intro exI [of _ "of_nat i"] exI [of _ b]) (simp only: u(1) simp_thms)
  next
    case (full p')
    with assms(2) show ?thesis by (simp add: id_room_def)
  qed
qed

lemma id_next_full:
  assumes "id_inv a" "\<not> id_room a"
  shows "id_next ptr a = Inl OutOfBounds"
proof -
  have "pool_inv (id_pool a)" using assms(1) by (simp add: id_inv_def)
  then show ?thesis using assms(2) by (cases rule: pool_allocate_cases) (auto simp: id_next_def id_room_def)
qed

lemma unat_u16_Suc: "unat (w :: u16) < 65535 \<Longrightarrow> unat (w + 1) = Suc (unat w)"
  by (simp add: unat_word_ariths)

lemma unat_u16_pred: "0 < unat (w :: u16) \<Longrightarrow> unat (w - 1) = unat w - 1"
  by (rule unat_minus_one) auto

lemma id_open_run:
  assumes "id_inv a" "refs a (unat i) = Some (p, c)" "c < 65535"
  shows "\<exists>a'. id_open i a = Inr a' \<and> id_inv a' \<and> reaping a' = reaping a \<and> refs a' = (refs a)(unat i \<mapsto> (p, Suc c))"
proof -
  note u = refs_used [OF assms(2)]
  from u assms have f: "lock_free (id_lock (ident_at a (unat i)))" "id_count (ident_at a (unat i)) \<noteq> 0"
    by (auto simp: id_inv_def)
  have c: "unat (id_count (ident_at a (unat i)) + 1) = Suc c" using u assms(3) by (intro trans [OF unat_u16_Suc]) auto
  then have "id_count (ident_at a (unat i)) + 1 \<noteq> 0" by (metis nat.distinct(1) unsigned_0)
  with u f c assms(1) show ?thesis by (auto simp: id_open_def Let_def refs_upd id_inv_def)
qed

lemma id_close_more:
  assumes "id_inv a" "refs a (unat i) = Some (p, c)" "1 < c"
  shows "\<exists>a'. id_close call i a s = Inr (a', s) \<and> id_inv a' \<and> reaping a' = reaping a \<and> refs a' = (refs a)(unat i \<mapsto> (p, c - 1))"
proof -
  note u = refs_used [OF assms(2)]
  from u assms have f: "lock_free (id_lock (ident_at a (unat i)))" "id_count (ident_at a (unat i)) \<noteq> 0"
    by (auto simp: id_inv_def)
  have c: "unat (id_count (ident_at a (unat i)) - 1) = c - 1" using u assms(3) by (simp add: unat_u16_pred)
  then have "id_count (ident_at a (unat i)) - 1 \<noteq> 0" using assms(3) by (metis diff_is_0_eq not_less unsigned_0)
  with u f c assms(1) show ?thesis by (auto simp: id_close_def Let_def refs_upd id_inv_def)
qed

lemma id_close_last:
  assumes "id_inv a" "refs a (unat i) = Some (p, 1)" "call (reaping a) p s = Inr s'"
  shows "\<exists>a'. id_close call i a s = Inr (a', s') \<and> id_inv a' \<and> reaping a' = reaping a \<and> refs a' = (refs a)(unat i := None)"
proof -
  note u = refs_used [OF assms(2)]
  from u assms have f: "lock_free (id_lock (ident_at a (unat i)))" "id_count (ident_at a (unat i)) = 1"
    by (auto simp: id_inv_def word_unat_eq_iff)
  define b where "b = upd_ident (unat i) (\<lambda>e. e\<lparr>id_lock := (id_lock e)\<lparr>lk_status := LOCKED\<rparr>, id_count := 0\<rparr>) a"
  have "pool_inv (id_pool b)" "unat i < pool_cap (id_pool b)" using assms(1) u by (simp_all add: b_def id_inv_def)
  from pool_free_used [OF this] obtain p' where
    p': "pool_free i (id_pool b) = Inr p'" "pool_inv p'" "pool_used p' = pool_used (id_pool a) - {unat i}"
      "pool_cap p' = pool_cap (id_pool a)" "datamap p' = datamap (id_pool b)"
    by (auto simp: b_def)
  have b: "upd_ident (unat i) (\<lambda>e. e\<lparr>id_count := id_count e - 1\<rparr>) (upd_ident (unat i) (\<lambda>e. e\<lparr>id_lock := l\<rparr>) a) = b"
    if "l = (id_lock (ident_at a (unat i)))\<lparr>lk_status := LOCKED\<rparr>" for l
    using that f(2) by (simp add: b_def upd_ident_def ident_at_def)
  define d where "d = upd_ident (unat i) (\<lambda>e. e\<lparr>id_lock := lock_release (id_lock e)\<rparr>) (b\<lparr>id_pool := p'\<rparr>)"
  have "id_close call i a s = Inr (d, s')"
    using u f(1) assms(3) p'(1) by (simp add: id_close_def Let_def b d_def [symmetric]) (simp add: b_def f(2) d_def)
  moreover have e: "ident_at (b\<lparr>id_pool := p'\<rparr>) m = ident_at b m" for m using p'(5) by (simp add: ident_at_def)
  have d: "id_count (ident_at d m) = (if m = unat i then 0 else id_count (ident_at a m))"
    "id_ptr (ident_at d m) = id_ptr (ident_at a m)"
    "lock_free (id_lock (ident_at d m)) \<longleftrightarrow> m = unat i \<or> lock_free (id_lock (ident_at a m))"
    "pool_used (id_pool d) = pool_used (id_pool a) - {unat i}" "pool_cap (id_pool d) = pool_cap (id_pool a)" "pool_inv (id_pool d)" for m
    using p'(2-4) by (simp_all add: d_def e) (simp_all add: b_def)
  have "id_inv d" using assms(1) u by (auto simp: id_inv_def d)
  moreover have "refs d = (refs a)(unat i := None)" by (auto simp: refs_def d fun_eq_iff)
  moreover have "reaping d = reaping a" by (simp add: d_def b_def)
  ultimately show ?thesis by blast
qed

interpretation ids: refcount id_inv id_room refs id_next id_open id_close reaping 65535
  by unfold_locales (rule id_next_run id_open_run id_close_more id_close_last; assumption)+

section \<open>Properties\<close>

text \<open>C33: the life of an identifier. \<open>next\<close> hands out a number that is not in use, with one user. Whatever sequence of
  opens and closes follows, as long as there is a user and there are fewer than 65535: while users remain, the
  identifier keeps its object and nothing is reaped; the close of the last user calls the reaping function on the
  object, exactly once, and makes the number free. No other identifier changes.\<close>

theorem id_lifecycle:
  assumes "id_inv a" "id_room a" "users 65535 1 us = Some d" "call (reaping a) p s = Inr s'"
  shows "\<exists>i a1 a'. id_next p a = Inr (i, a1) \<and> refs a (unat i) = None \<and>
    uses id_open (id_close call) i us a1 s = Inr (a', if d = 0 then s' else s) \<and> id_inv a' \<and>
    refs a' = (if d = 0 then refs a else (refs a)(unat i \<mapsto> (p, d)))"
proof (rule ids.lifecycle [OF assms(1-3), of p call s s'])
  fix i a1
  assume "id_next p a = Inr (i, a1)" "refs a (unat i) = None"
    "0 < d \<Longrightarrow> \<exists>a'. uses id_open (id_close call) i us a1 s = Inr (a', s) \<and> id_inv a' \<and> refs a' = (refs a)(unat i \<mapsto> (p, d))"
    "d = 0 \<Longrightarrow> call (reaping a) p s = Inr s' \<Longrightarrow>
      \<exists>a'. uses id_open (id_close call) i us a1 s = Inr (a', s') \<and> id_inv a' \<and> refs a' = refs a"
  then show ?thesis using assms(4) by (cases "d = 0") auto
qed

definition demo_ids :: id_allocator where
  "demo_ids = \<lparr>id_pool = create_pool ident_zero 128 0x200000, reaping = thread_reap_delayed_ptr\<rparr>"

lemma demo_ids_ok: "id_inv demo_ids" "id_room demo_ids"
proof -
  have c: "pool_inv (id_pool demo_ids)" "pool_used (id_pool demo_ids) = {}" "pool_cap (id_pool demo_ids) = 128"
    using create_pool_inv [of 128 ident_zero "0x200000"] by (simp_all add: demo_ids_def)
  moreover have "ident_at demo_ids n = ident_zero" for n by (simp add: ident_at_def demo_ids_def create_pool_def Let_def)
  ultimately show "id_inv demo_ids" by (simp add: id_inv_def ident_zero_def)
  have "(0 :: nat) \<in> {..<128}" by simp
  then show "id_room demo_ids" using c unfolding id_room_def by (metis empty_iff)
qed

theorem id_lifecycle_witness:
  "\<exists>i a1 a'. id_next 0x300000 demo_ids = Inr (i, a1) \<and>
     uses id_open (id_close (\<lambda>f p s. Inr (p # s))) i [Opened, Opened, Closed, Closed, Closed] a1 [] = Inr (a', [0x300000]) \<and>
     refs a' = refs demo_ids"
  using id_lifecycle [OF demo_ids_ok, of "[Opened, Opened, Closed, Closed, Closed]" 0 "\<lambda>f p s. Inr (p # s)" "0x300000" "[]" "[0x300000]"]
  by auto

text \<open>An identifier without users, opened or closed, stays locked: neither operation on it returns again.\<close>

theorem unused_id_stays_locked:
  assumes "id_inv a" "i < max_entries (id_pool a)" "refs a (unat i) = None"
  shows "\<exists>a'. id_open i a = Inr a' \<and> id_close call i a s = Inr (a', s) \<and>
    id_open i a' = Inl Blocked \<and> id_close call i a' s = Inl Blocked"
proof -
  have n: "unat i < pool_cap (id_pool a)" using assms(2) by (simp add: pool_cap_def word_less_nat_alt)
  moreover have "unat i \<notin> pool_used (id_pool a)" using assms(3) by (auto simp: refs_def split: if_splits)
  ultimately have "lock_free (id_lock (ident_at a (unat i)))" "id_count (ident_at a (unat i)) = 0"
    using assms(1) by (auto simp: id_inv_def)
  with assms(2) show ?thesis by (auto simp: id_open_def id_close_def Let_def lock_acquire_def lock_free_def)
qed

text \<open>When all numbers are in use, \<open>next\<close> writes in front of the array before its caller sees the error value.\<close>

theorem id_next_out_of_ids: "id_inv a \<Longrightarrow> (id_next p a = Inl OutOfBounds) = (\<not> id_room a)"
  using id_next_run [of a p] id_next_full [of a p] by fastforce

text \<open>The count has 16 bits: the open of user 65536 leaves an identifier in use with a count of 0.\<close>

theorem id_count_wraps:
  assumes "id_inv a" "refs a (unat i) = Some (p, 65535)"
  shows "\<exists>a'. id_open i a = Inr a' \<and> refs a' (unat i) = Some (p, 0)"
proof -
  note u = refs_used [OF assms(2)]
  have "unat (id_count (ident_at a (unat i)) + 1) = 0" using u by (simp add: unat_word_ariths)
  moreover from u assms have "lock_free (id_lock (ident_at a (unat i)))" "id_count (ident_at a (unat i)) \<noteq> 0"
    by (auto simp: id_inv_def)
  ultimately show ?thesis using u by (auto simp: id_open_def Let_def refs_upd)
qed

end
