(* ===== verification/Threads.thy ===== *)
theory Threads
  imports Traps Paging Ident Print
begin

text \<open>
  The creation and the end of threads in \<open>kernel/kernel.cpp\<close>, over the scheduler, the heap, the paging structures, the
  identifiers and the console. The words of the stacks are a memory of their own, as the processor of
  \<open>Entry\<close> sees it; the disk and the bytes it fills are used by the loader.
\<close>

section \<open>The state of the kernel\<close>

record kernel =
  sch :: sched
  pg :: paging
  object_allocator :: id_allocator
  pid_allocator :: id_allocator
  tid_allocator :: id_allocator
  words :: "u32 \<Rightarrow> u32"
  bytes :: "u32 \<Rightarrow> u8"
  con :: console

text \<open>The addresses of the functions that a new thread's stack refers to.\<close>

record symbols =
  call_exit_sym :: u32
  r0_exit_sym :: u32
  kthread_trampoline_sym :: u32
  uthread_trampoline_sym :: u32

definition set_heap :: "heap \<Rightarrow> kernel \<Rightarrow> kernel" where
  "set_heap h k = k\<lparr>sch := (sch k)\<lparr>kheap := h\<rparr>\<rparr>"

definition set_thread :: "u32 \<Rightarrow> (thread \<Rightarrow> thread) \<Rightarrow> kernel \<Rightarrow> kernel" where
  "set_thread t f k = k\<lparr>sch := upd_thread t f (sch k)\<rparr>"

definition set_word :: "u32 \<Rightarrow> u32 \<Rightarrow> kernel \<Rightarrow> kernel" where
  "set_word a v k = k\<lparr>words := (words k)(a := v)\<rparr>"

text \<open>A message without arguments.\<close>

definition kmessage :: "string \<Rightarrow> kernel \<Rightarrow> kernel result" where
  "kmessage msg k = rbind (kprintf (\<lambda>_. []) (literal msg) [] (con k)) (\<lambda>c. Inr (k\<lparr>con := c\<rparr>))"

section \<open>Identifiers\<close>

text \<open>The functions that \<open>close\<close> calls: one prints, the other marks the thread as exited.\<close>

definition thread_reap_delayed :: "u32 \<Rightarrow> kernel \<Rightarrow> kernel result" where
  "thread_reap_delayed addr k = Inr (set_thread addr (\<lambda>t. t\<lparr>state := EXITED\<rparr>) k)"

definition dummy_idk :: "u32 \<Rightarrow> kernel \<Rightarrow> kernel result" where
  "dummy_idk p k = kmessage ''I do nothing\<newline>'' k"

definition reap_call :: "reaping_func \<Rightarrow> u32 \<Rightarrow> kernel \<Rightarrow> kernel result" where
  "reap_call f p k = (case f of dummy_idk_ptr \<Rightarrow> dummy_idk p k | thread_reap_delayed_ptr \<Rightarrow> thread_reap_delayed p k)"

definition init_ids :: "kernel \<Rightarrow> kernel result" where
  "init_ids k =
     rbind (create_id_allocator (kpool (sch k)) 128 dummy_idk_ptr (kheap (sch k))) (\<lambda>(a, h).
       let k = set_heap h (k\<lparr>object_allocator := a\<rparr>)
       in rbind (create_id_allocator (kpool (sch k)) 128 dummy_idk_ptr (kheap (sch k))) (\<lambda>(a, h).
            let k = set_heap h (k\<lparr>pid_allocator := a\<rparr>)
            in rbind (create_id_allocator (kpool (sch k)) 128 thread_reap_delayed_ptr (kheap (sch k))) (\<lambda>(a, h).
                 Inr (set_heap h (k\<lparr>tid_allocator := a\<rparr>)))))"

section \<open>Threads\<close>

definition sizeof_Thread :: u32 where "sizeof_Thread = 36"

definition thread_zero :: thread where
  "thread_zero = \<lparr>tid = 0, state = READY, kernel_stack = \<lparr>bottom = 0, sp = 0\<rparr>, user_stack = \<lparr>bottom = 0, sp = 0\<rparr>,
     page_directory = 0, t_next = 0, t_prev = 0\<rparr>"

definition USER_STACK_PAGE :: u32 where "USER_STACK_PAGE = 0xBFFFF000"

definition allocate_kstack :: "u32 \<Rightarrow> kernel \<Rightarrow> kernel result" where
  "allocate_kstack t k =
     rbind (kmalloc (kpool (sch k)) STACK_SIZE (kheap (sch k))) (\<lambda>(b, h).
       Inr (set_thread t (\<lambda>x. x\<lparr>kernel_stack := configure_stack b STACK_SIZE\<rparr>) (set_heap h k)))"

text \<open>The user stack: a frame, mapped at the top of user space, with the address of \<open>call_exit\<close> in its last word. The
  result is whether there was a frame.\<close>

definition thread_user_stack :: "bool \<Rightarrow> symbols \<Rightarrow> u32 \<Rightarrow> kernel \<Rightarrow> (bool \<times> kernel) result" where
  "thread_user_stack user syms t k =
     (if user
      then
        let (paddr, p) = frame_alloc (pg k);
            k = k\<lparr>pg := p\<rparr>
        in if paddr = 0
           then rbind (kmessage ''ERROR: OUT OF MEMORY\<newline>'' k) (\<lambda>k.
                rbind (free_kstack (kernel_stack (threads (sch k) t)) (sch k)) (\<lambda>s. Inr (False, k\<lparr>sch := s\<rparr>)))
           else
             let vaddr_base = USER_STACK_PAGE;
                 k = k\<lparr>pg := map_page (page_directory (threads (sch k) t)) vaddr_base paddr (PAGE_RW OR PAGE_USER) (pg k)\<rparr>;
                 k = set_word (paddr + PAGE_SIZE - 4) (call_exit_sym syms) k;
                 k = set_thread t (\<lambda>x. x\<lparr>user_stack := (user_stack x)\<lparr>bottom := paddr\<rparr>\<rparr>) k;
                 k = set_thread t (\<lambda>x. x\<lparr>user_stack := (user_stack x)\<lparr>sp := vaddr_base + PAGE_SIZE - 4\<rparr>\<rparr>) k
             in Inr (True, k)
      else Inr (True, set_thread t (\<lambda>x. x\<lparr>user_stack := \<lparr>bottom = 0, sp = 0\<rparr>\<rparr>) k))"

text \<open>The first stack frame of a thread, which makes the switch to it go to its trampoline.\<close>

definition thread_frame :: "bool \<Rightarrow> symbols \<Rightarrow> u32 \<Rightarrow> u32 \<Rightarrow> kernel \<Rightarrow> kernel" where
  "thread_frame user syms entry_fn t k =
     (let top = sp (kernel_stack (threads (sch k) t));
          (top, k) =
            (if user
             then
               let k = set_thread t (\<lambda>x. x\<lparr>user_stack := (user_stack x)\<lparr>sp := sp (user_stack x) - 4\<rparr>\<rparr>) k;
                   u = user_stack (threads (sch k) t);
                   phys_sp = bottom u + (sp u - USER_STACK_PAGE)
               in (top, set_word phys_sp (call_exit_sym syms) k)
             else (top - 4, set_word (top - 4) (r0_exit_sym syms) k));
          top = top - sizeof_SwitchFrame;
          k = set_thread t (\<lambda>x. x\<lparr>kernel_stack := (kernel_stack x)\<lparr>sp := top\<rparr>\<rparr>) k;
          frame = \<lparr>f_gs = 0x10, f_fs = 0x10, f_es = 0x10, f_ds = 0x10, f_edi = 0,
             f_esi = (if user then sp (user_stack (threads (sch k) t)) else 0), f_ebp = 0, f_esp_unused = 0,
             f_ebx = entry_fn, f_edx = 0, f_ecx = 0, f_eax = 0,
             f_return_eip = (if user then uthread_trampoline_sym syms else kthread_trampoline_sym syms)\<rparr>
      in k\<lparr>words := write_frame frame top (words k)\<rparr>)"

definition thread_create :: "bool \<Rightarrow> symbols \<Rightarrow> u32 \<Rightarrow> kernel \<Rightarrow> (u32 \<times> kernel) result" where
  "thread_create user syms entry_fn k =
     rbind (kmalloc (kpool (sch k)) sizeof_Thread (kheap (sch k))) (\<lambda>(t, h).
     rbind (id_next t (tid_allocator k)) (\<lambda>(i, a).
       let k = set_heap h (k\<lparr>tid_allocator := a\<rparr>)
       in if i = - 1 then Inr (0, k)
          else if t = 0 then Inl NullDeref
          else
            let k = set_thread t (\<lambda>_. thread_zero) k;
                k = set_thread t (\<lambda>x. x\<lparr>tid := i\<rparr>) k;
                k = set_thread t (\<lambda>x. x\<lparr>state := READY\<rparr>) k;
                (pd, p) = alloc_page_directory (pg k);
                k = set_thread t (\<lambda>x. x\<lparr>page_directory := pd\<rparr>) (k\<lparr>pg := p\<rparr>)
            in if pd = 0 then rbind (kmessage ''ERROR: PAGE DIRECTORYn't\<newline>'' k) (\<lambda>k. Inr (0, k))
               else
                 rbind (allocate_kstack t k) (\<lambda>k.
                   if bottom (kernel_stack (threads (sch k) t)) = 0
                   then rbind (kmessage ''ERROR: OUT OF MEMORY\<newline>'' k) (\<lambda>k. Inr (0, k))
                   else rbind (thread_user_stack user syms t k) (\<lambda>(ok, k).
                     if \<not> ok then Inr (0, k)
                     else
                       let k = thread_frame user syms entry_fn t k
                       in Inr (t, k\<lparr>sch := splice t (sch k)\<rparr>)))))"

definition thread_create_user :: "symbols \<Rightarrow> u32 \<Rightarrow> kernel \<Rightarrow> (u32 \<times> kernel) result" where
  "thread_create_user syms entry_fn k = thread_create True syms entry_fn k"

text \<open>The end of a kernel thread: its identifier is closed, which marks it as exited; then it calls the scheduler, which
  does not come back to it.\<close>

definition r0_exit :: "u32 \<Rightarrow> kernel \<Rightarrow> (u32 \<times> kernel) result" where
  "r0_exit old_esp k =
     rbind (id_close reap_call (tid (cur (sch k))) (tid_allocator k) k) (\<lambda>(a, k).
       let k = k\<lparr>tid_allocator := a\<rparr>
       in rbind (scheduler old_esp (sch k)) (\<lambda>(new_esp, s). Inr (new_esp, k\<lparr>sch := s\<rparr>)))"

section \<open>Facts\<close>

lemma set_simps [simp]:
  "sch (set_heap h k) = (sch k)\<lparr>kheap := h\<rparr>" "sch (set_thread t f k) = upd_thread t f (sch k)" "sch (set_word a v k) = sch k"
  "words (set_heap h k) = words k" "words (set_thread t f k) = words k" "words (set_word a v k) = (words k)(a := v)"
  "pg (set_heap h k) = pg k" "pg (set_thread t f k) = pg k" "pg (set_word a v k) = pg k"
  "tid_allocator (set_heap h k) = tid_allocator k" "tid_allocator (set_thread t f k) = tid_allocator k" "tid_allocator (set_word a v k) = tid_allocator k"
  "con (set_heap h k) = con k" "con (set_thread t f k) = con k" "con (set_word a v k) = con k"
  by (simp_all add: set_heap_def set_thread_def set_word_def)

lemma upd_thread_upd: "upd_thread t f (upd_thread t g s) = upd_thread t (\<lambda>x. f (g x)) s"
  by (simp add: upd_thread_def)

lemma upd_thread_heap: "(upd_thread t f s)\<lparr>kheap := h\<rparr> = upd_thread t f (s\<lparr>kheap := h\<rparr>)"
  by (simp add: upd_thread_def)

lemma id_next_valid: "id_next p a = Inr (i, a') \<Longrightarrow> i \<noteq> - 1"
  by (auto simp: id_next_def rbind_def split: sum.splits if_splits)

text \<open>The record of the thread and the words of its stacks when it is spliced in.\<close>

definition new_thread :: "bool \<Rightarrow> u32 \<Rightarrow> u32 \<Rightarrow> u32 \<Rightarrow> u32 \<Rightarrow> thread" where
  "new_thread user i b pd fa =
     \<lparr>tid = i, state = READY, kernel_stack = \<lparr>bottom = b, sp = b + STACK_SIZE - (if user then 0 else 4) - sizeof_SwitchFrame\<rparr>,
      user_stack = (if user then \<lparr>bottom = fa, sp = 0xBFFFFFF8\<rparr> else \<lparr>bottom = 0, sp = 0\<rparr>), page_directory = pd, t_next = 0, t_prev = 0\<rparr>"

definition first_frame :: "bool \<Rightarrow> symbols \<Rightarrow> u32 \<Rightarrow> switch_frame" where
  "first_frame user syms entry_fn =
     \<lparr>f_gs = 0x10, f_fs = 0x10, f_es = 0x10, f_ds = 0x10, f_edi = 0, f_esi = (if user then 0xBFFFFFF8 else 0), f_ebp = 0,
      f_esp_unused = 0, f_ebx = entry_fn, f_edx = 0, f_ecx = 0, f_eax = 0,
      f_return_eip = (if user then uthread_trampoline_sym syms else kthread_trampoline_sym syms)\<rparr>"

definition new_words :: "bool \<Rightarrow> symbols \<Rightarrow> u32 \<Rightarrow> u32 \<Rightarrow> u32 \<Rightarrow> (u32 \<Rightarrow> u32) \<Rightarrow> (u32 \<Rightarrow> u32)" where
  "new_words user syms entry_fn b fa m =
     write_frame (first_frame user syms entry_fn) (b + STACK_SIZE - (if user then 0 else 4) - sizeof_SwitchFrame)
       (if user then m(fa + PAGE_SIZE - 4 := call_exit_sym syms, fa + 0xFF8 := call_exit_sym syms)
        else m(b + STACK_SIZE - 4 := r0_exit_sym syms))"

lemma thread_create_run:
  assumes heap: "kmalloc (kpool (sch k)) sizeof_Thread (kheap (sch k)) = Inr (t, h1)" "t \<noteq> 0"
      "kmalloc (kpool (sch k)) STACK_SIZE h1 = Inr (b, h2)" "b \<noteq> 0"
    and ids: "id_next t (tid_allocator k) = Inr (i, a)"
    and pages: "alloc_page_directory (pg k) = (pd, p)" "pd \<noteq> 0" "user \<Longrightarrow> frame_alloc p = (fa, p')" "user \<Longrightarrow> fa \<noteq> 0"
  shows "thread_create user syms entry_fn k =
    Inr (t, k\<lparr>tid_allocator := a,
      pg := (if user then map_page pd USER_STACK_PAGE fa (PAGE_RW OR PAGE_USER) p' else p),
      words := new_words user syms entry_fn b fa (words k),
      sch := splice t (upd_thread t (\<lambda>_. new_thread user i b pd fa) ((sch k)\<lparr>kheap := h2\<rparr>))\<rparr>)"
proof -
  note i = id_next_valid [OF ids]
  show ?thesis
  proof (cases user)
    case True
    show ?thesis
      using True heap ids pages i
      by (simp add: thread_create_def allocate_kstack_def thread_user_stack_def thread_frame_def Let_def upd_thread_upd upd_thread_heap
          configure_stack_def new_thread_def new_words_def first_frame_def thread_zero_def set_heap_def set_thread_def set_word_def USER_STACK_PAGE_def PAGE_SIZE_def)
  next
    case False
    show ?thesis
      using False heap ids pages i
      by (simp add: thread_create_def allocate_kstack_def thread_user_stack_def thread_frame_def Let_def upd_thread_upd upd_thread_heap
          configure_stack_def new_thread_def new_words_def first_frame_def thread_zero_def set_heap_def set_thread_def set_word_def)
  qed
qed

lemma sched_inv_fresh:
  assumes "sched_inv s (c # rs) bs" "t \<notin> set (c # rs)" "\<And>q. t \<notin> set (bs q)"
  shows "sched_inv (upd_thread t f (s\<lparr>kheap := h\<rparr>)) (c # rs) bs"
proof -
  note i = sched_relD [OF sched_invD(1) [OF assms(1)]]
  let ?s = "upd_thread t f (s\<lparr>kheap := h\<rparr>)"
  have n: "tnext ?s = (tnext s)(t := t_next (f (threads s t)))" and p: "tprev ?s = (tprev s)(t := t_prev (f (threads s t)))"
    by (auto simp: fun_eq_iff)
  have "ring (tnext ?s) (tprev ?s) (c # rs)"
    unfolding n p using i(1) by (rule ring_cong) (use assms(2) in auto)
  moreover have "nlist (tnext ?s) (queues ?s q) (bs q)" for q unfolding n using i(5) [of q] assms(3) [of q] by simp
  ultimately show ?thesis
    using i assms sched_invD(2) [OF assms(1)]
    by (auto simp: sched_inv_def sched_rel_def)
qed

text \<open>The stack words of a new thread.\<close>

lemma new_words_frame:
  "read_frame (new_words user syms entry_fn b fa m) (b + STACK_SIZE - (if user then 0 else 4) - sizeof_SwitchFrame) =
     first_frame user syms entry_fn"
  by (simp only: new_words_def read_write_frame)

lemma new_words_return: "new_words False syms entry_fn b fa m (b + STACK_SIZE - 4) = r0_exit_sym syms"
proof -
  define B where "B = b + STACK_SIZE - 4 - sizeof_SwitchFrame"
  have e: "b + STACK_SIZE - 4 = B + 52" by (simp add: B_def sizeof_SwitchFrame_def)
  show ?thesis unfolding new_words_def if_False B_def [symmetric] by (simp add: e write_frame_def)
qed

lemma new_words_exit:
  assumes "unat b + 0x2000 \<le> 0x800000" "0x800000 \<le> unat fa" "unat fa < 0x2000000"
  shows "new_words True syms entry_fn b fa m (fa + 0xFF8) = call_exit_sym syms"
proof -
  define B where "B = b + STACK_SIZE - 0 - sizeof_SwitchFrame"
  have B: "B = b + 0x1FCC" by (simp add: B_def STACK_SIZE_def sizeof_SwitchFrame_def)
  have u: "unat (fa + 0xFF8) = unat fa + 0xFF8" using assms(3) by (intro unat_eqI) simp_all
  have uB: "unat (B + w) = unat b + 0x1FCC + unat w" if "unat w \<le> 48" for w
    unfolding B using assms(1) that by (intro unat_eqI) (simp_all add: add.assoc)
  have ne: "fa + 0xFF8 \<noteq> B + w" if "unat w \<le> 48" for w
  proof
    assume "fa + 0xFF8 = B + w"
    then have "unat fa + 0xFF8 = unat b + 0x1FCC + unat w" using u uB [OF that] by simp
    with assms(1,2) that show False by linarith
  qed
  have "fa + 0xFF8 \<noteq> B" using ne [of 0] by simp
  with ne [of 4] ne [of 8] ne [of 12] ne [of 16] ne [of 20] ne [of 24] ne [of 28] ne [of 32] ne [of 36] ne [of 40] ne [of 44] ne [of 48]
  show ?thesis unfolding new_words_def if_True B_def [symmetric] by (simp add: write_frame_def)
qed

text \<open>The first dispatch of a thread, from the stack pointer that the scheduler returns for it.\<close>

lemma user_dispatch:
  assumes "read_frame (mem c) (esp c) = first_frame True syms entry_fn"
  shows "eip (restore_context c) = uthread_trampoline_sym syms \<and>
    (let d = uthread_trampoline (restore_context c)
     in eip d = entry_fn \<and> cs d = 0x1B \<and> ss d = 0x23 \<and> ds d = 0x23 \<and> esp d = 0xBFFFFFF8 \<and> flags d = 0x202)"
  unfolding restore_context_frame [OF assms] uthread_trampoline_run Let_def by (simp add: first_frame_def)

lemma kernel_dispatch:
  assumes "read_frame (mem c) (esp c) = first_frame False syms entry_fn" "mem c (esp c + sizeof_SwitchFrame) = r"
  shows "eip (restore_context c) = kthread_trampoline_sym syms \<and>
    (let d = kthread_trampoline (restore_context c)
     in eip d = entry_fn \<and> cs d = 0x08 \<and> flags d = 0x202 \<and> mem d (esp d) = r)"
  unfolding restore_context_frame [OF assms(1)] kthread_trampoline_run Let_def
  using assms(2) by (simp add: first_frame_def)

text \<open>The address space of a new user thread: the kernel's, and one page more.\<close>

lemma frame_alloc_page:
  assumes "paging_inv s" "frame_alloc s = (fa, s')" "fa \<noteq> 0"
  shows "paging_inv s'" "pmem s' = pmem s" "dirs s' = dirs s" "page_dir_storage s' = page_dir_storage s"
    "user_pt_used s' = user_pt_used s" "aligned fa" "0x800000 \<le> unat fa" "unat fa < 0x2000000"
    "\<exists>i. fa = frame_addr i \<and> i < FRAME_COUNT \<and> i \<notin> frames s \<and> frames s' = insert i (frames s)"
proof -
  have len: "length (frame_bitmap s) = 768" using paging_invD(1) [OF assms(1)] by (simp add: sizes_ok_def)
  from len obtain i where f: "fa = frame_addr i" "i < FRAME_COUNT" "i \<notin> frames s" "frames s' = insert i (frames s)"
    "s' = s\<lparr>frame_bitmap := frame_bitmap s'\<rparr>" "length (frame_bitmap s') = 768"
    by (cases rule: frame_alloc_cases) (use assms(2,3) in auto)
  have same: "pmem s' = pmem s" "dirs s' = dirs s" "page_dir_storage s' = page_dir_storage s" "kpts s' = kpts s" "upts s' = upts s"
    "user_pt_used s' = user_pt_used s" "sizes_ok s' = sizes_ok s"
    using len f(6) by (subst f(5), simp add: dirs_def kpts_def upts_def sizes_ok_def layout_ok_def tables_def)+
  then show "pmem s' = pmem s" "dirs s' = dirs s" "page_dir_storage s' = page_dir_storage s" "user_pt_used s' = user_pt_used s" by simp_all
  show "paging_inv s'" using assms(1) unfolding paging_inv_def same .
  have u: "unat fa = 0x800000 + 4096 * i" using frame_addr_facts(1) [OF f(2)] f(1) by simp
  show "aligned fa" using frame_addr_facts(3) [OF f(2)] f(1) by simp
  show "0x800000 \<le> unat fa" "unat fa < 0x2000000" using u f(2) by (simp_all add: FRAME_COUNT_def)
  show "\<exists>i. fa = frame_addr i \<and> i < FRAME_COUNT \<and> i \<notin> frames s \<and> frames s' = insert i (frames s)" using f by blast
qed

lemma map_page_tables: "\<exists>j. user_pt_used (map_page pd vaddr paddr fl s) \<in> {user_pt_used s, (user_pt_used s)[j := True]}"
  by (auto simp: map_page_def alloc_user_page_table_def Let_def split: prod.splits option.splits if_splits)

lemma user_space:
  assumes inv: "paging_inv s" and dir: "alloc_page_directory s = (pd, p)" "pd \<noteq> 0" and frame: "frame_alloc p = (fa, p')" "fa \<noteq> 0"
    and user: "\<not> pres (kpde s (PD_INDEX vaddr))" and tab: "\<exists>k < MAX_USER_PT. \<not> user_pt_used s ! k"
  defines "q \<equiv> map_page pd vaddr fa (PAGE_RW OR PAGE_USER) p'"
  shows "paging_inv q" "pd \<notin> dirs s" "dirs q = insert pd (dirs s)" "page_dir_storage q = page_dir_storage s"
    "translate (pmem q) pd va = (if PAGE_ALIGN va = PAGE_ALIGN vaddr then Some (fa OR (va AND 0xFFF), True)
       else translate (pmem s) (page_dir_storage s) va)"
    "pd' \<in> insert (page_dir_storage s) (dirs s) \<Longrightarrow> translate (pmem q) pd' va = translate (pmem s) pd' va"
    "unat i < 1024 \<Longrightarrow> kpde q i = kpde s i" "\<exists>j. user_pt_used q \<in> {user_pt_used s, (user_pt_used s)[j := True]}"
proof -
  note so = paging_invD(1) [OF inv]
  have "\<not> (\<forall>k < THREAD_LIMIT. pd_used s ! k)" using alloc_page_directory_new [OF inv] dir by (auto split: if_splits)
  then have d: "pd \<notin> dirs s" "dirs p = insert pd (dirs s)" "paging_inv p"
      "\<And>va. translate (pmem p) pd va = translate (pmem s) (page_dir_storage s) va"
      "\<And>pd' va. pd' \<in> insert (page_dir_storage s) (dirs s) \<Longrightarrow> translate (pmem p) pd' va = translate (pmem s) pd' va"
    using alloc_page_directory_new [OF inv] dir(1) by simp_all
  from dir obtain k where k: "scan (\<lambda>i. \<not> pd_used s ! i) 0 THREAD_LIMIT = Some k" "pd = tbl (page_dirs s) k" "p = new_dir k s"
    by (auto simp: alloc_page_directory_def new_dir_def Let_def split: option.splits)
  from scan_Some [OF k(1)] have kk: "k < THREAD_LIMIT" by auto
  have st: "page_dir_storage p = page_dir_storage s" using new_dir_same(5) [OF so kk] k(3) by simp
  have ne: "page_dir_storage s \<noteq> pd" using tbl_dirs(5) [OF so kk] k(2) by simp
  have kp: "kpde p i = kpde s i" if "unat i < 1024" for i
    using new_dir_entry [OF so kk tables_mem(4) [OF so] that] ne st by (simp add: k(2,3))
  have up: "user_pt_used p = user_pt_used s" by (simp add: k(3) new_dir_def)
  note f = frame_alloc_page [OF d(3) frame]
  have pd': "pd \<in> dirs p'" using f(3) d(2) by simp
  have us: "\<not> pres (kpde p' (PD_INDEX vaddr))" using user kp [OF index_bounds(1)] f(2,4) st by simp
  have room: "pres (pmem p' (entry pd (PD_INDEX vaddr))) \<or> (\<exists>k < MAX_USER_PT. \<not> user_pt_used p' ! k)"
    using tab f(5) up by simp
  have fl: "(PAGE_RW OR PAGE_USER) AND NOT 0xFFF = 0" "(PAGE_RW OR PAGE_USER) AND PAGE_USER \<noteq> 0"
    by (simp_all add: PAGE_RW_def PAGE_USER_def)
  note m = map_page_translate [OF f(1) pd' us room f(6) fl(1)] and n = map_page_directories [OF f(1) pd' us room]
  show "paging_inv q" "pd \<notin> dirs s" "dirs q = insert pd (dirs s)" using m [of pd] pd' d(1,2) f(3) by (simp_all add: q_def)
  show "page_dir_storage q = page_dir_storage s" using n(1) f(4) st by (simp add: q_def)
  show "\<exists>j. user_pt_used q \<in> {user_pt_used s, (user_pt_used s)[j := True]}"
    using map_page_tables [of pd vaddr fa "PAGE_RW OR PAGE_USER" p'] f(5) up by (simp add: q_def)
  show "kpde q i = kpde s i" if "unat i < 1024" using n(1,2) [of i] that f(2,4) st kp by (simp add: q_def)
  show "translate (pmem q) pd va = (if PAGE_ALIGN va = PAGE_ALIGN vaddr then Some (fa OR (va AND 0xFFF), True)
       else translate (pmem s) (page_dir_storage s) va)"
    using m [of pd va] pd' d(4) [of va] f(2) fl(2) by (simp add: q_def)
  show "translate (pmem q) pd' va = translate (pmem s) pd' va" if "pd' \<in> insert (page_dir_storage s) (dirs s)"
    using m [of pd' va] that d(1,2,5) f(2,3,4) st ne by (auto simp: q_def)
qed

text \<open>
  The heap has the memory for a control block at \<open>t\<close> and a stack at \<open>b\<close>, below the frames, and records to spare. A thread
  that exists has its control block in an allocated block of the heap or, as the first thread, outside of it.
\<close>

definition heap_gives :: "nat \<Rightarrow> heap \<Rightarrow> u32 \<Rightarrow> u32 \<Rightarrow> heap \<Rightarrow> bool" where
  "heap_gives kp h t b h2 \<longleftrightarrow> cp_inv kp h \<and> node_room h \<and> t \<noteq> 0 \<and> b \<noteq> 0 \<and>
     unat (cp_start (hp_pools h kp)) + unat (cp_size (hp_pools h kp)) \<le> 0x800000 \<and>
     (\<exists>h1. kmalloc kp sizeof_Thread h = Inr (t, h1) \<and> node_room h1 \<and> kmalloc kp STACK_SIZE h1 = Inr (b, h2))"

definition placed :: "nat \<Rightarrow> heap \<Rightarrow> u32 \<Rightarrow> bool" where
  "placed kp h x \<longleftrightarrow> (\<exists>m. (unat x, m) \<in> live_blocks kp h) \<or> unat x < unat (cp_start (hp_pools h kp)) \<or>
     unat (cp_start (hp_pools h kp)) + unat (cp_size (hp_pools h kp)) \<le> unat x"

lemma kmalloc_fresh:
  assumes "cp_inv kp h" "node_room h" "kmalloc kp n h = Inr (a, h')" "a \<noteq> 0" "0 < unat n"
  shows "cp_inv kp h'" "(unat a, m) \<notin> live_blocks kp h" "unat (cp_start (hp_pools h kp)) \<le> unat a"
    "unat a + unat n \<le> unat (cp_start (hp_pools h kp)) + unat (cp_size (hp_pools h kp))"
    "live_blocks kp h' = insert (unat a, unat n) (live_blocks kp h)"
    "cp_start (hp_pools h' kp) = cp_start (hp_pools h kp)" "cp_size (hp_pools h' kp) = cp_size (hp_pools h kp)"
proof -
  have "\<exists>x \<in> pool_used (hp_nodes h). cl_parent (node h x) = kp \<and> fits h n x"
    using kmalloc_none [OF assms(1), of n] assms(3,4) by force
  with kmalloc_found [OF assms(1,2,5)] assms(3) have f: "cp_inv kp h'" "live_blocks kp h' = insert (unat a, unat n) (live_blocks kp h)"
    "unat (cp_start (hp_pools h kp)) \<le> unat a" "unat a + unat n \<le> unat (cp_start (hp_pools h kp)) + unat (cp_size (hp_pools h kp))"
    "\<forall>(b, m) \<in> live_blocks kp h. unat a + unat n \<le> b \<or> b + m \<le> unat a" by auto
  then show "cp_inv kp h'" "unat (cp_start (hp_pools h kp)) \<le> unat a"
    "unat a + unat n \<le> unat (cp_start (hp_pools h kp)) + unat (cp_size (hp_pools h kp))"
    "live_blocks kp h' = insert (unat a, unat n) (live_blocks kp h)" by blast+
  show "(unat a, m) \<notin> live_blocks kp h" using f(5) assms(5) cp.blks_nonempty [OF assms(1), of "unat a" m] by fastforce
  show "cp_start (hp_pools h' kp) = cp_start (hp_pools h kp)" "cp_size (hp_pools h' kp) = cp_size (hp_pools h kp)"
    using allocate_region [of kp n h a h'] assms(3) by (simp_all add: kmalloc_def)
qed

lemma heap_gives_facts:
  assumes "heap_gives kp h t b h2"
  shows "placed kp h x \<Longrightarrow> x \<noteq> t" "unat b + 0x2000 \<le> 0x800000" "cp_inv kp h2"
    "live_blocks kp h2 = insert (unat b, 0x2000) (insert (unat t, 36) (live_blocks kp h))" "t \<noteq> 0" "b \<noteq> 0"
    "\<exists>h1. kmalloc kp sizeof_Thread h = Inr (t, h1) \<and> kmalloc kp STACK_SIZE h1 = Inr (b, h2)"
proof -
  from assms obtain h1 where a: "cp_inv kp h" "node_room h" "t \<noteq> 0" "b \<noteq> 0" "kmalloc kp sizeof_Thread h = Inr (t, h1)"
      "node_room h1" "kmalloc kp STACK_SIZE h1 = Inr (b, h2)"
      "unat (cp_start (hp_pools h kp)) + unat (cp_size (hp_pools h kp)) \<le> 0x800000"
    unfolding heap_gives_def by blast
  have n: "unat sizeof_Thread = 36" "unat STACK_SIZE = 0x2000" by (simp_all add: sizeof_Thread_def STACK_SIZE_def)
  have p: "0 < unat sizeof_Thread" "0 < unat STACK_SIZE" using n by simp_all
  note f = kmalloc_fresh [OF a(1,2,5,3) p(1), unfolded n(1)]
  note g = kmalloc_fresh [OF f(1) a(6,7,4) p(2), unfolded n(2)]
  show "x \<noteq> t" if "placed kp h x" using that f(2,3,4) by (auto simp: placed_def)
  show "unat b + 0x2000 \<le> 0x800000" using g(4) f(6,7) a(8) by simp
  show "cp_inv kp h2" "live_blocks kp h2 = insert (unat b, 0x2000) (insert (unat t, 36) (live_blocks kp h))" using f(5) g(1,5) by simp_all
  show "t \<noteq> 0" "b \<noteq> 0" "\<exists>h1. kmalloc kp sizeof_Thread h = Inr (t, h1) \<and> kmalloc kp STACK_SIZE h1 = Inr (b, h2)" using a by blast+
qed

text \<open>What every creation does to the scheduler.\<close>

lemma new_thread_ready:
  assumes "sched_inv s (c # rs) bs" "t \<noteq> 0" "t \<notin> set (c # rs)" "\<And>q. t \<notin> set (bs q)"
    and s'_def: "s' = splice t (upd_thread t (\<lambda>_. new_thread user i b pd fa) (s\<lparr>kheap := h\<rparr>))"
  shows "sched_inv s' (c # rs @ [t]) bs" "kernel_stack (threads s' t) = kernel_stack (new_thread user i b pd fa)"
    "user_stack (threads s' t) = user_stack (new_thread user i b pd fa)" "page_directory (threads s' t) = pd" "tid (threads s' t) = i"
    "kheap s' = h" "kpool s' = kpool s" "zombie s' = zombie s"
    "x \<noteq> t \<Longrightarrow> kernel_stack (threads s' x) = kernel_stack (threads s x)"
proof -
  let ?s = "upd_thread t (\<lambda>_. new_thread user i b pd fa) (s\<lparr>kheap := h\<rparr>)"
  have r: "state (threads ?s t) = READY" by (simp add: new_thread_def)
  note sp = splice_sim [OF sched_inv_fresh [OF assms(1,3,4)] assms(2,3,4) r]
  show "sched_inv s' (c # rs @ [t]) bs" unfolding s'_def by (rule sp(1))
  have same: "same_contexts ?s s'" unfolding s'_def by (rule sp(2))
  show "kernel_stack (threads s' t) = kernel_stack (new_thread user i b pd fa)"
    "user_stack (threads s' t) = user_stack (new_thread user i b pd fa)" "page_directory (threads s' t) = pd" "tid (threads s' t) = i"
    "kheap s' = h" "kpool s' = kpool s" "zombie s' = zombie s"
    "x \<noteq> t \<Longrightarrow> kernel_stack (threads s' x) = kernel_stack (threads s x)"
    using same by (simp_all add: same_contexts_def) (simp_all add: new_thread_def)
qed

lemma aligned_or: "aligned a \<Longrightarrow> w AND 0xFFF = w \<Longrightarrow> a OR w = a + w"
proof -
  assume a: "aligned a" and w: "w AND 0xFFF = w"
  have "a AND w = (a AND 0xFFF) AND w" by (subst w [symmetric]) (simp only: and.assoc and.commute and.left_commute)
  also have "\<dots> = 0" using a by (simp add: aligned_def)
  finally show ?thesis by (simp add: disjunctive_add_eq_or)
qed

definition can_start_user :: "paging \<Rightarrow> bool" where
  "can_start_user p \<longleftrightarrow> paging_inv p \<and> (\<exists>d < THREAD_LIMIT. \<not> pd_used p ! d) \<and> (\<exists>i < FRAME_COUNT. i \<notin> frames p) \<and>
     (\<exists>j < MAX_USER_PT. \<not> user_pt_used p ! j) \<and> \<not> pres (kpde p (PD_INDEX USER_STACK_PAGE))"

lemma can_start_user_run:
  assumes "can_start_user s"
  obtains pd p fa p' where "alloc_page_directory s = (pd, p)" "pd \<noteq> 0" "frame_alloc p = (fa, p')" "fa \<noteq> 0" "paging_inv p"
    "frames p = frames s"
proof -
  have a: "paging_inv s" "\<exists>d < THREAD_LIMIT. \<not> pd_used s ! d" "\<exists>i < FRAME_COUNT. i \<notin> frames s"
    using assms by (auto simp: can_start_user_def)
  obtain pd p where d: "alloc_page_directory s = (pd, p)" by fastforce
  have p: "pd \<noteq> 0" "paging_inv p" using alloc_page_directory_new [OF a(1)] a(2) d by (auto split: if_splits)
  have fb: "frame_bitmap p = frame_bitmap s" using d p(1) by (auto simp: alloc_page_directory_def Let_def split: option.splits)
  obtain fa p' where f: "frame_alloc p = (fa, p')" by fastforce
  have "length (frame_bitmap p) = 768" using paging_invD(1) [OF p(2)] by (simp add: sizes_ok_def)
  then have "fa \<noteq> 0"
  proof (cases rule: frame_alloc_cases)
    case (found i s')
    then show ?thesis using f frame_addr_facts(2) [OF found(2)] by simp
  next
    case full
    then show ?thesis using a(3) fb by auto
  qed
  with that d p f fb show thesis by simp
qed

lemma user_thread_created:
  assumes inv: "sched_inv (sch k) (c # rs) bs"
    and live: "\<forall>x \<in> set (c # rs) \<union> (\<Union>q. set (bs q)). placed (kpool (sch k)) (kheap (sch k)) x"
    and heap: "heap_gives (kpool (sch k)) (kheap (sch k)) t b h2"
    and ids: "id_inv (tid_allocator k)" "id_room (tid_allocator k)" and pages: "can_start_user (pg k)"
  obtains k' pd pa where "thread_create_user syms entry_fn k = Inr (t, k')" "sched_inv (sch k') (c # rs @ [t]) bs"
    "page_directory (threads (sch k') t) = pd" "refs (tid_allocator k') = (refs (tid_allocator k))(unat (tid (threads (sch k') t)) \<mapsto> (t, 1))"
    "paging_inv (pg k')" "pd \<notin> dirs (pg k)" "dirs (pg k') = insert pd (dirs (pg k))" "page_dir_storage (pg k') = page_dir_storage (pg k)"
    "\<And>va. translate (pmem (pg k')) pd va = (if PAGE_ALIGN va = PAGE_ALIGN USER_STACK_PAGE then Some (pa OR (va AND 0xFFF), True)
       else translate (pmem (pg k)) (page_dir_storage (pg k)) va)"
    "\<And>pd' va. pd' \<in> insert (page_dir_storage (pg k)) (dirs (pg k)) \<Longrightarrow> translate (pmem (pg k')) pd' va = translate (pmem (pg k)) pd' va"
    "\<And>i. unat i < 1024 \<Longrightarrow> kpde (pg k') i = kpde (pg k) i" "\<exists>i < FRAME_COUNT. pa = frame_addr i \<and> i \<notin> frames (pg k) \<and> frames (pg k') = insert i (frames (pg k))"
    "words k' (pa + 0xFF8) = call_exit_sym syms" "read_frame (words k') (sp (kernel_stack (threads (sch k') t))) = first_frame True syms entry_fn"
    "con k' = con k" "bytes k' = bytes k" "kernel_stack (threads (sch k') t) = \<lparr>bottom = b, sp = b + STACK_SIZE - sizeof_SwitchFrame\<rparr>"
    "\<exists>j. user_pt_used (pg k') \<in> {user_pt_used (pg k), (user_pt_used (pg k))[j := True]}"
proof -
  note H = heap_gives_facts [OF heap]
  from H(7) obtain h1 where m: "kmalloc (kpool (sch k)) sizeof_Thread (kheap (sch k)) = Inr (t, h1)"
    "kmalloc (kpool (sch k)) STACK_SIZE h1 = Inr (b, h2)" by blast
  from id_next_run [OF ids, of t] obtain j a where
    j: "id_next t (tid_allocator k) = Inr (j, a)" "refs a = (refs (tid_allocator k))(unat j \<mapsto> (t, 1))" by blast
  obtain pd p fa p' where P: "alloc_page_directory (pg k) = (pd, p)" "pd \<noteq> 0" "frame_alloc p = (fa, p')" "fa \<noteq> 0" "paging_inv p"
    "frames p = frames (pg k)" by (rule can_start_user_run [OF pages])
  have pu: "paging_inv (pg k)" "\<not> pres (kpde (pg k) (PD_INDEX USER_STACK_PAGE))" "\<exists>j < MAX_USER_PT. \<not> user_pt_used (pg k) ! j"
    using pages by (simp_all add: can_start_user_def)
  define q where "q = map_page pd USER_STACK_PAGE fa (PAGE_RW OR PAGE_USER) p'"
  note U = user_space [OF pu(1) P(1-4) pu(2,3), folded q_def]
  note F = frame_alloc_page [OF P(5,3,4)]
  define s' where "s' = splice t (upd_thread t (\<lambda>_. new_thread True j b pd fa) ((sch k)\<lparr>kheap := h2\<rparr>))"
  have fresh: "t \<notin> set (c # rs)" "\<And>q. t \<notin> set (bs q)" using live H(1) by blast+
  note N = new_thread_ready [OF inv H(5) fresh s'_def]
  define k' where "k' = k\<lparr>tid_allocator := a, pg := q, words := new_words True syms entry_fn b fa (words k), sch := s'\<rparr>"
  have run: "thread_create_user syms entry_fn k = Inr (t, k')"
    unfolding thread_create_user_def using thread_create_run [OF m(1) H(5) m(2) H(6) j(1) P(1,2), of True fa p' syms entry_fn] P(3,4)
    by (simp add: k'_def q_def s'_def)
  have fq: "frames q = frames p'" unfolding q_def by (simp add: map_page_frames)
  show thesis
  proof (rule that [of k' pd fa])
    show "words k' (fa + 0xFF8) = call_exit_sym syms" using new_words_exit [OF H(2) F(7,8)] by (simp add: k'_def)
    show "read_frame (words k') (sp (kernel_stack (threads (sch k') t))) = first_frame True syms entry_fn"
      using new_words_frame [of True syms entry_fn b fa "words k"] N(2) by (simp add: k'_def new_thread_def)
    show "\<exists>i < FRAME_COUNT. fa = frame_addr i \<and> i \<notin> frames (pg k) \<and> frames (pg k') = insert i (frames (pg k))"
      using F(9) P(6) fq by (auto simp: k'_def)
  qed (use run N U j(2) in \<open>simp_all add: k'_def new_thread_def\<close>)
qed

section \<open>Properties\<close>

text \<open>A kernel with its first thread running, at an address outside the heap.\<close>

definition boot_kernel :: "heap \<Rightarrow> kernel" where
  "boot_kernel h = \<lparr>sch = \<lparr>threads = (\<lambda>_. demo_thread READY 0x1000 0x1000 0), current_running = 0x1000, zombie = 0,
       queues = (\<lambda>_. 0), tss_esp0 = 0, cr3 = 0, kheap = h, kpool = 0\<rparr>,
     pg = demo_paging, object_allocator = demo_ids, pid_allocator = demo_ids, tid_allocator = demo_ids,
     words = (\<lambda>_. 0), bytes = (\<lambda>_. 0), con = \<lparr>com = demo_line, display = demo_vga\<rparr>\<rparr>"

definition demo_symbols :: symbols where
  "demo_symbols = \<lparr>call_exit_sym = 0x11000, r0_exit_sym = 0x12000, kthread_trampoline_sym = 0x13000, uthread_trampoline_sym = 0x14000\<rparr>"

lemma boot_kernel_inv: "sched_inv (sch (boot_kernel h)) [0x1000] (\<lambda>_. [])"
  by (auto simp: sched_inv_def sched_rel_def boot_kernel_def demo_thread_def ring_def)

lemma boot_kernel_pages: "can_start_user (pg (boot_kernel h))"
proof -
  have "\<exists>d < THREAD_LIMIT. \<not> pd_used demo_paging ! d" by (rule exI [of _ 1]) (simp add: demo_paging_def demo_boot_def THREAD_LIMIT_def)
  moreover have "\<exists>i < FRAME_COUNT. i \<notin> frames demo_paging"
    by (rule exI [of _ 0]) (simp add: demo_paging_def demo_boot_def FRAME_COUNT_def bits_def)
  moreover have "\<exists>j < MAX_USER_PT. \<not> user_pt_used demo_paging ! j"
    by (rule exI [of _ 0]) (simp add: demo_paging_def demo_boot_def MAX_USER_PT_def)
  moreover have "\<not> pres (kpde demo_paging (PD_INDEX USER_STACK_PAGE))" by (simp add: demo_paging_def demo_boot_def)
  ultimately show ?thesis using demo_paging_ok(1) by (simp add: can_start_user_def boot_kernel_def)
qed

lemma small_heap_gives:
  "\<exists>h t b h2. create_memory_cluster_pool 0x130000 0x4000 small_heap = Inr (0, h) \<and> heap_gives 0 h t b h2 \<and>
     cp_start (hp_pools h 0) = 0x130000"
proof -
  obtain h where h: "create_memory_cluster_pool 0x130000 0x4000 small_heap = Inr (0, h)" "cp_inv 0 h" "node_room h"
      "cp_start (hp_pools h 0) = 0x130000" "cp_size (hp_pools h 0) = 0x4000"
    using first_pool_ready [of "create_pool cluster_zero 8 0" "create_pool cluster_pool_zero 2 0" "0x130000" "0x4000"]
    by (auto simp: small_heap_def create_pool_inv node_room_def)
  have "rbind (create_memory_cluster_pool 0x130000 0x4000 small_heap) (\<lambda>(k, h).
      rbind (kmalloc k sizeof_Thread h) (\<lambda>(t, h1). rbind (kmalloc k STACK_SIZE h1) (\<lambda>(b, h2).
        Inr (t, b, bitmap (hp_nodes h1), max_entries (hp_nodes h1))))) = Inr (0x133FDC, 0x131FDC, [3], 8)"
    by (simp add: run sizeof_Thread_def STACK_SIZE_def cong: rbind_weak_cong let_weak_cong)
  with h obtain h1 h2 where k: "kmalloc 0 sizeof_Thread h = Inr (0x133FDC, h1)" "kmalloc 0 STACK_SIZE h1 = Inr (0x131FDC, h2)"
      "bitmap (hp_nodes h1) = [3]" "max_entries (hp_nodes h1) = 8" by (auto simp: rbind_eq_Inr)
  have "pool_used (hp_nodes h1) \<subseteq> {0, 1}"
  proof
    fix i assume "i \<in> pool_used (hp_nodes h1)"
    then have "i < 8" "bit (3 :: 8 word) i" using k(3,4) by (auto simp: pool_used_def bits_def)
    then show "i \<in> {0, 1}" by (cases i; cases "i - 1") (auto simp: bit_simps)
  qed
  then have "card (pool_used (hp_nodes h1)) \<le> card {0, 1 :: nat}" by (intro card_mono) simp_all
  then have "node_room h1" using k(4) by (simp add: node_room_def pool_cap_def)
  with h k show ?thesis unfolding heap_gives_def by fastforce
qed




definition ending_kernel :: "u32 \<Rightarrow> id_allocator \<Rightarrow> kernel" where
  "ending_kernel i a = (boot_kernel small_heap)
     \<lparr>sch := upd_thread 16 (\<lambda>t. t\<lparr>tid := i\<rparr>) demo_sched, tid_allocator := a\<rparr>"


end
