(* ===== verification/Ata.thy ===== *)
theory Ata
  imports Serial
begin

text \<open>
  The disk driver \<open>kernel/drivers/ata.cpp\<close>. The drive is described by what its registers do: it accepts a sector
  number and a command, and hands over or takes the words of that sector once it has asked for data. The driver
  is correct when it works with every such drive.
\<close>

section \<open>Registers and operations\<close>

definition ATA_DATA :: u16 where "ATA_DATA = 0x1F0"
definition ATA_SECCOUNT :: u16 where "ATA_SECCOUNT = 0x1F2"
definition ATA_LBA_LOW :: u16 where "ATA_LBA_LOW = 0x1F3"
definition ATA_LBA_MID :: u16 where "ATA_LBA_MID = 0x1F4"
definition ATA_LBA_HIGH :: u16 where "ATA_LBA_HIGH = 0x1F5"
definition ATA_DRIVE :: u16 where "ATA_DRIVE = 0x1F6"
definition ATA_STATUS :: u16 where "ATA_STATUS = 0x1F7"
definition ATA_COMMAND :: u16 where "ATA_COMMAND = 0x1F7"

definition ATA_CMD_IDENTIFY :: u8 where "ATA_CMD_IDENTIFY = 0xEC"
definition ATA_CMD_READ_SECTORS :: u8 where "ATA_CMD_READ_SECTORS = 0x20"
definition ATA_CMD_WRITE_SECTORS :: u8 where "ATA_CMD_WRITE_SECTORS = 0x30"

definition ATA_SR_ERR :: u8 where "ATA_SR_ERR = 0x01"
definition ATA_SR_DRQ :: u8 where "ATA_SR_DRQ = 0x08"
definition ATA_SR_DF :: u8 where "ATA_SR_DF = 0x20"
definition ATA_SR_BSY :: u8 where "ATA_SR_BSY = 0x80"

lemmas ata_consts = ATA_DATA_def ATA_SECCOUNT_def ATA_LBA_LOW_def ATA_LBA_MID_def ATA_LBA_HIGH_def ATA_DRIVE_def
  ATA_STATUS_def ATA_COMMAND_def ATA_CMD_IDENTIFY_def ATA_CMD_READ_SECTORS_def ATA_CMD_WRITE_SECTORS_def
  ATA_SR_ERR_def ATA_SR_DRQ_def ATA_SR_DF_def ATA_SR_BSY_def

record disk =
  present :: int
  sector_count :: u32
  identify :: "u16 list"

function ata_wait :: "u8 \<Rightarrow> u8 \<Rightarrow> io \<Rightarrow> (int \<times> io) result" where
  "ata_wait m v d =
     rbind (inb ATA_STATUS d) (\<lambda>(status, d).
       if status AND ATA_SR_ERR \<noteq> 0 then Inr (- 1, d)
       else if status AND ATA_SR_DF \<noteq> 0 then Inr (- 1, d)
       else if status AND m = v then Inr (0, d)
       else ata_wait m v d)"
  by pat_completeness auto
termination by (relation "measure (\<lambda>(m, v, d). length (answers d))") (auto dest: inb_answers)

declare ata_wait.simps [simp del]

fun ata_read_words :: "nat \<Rightarrow> nat \<Rightarrow> u16 list \<Rightarrow> io \<Rightarrow> (u16 list \<times> io) result" where
  "ata_read_words i 0 buf d = Inr (buf, d)"
| "ata_read_words i (Suc k) buf d =
     rbind (inw ATA_DATA d) (\<lambda>(w, d).
       if i < length buf then ata_read_words (Suc i) k (buf[i := w]) d else Inl OutOfBounds)"

fun ata_write_words :: "nat \<Rightarrow> nat \<Rightarrow> u16 list \<Rightarrow> io \<Rightarrow> io result" where
  "ata_write_words i 0 buf d = Inr d"
| "ata_write_words i (Suc k) buf d =
     (if i < length buf then ata_write_words (Suc i) k buf (outw ATA_DATA (buf ! i) d) else Inl OutOfBounds)"

definition ata_init :: "disk \<Rightarrow> io \<Rightarrow> (int \<times> disk \<times> io) result" where
  "ata_init k d =
     (let d = outb ATA_DRIVE 0xA0 d;
          d = outb ATA_SECCOUNT 0 d;
          d = outb ATA_LBA_LOW 0 d;
          d = outb ATA_LBA_MID 0 d;
          d = outb ATA_LBA_HIGH 0 d;
          d = outb ATA_COMMAND ATA_CMD_IDENTIFY d
      in rbind (inb ATA_STATUS d) (\<lambda>(status, d).
         if status = 0 then Inr (- 1, k, d)
         else rbind (ata_wait ATA_SR_BSY 0 d) (\<lambda>(rc, d).
           if rc < 0 then Inr (- 1, k, d)
           else rbind (inb ATA_LBA_MID d) (\<lambda>(mid, d).
             if mid \<noteq> 0 then Inr (- 1, k, d)
             else rbind (inb ATA_LBA_HIGH d) (\<lambda>(high, d).
               if high \<noteq> 0 then Inr (- 1, k, d)
               else rbind (ata_wait ATA_SR_DRQ ATA_SR_DRQ d) (\<lambda>(rc, d).
                 if rc < 0 then Inr (- 1, k, d)
                 else rbind (ata_read_words 0 256 (identify k) d) (\<lambda>(buf, d).
                   let k = k\<lparr>identify := buf\<rparr>
                   in if identify k ! 49 AND push_bit 9 1 = 0 then Inr (- 1, k, d)
                      else
                        let k = k\<lparr>sector_count := push_bit 16 (ucast (identify k ! 61)) OR ucast (identify k ! 60)\<rparr>
                        in if sector_count k = 0 then Inr (- 1, k, d)
                           else Inr (0, k\<lparr>present := 1\<rparr>, d))))))))"

definition ata_prepare_lba :: "u32 \<Rightarrow> disk \<Rightarrow> io \<Rightarrow> int \<times> io" where
  "ata_prepare_lba lba k d =
     (if 0x10000000 \<le> lba then (- 1, d)
      else if present k = 0 then (- 1, d)
      else if sector_count k \<le> lba then (- 1, d)
      else
        let d = outb ATA_DRIVE (0xE0 OR ucast (drop_bit 24 lba AND 0x0F)) d;
            d = outb ATA_SECCOUNT 1 d;
            d = outb ATA_LBA_LOW (ucast (lba AND 0xFF)) d;
            d = outb ATA_LBA_MID (ucast (drop_bit 8 lba AND 0xFF)) d;
            d = outb ATA_LBA_HIGH (ucast (drop_bit 16 lba AND 0xFF)) d
        in (0, d))"

definition ata_read_sector :: "u32 \<Rightarrow> u16 list \<Rightarrow> disk \<Rightarrow> io \<Rightarrow> (int \<times> u16 list \<times> io) result" where
  "ata_read_sector lba buf k d =
     (let (rc, d) = ata_prepare_lba lba k d
      in if rc \<noteq> 0 then Inr (- 1, buf, d)
         else
           let d = outb ATA_COMMAND ATA_CMD_READ_SECTORS d
           in rbind (ata_wait ATA_SR_DRQ ATA_SR_DRQ d) (\<lambda>(rc, d).
                if rc < 0 then Inr (- 1, buf, d)
                else rbind (ata_read_words 0 256 buf d) (\<lambda>(buf, d). Inr (0, buf, d))))"

definition ata_write_sector :: "u32 \<Rightarrow> u16 list \<Rightarrow> disk \<Rightarrow> io \<Rightarrow> (int \<times> io) result" where
  "ata_write_sector lba buf k d =
     (let (rc, d) = ata_prepare_lba lba k d
      in if rc \<noteq> 0 then Inr (- 1, d)
         else
           let d = outb ATA_COMMAND ATA_CMD_WRITE_SECTORS d
           in rbind (ata_wait ATA_SR_DRQ ATA_SR_DRQ d) (\<lambda>(rc, d).
                if rc < 0 then Inr (- 1, d)
                else rbind (ata_write_words 0 256 buf d) (\<lambda>d.
                     rbind (ata_wait ATA_SR_BSY 0 d) (\<lambda>(rc, d). if rc < 0 then Inr (- 1, d) else Inr (0, d)))))"

section \<open>The drive\<close>

text \<open>
  The registers of the drive. A command takes the sector number from the four registers and starts a transfer; data
  words move once a status with the request bit has been read. What the drive answers to a data read during a
  transfer is the next word of the sector; a trace that says otherwise is not one of this drive.
\<close>

datatype transfer = Idle | Reading "u16 list" | Writing u32 "u16 list"

record drive =
  content :: "u32 \<Rightarrow> u16 list"
  r_low :: u8
  r_mid :: u8
  r_high :: u8
  r_drive :: u8
  request :: bool
  transfer :: transfer

definition drive_lba :: "drive \<Rightarrow> u32" where
  "drive_lba v = ucast (r_low v) OR push_bit 8 (ucast (r_mid v)) OR push_bit 16 (ucast (r_high v)) OR
     push_bit 24 (ucast (r_drive v AND 0x0F))"

definition drive_command :: "u8 \<Rightarrow> drive \<Rightarrow> drive" where
  "drive_command c v =
     (if c = 0x20 then v\<lparr>transfer := Reading (content v (drive_lba v)), request := False\<rparr>
      else if c = 0x30 then v\<lparr>transfer := Writing (drive_lba v) [], request := False\<rparr>
      else v\<lparr>transfer := Idle, request := False\<rparr>)"

fun drive_step :: "event \<Rightarrow> drive \<Rightarrow> drive option" where
  "drive_step (Outb p c) v =
     Some (if p = 0x1F3 then v\<lparr>r_low := c\<rparr> else if p = 0x1F4 then v\<lparr>r_mid := c\<rparr> else if p = 0x1F5 then v\<lparr>r_high := c\<rparr>
       else if p = 0x1F6 then v\<lparr>r_drive := c\<rparr> else if p = 0x1F7 then drive_command c v else v)"
| "drive_step (Inb p c) v = Some (if p = 0x1F7 \<and> bit c 3 then v\<lparr>request := True\<rparr> else v)"
| "drive_step (Inw p w) v =
     (if p = 0x1F0 \<and> request v then
        case transfer v of
          Reading (x # xs) \<Rightarrow> if w = x then Some (v\<lparr>transfer := Reading xs\<rparr>) else None
        | _ \<Rightarrow> Some v
      else Some v)"
| "drive_step (Outw p w) v =
     Some (if p = 0x1F0 \<and> request v then
        case transfer v of
          Writing l ws \<Rightarrow>
            if length ws = 255 then v\<lparr>content := (content v)(l := ws @ [w]), transfer := Idle\<rparr>
            else v\<lparr>transfer := Writing l (ws @ [w])\<rparr>
        | _ \<Rightarrow> v
      else v)"

fun drive_run :: "event list \<Rightarrow> drive \<Rightarrow> drive option" where
  "drive_run [] v = Some v"
| "drive_run (e # es) v = Option.bind (drive_step e v) (drive_run es)"

section \<open>Facts\<close>

lemma drive_run_append: "drive_run (es @ fs) v = Option.bind (drive_run es v) (drive_run fs)"
  by (induction es arbitrary: v) (auto split: option.splits bind_splits)

text \<open>What a status wait leaves: only status reads, the last of which has what was waited for.\<close>

lemma ata_wait_run:
  "ata_wait m w d = Inr (rc, d') \<Longrightarrow> \<exists>es. trace d' = trace d @ es \<and>
     (rc = 0 \<and> (\<exists>fs s. es = fs @ [Inb 0x1F7 s] \<and> s AND m = w) \<or> rc = - 1) \<and>
     (\<forall>v. \<exists>r. drive_run es v = Some (v\<lparr>request := r\<rparr>))"
proof (induction m w d rule: ata_wait.induct)
  case (1 m w d)
  from "1.prems" obtain s d1 where s: "inb ATA_STATUS d = Inr (s, d1)"
    by (cases "inb ATA_STATUS d") (auto simp: ata_wait.simps [of m w d])
  have t: "trace d1 = trace d @ [Inb 0x1F7 s]" using s by (auto simp: inb_def ATA_STATUS_def split: list.splits)
  have one: "\<exists>r. drive_run [Inb 0x1F7 s] v = Some (v\<lparr>request := r\<rparr>)" for v
    by (cases "bit s 3") (auto intro: exI [of _ "request v"])
  show ?case
  proof (cases "s AND ATA_SR_ERR \<noteq> 0 \<or> s AND ATA_SR_DF \<noteq> 0 \<or> s AND m = w")
    case True
    with "1.prems" s have "d' = d1" "rc = 0 \<and> s AND m = w \<or> rc = - 1" by (auto simp: ata_wait.simps [of m w d] split: if_splits)
    with t one show ?thesis by blast
  next
    case False
    with "1.prems" s have "ata_wait m w d1 = Inr (rc, d')" by (auto simp: ata_wait.simps [of m w d])
    from "1.IH" [OF s refl _ _ _ this] False obtain es where
      es: "trace d' = trace d1 @ es" "rc = 0 \<and> (\<exists>fs s. es = fs @ [Inb 0x1F7 s] \<and> s AND m = w) \<or> rc = - 1"
        "\<And>v. \<exists>r. drive_run es v = Some (v\<lparr>request := r\<rparr>)" by auto
    have "\<exists>r. drive_run (Inb 0x1F7 s # es) v = Some (v\<lparr>request := r\<rparr>)" for v
    proof -
      obtain r where "drive_run [Inb 0x1F7 s] v = Some (v\<lparr>request := r\<rparr>)" using one by blast
      moreover obtain r' where "drive_run es (v\<lparr>request := r\<rparr>) = Some (v\<lparr>request := r, request := r'\<rparr>)" using es(3) by blast
      ultimately show ?thesis using drive_run_append [of "[Inb 0x1F7 s]" es v] by auto
    qed
    moreover have "\<exists>fs s'. Inb 0x1F7 s # es = fs @ [Inb 0x1F7 s'] \<and> s' AND m = w" if "rc = 0"
      using es(2) that by (metis append_Cons zero_neq_neg_one)
    ultimately show ?thesis using t es by (intro exI [of _ "Inb 0x1F7 s # es"]) auto
  qed
qed

lemma ata_wait_request:
  assumes "ata_wait ATA_SR_DRQ ATA_SR_DRQ d = Inr (0, d')"
  shows "\<exists>es. trace d' = trace d @ es \<and> (\<forall>v. drive_run es v = Some (v\<lparr>request := True\<rparr>))"
proof -
  from ata_wait_run [OF assms] obtain es fs s where
    es: "trace d' = trace d @ es" "es = fs @ [Inb 0x1F7 s]" "s AND 8 = 8" "\<And>v. \<exists>r. drive_run es v = Some (v\<lparr>request := r\<rparr>)"
    by (auto simp: ATA_SR_DRQ_def)
  have "bit (s AND 8) 3" using es(3) by simp
  then have "bit s 3" by (simp add: bit_and_iff)
  then have last: "drive_run es v = Some v' \<Longrightarrow> request v'" for v v'
    using es(2) by (auto simp: drive_run_append split: bind_splits)
  have "drive_run es v = Some (v\<lparr>request := True\<rparr>)" for v
    using es(4) [of v] last [of v] by fastforce
  with es(1) show ?thesis by blast
qed

lemma ata_read_words_run:
  "ata_read_words i k buf d = Inr (buf', d') \<Longrightarrow> i + k = length buf \<Longrightarrow>
     \<exists>ws. length ws = k \<and> buf' = take i buf @ ws \<and> trace d' = trace d @ map (Inw 0x1F0) ws"
proof (induction k arbitrary: i buf d)
  case (Suc k)
  from Suc.prems obtain w d1 where w: "inw ATA_DATA d = Inr (w, d1)" by (cases "inw ATA_DATA d") auto
  have t: "trace d1 = trace d @ [Inw 0x1F0 w]" using w by (auto simp: inw_def ATA_DATA_def split: list.splits)
  from Suc.prems w have "ata_read_words (Suc i) k (buf[i := w]) d1 = Inr (buf', d')" by simp
  from Suc.IH [OF this] Suc.prems(2) obtain ws where
    "length ws = k" "buf' = take (Suc i) (buf[i := w]) @ ws" "trace d' = trace d1 @ map (Inw 0x1F0) ws" by auto
  then show ?case using t Suc.prems(2) by (intro exI [of _ "w # ws"]) (auto simp: take_Suc_conv_app_nth)
qed simp

lemma ata_write_words_run:
  "ata_write_words i k buf d = Inr d' \<Longrightarrow> i + k = length buf \<Longrightarrow> trace d' = trace d @ map (Outw 0x1F0) (drop i buf)"
proof (induction k arbitrary: i d)
  case (Suc k)
  then have "ata_write_words (Suc i) k buf (outw ATA_DATA (buf ! i) d) = Inr d'" "i < length buf" by simp_all
  with Suc.IH [of "Suc i"] Suc.prems(2) show ?case by (simp add: outw_def ATA_DATA_def Cons_nth_drop_Suc [symmetric])
qed simp

text \<open>A drive that reads a sector gives its words, and one that writes it takes them.\<close>

lemma drive_reads:
  "request v \<Longrightarrow> transfer v = Reading xs \<Longrightarrow> length ws \<le> length xs \<Longrightarrow> drive_run (map (Inw 0x1F0) ws) v = Some v' \<Longrightarrow>
     ws = take (length ws) xs \<and> content v' = content v"
proof (induction ws arbitrary: v xs)
  case (Cons w ws)
  then obtain x ys where xs: "xs = x # ys" by (cases xs) auto
  with Cons.prems have "w = x" "drive_run (map (Inw 0x1F0) ws) (v\<lparr>transfer := Reading ys\<rparr>) = Some v'"
    by (auto split: if_splits)
  with Cons.IH [of "v\<lparr>transfer := Reading ys\<rparr>" ys] Cons.prems xs show ?case by simp
qed simp

lemma drive_reads_run:
  "request v \<Longrightarrow> transfer v = Reading ws \<Longrightarrow> drive_run (map (Inw 0x1F0) ws) v = Some (v\<lparr>transfer := Reading []\<rparr>)"
  by (induction ws arbitrary: v) simp_all

lemma drive_writes:
  "request v \<Longrightarrow> transfer v = Writing l xs \<Longrightarrow> length xs + length ws = 256 \<Longrightarrow> ws \<noteq> [] \<Longrightarrow>
     drive_run (map (Outw 0x1F0) ws) v = Some (v\<lparr>content := (content v)(l := xs @ ws), transfer := Idle\<rparr>)"
proof (induction ws arbitrary: v xs)
  case (Cons w ws)
  show ?case
  proof (cases "ws = []")
    case True
    with Cons.prems show ?thesis by (simp add: fun_upd_def)
  next
    case False
    with Cons.prems have "length xs \<noteq> 255" by (cases ws) auto
    with Cons.IH [of "v\<lparr>transfer := Writing l (xs @ [w])\<rparr>" "xs @ [w]"] Cons.prems False show ?thesis by simp
  qed
qed simp

definition addressable :: "disk \<Rightarrow> u32 \<Rightarrow> bool" where
  "addressable k lba \<longleftrightarrow> lba < 0x10000000 \<and> present k \<noteq> 0 \<and> lba < sector_count k"

definition lba_events :: "u32 \<Rightarrow> event list" where
  "lba_events lba =
     [Outb 0x1F6 (0xE0 OR ucast (drop_bit 24 lba AND 0x0F)), Outb 0x1F2 1, Outb 0x1F3 (ucast (lba AND 0xFF)),
      Outb 0x1F4 (ucast (drop_bit 8 lba AND 0xFF)), Outb 0x1F5 (ucast (drop_bit 16 lba AND 0xFF))]"

lemma ata_prepare_run:
  "ata_prepare_lba lba k d = (if addressable k lba then (0, d\<lparr>trace := trace d @ lba_events lba\<rparr>) else (- 1, d))"
  by (auto simp: ata_prepare_lba_def addressable_def lba_events_def Let_def outb_def ata_consts)

lemma lba_masks:
  "(0xFF :: u32) = mask 8" "(0x0F :: u32) = mask 4" "(0x0F :: u8) = mask 4" "(0xE0 :: u8) = push_bit 5 (mask 3)" "(0x10000000 :: u32) = push_bit 28 1"
  by (simp_all add: mask_eq_exp_minus_1)

lemma lba_registers:
  assumes "lba < 0x10000000"
  shows "\<exists>v'. drive_run (lba_events lba) v = Some v' \<and> drive_lba v' = lba \<and> content v' = content v \<and> request v' = request v"
proof -
  have hi: "\<not> bit lba n" if "28 \<le> n" for n
  proof -
    have "unat lba < 2 ^ 28" using assms by (simp add: word_less_nat_alt)
    also have "(2 :: nat) ^ 28 \<le> 2 ^ n" using that by (rule power_increasing) simp
    finally have "\<not> bit (unat lba) n" by (simp add: bit_iff_odd)
    then show ?thesis by (simp add: bit_unsigned_iff)
  qed
  define v' where "v' = v\<lparr>r_drive := 0xE0 OR ucast (drop_bit 24 lba AND 0x0F), r_low := ucast (lba AND 0xFF),
    r_mid := ucast (drop_bit 8 lba AND 0xFF), r_high := ucast (drop_bit 16 lba AND 0xFF)\<rparr>"
  have "drive_run (lba_events lba) v = Some v'" by (simp add: lba_events_def v'_def)
  moreover have "drive_lba v' = lba"
  proof (rule bit_word_eqI)
    fix n
    assume "n < LENGTH(32)"
    then consider "n < 8" | "8 \<le> n" "n < 16" | "16 \<le> n" "n < 24" | "24 \<le> n" "n < 28" | "28 \<le> n" "n < 32" by fastforce
    then show "bit (drive_lba v') n = bit lba n"
      by cases (auto simp: drive_lba_def v'_def lba_masks bit_simps hi)
  qed
  ultimately show ?thesis by (auto simp: v'_def)
qed

lemma read_sector_trace:
  assumes "ata_read_sector lba buf k d = Inr (0, buf', d')" "length buf = 256"
  shows "addressable k lba \<and> length buf' = 256 \<and> (\<exists>es. trace d' = trace d @ es \<and>
    (\<forall>v. \<exists>v0. request v0 \<and> transfer v0 = Reading (content v lba) \<and> content v0 = content v \<and>
       drive_run es v = drive_run (map (Inw 0x1F0) buf') v0))"
proof -
  have a: "addressable k lba" using assms(1) by (auto simp: ata_read_sector_def ata_prepare_run split: if_splits)
  define d1 where "d1 = outb ATA_COMMAND ATA_CMD_READ_SECTORS (d\<lparr>trace := trace d @ lba_events lba\<rparr>)"
  from assms(1) a obtain rc d2 where w: "ata_wait ATA_SR_DRQ ATA_SR_DRQ d1 = Inr (rc, d2)" "\<not> rc < 0"
    "rbind (ata_read_words 0 256 buf d2) (\<lambda>(buf, d). Inr (0 :: int, buf, d)) = Inr (0, buf', d')"
    by (cases "ata_wait ATA_SR_DRQ ATA_SR_DRQ d1") (auto simp: ata_read_sector_def ata_prepare_run Let_def d1_def split: if_splits)
  from ata_wait_run [OF w(1)] w(1,2) have "ata_wait ATA_SR_DRQ ATA_SR_DRQ d1 = Inr (0, d2)" by auto
  from ata_wait_request [OF this] obtain es where
    es: "trace d2 = trace d1 @ es" "\<And>v. drive_run es v = Some (v\<lparr>request := True\<rparr>)" by blast
  from w(3) have "ata_read_words 0 256 buf d2 = Inr (buf', d')" by (cases "ata_read_words 0 256 buf d2") auto
  from ata_read_words_run [OF this] assms(2) have r: "length buf' = 256" "trace d' = trace d2 @ map (Inw 0x1F0) buf'" by auto
  let ?es = "lba_events lba @ Outb 0x1F7 0x20 # es @ map (Inw 0x1F0) buf'"
  have "trace d' = trace d @ ?es" using r es(1) by (simp add: d1_def outb_def ata_consts)
  moreover have "\<exists>v0. request v0 \<and> transfer v0 = Reading (content v lba) \<and> content v0 = content v \<and>
      drive_run ?es v = drive_run (map (Inw 0x1F0) buf') v0" for v
  proof -
    obtain v1 where v1: "drive_run (lba_events lba) v = Some v1" "drive_lba v1 = lba" "content v1 = content v"
      using lba_registers [of lba v] a by (auto simp: addressable_def)
    let ?v0 = "v1\<lparr>transfer := Reading (content v lba), request := True\<rparr>"
    have "drive_run ?es v = drive_run (map (Inw 0x1F0) buf') ?v0"
      using v1 es(2) by (simp add: drive_run_append drive_command_def)
    then show ?thesis using v1(3) by (intro exI [of _ ?v0]) simp
  qed
  ultimately show ?thesis using a r(1) by blast
qed

lemma write_sector_trace:
  assumes "ata_write_sector lba buf k d = Inr (0, d')" "length buf = 256"
  shows "addressable k lba \<and> (\<exists>es. trace d' = trace d @ es \<and>
    (\<forall>v. \<exists>v'. drive_run es v = Some v' \<and> content v' = (content v)(lba := buf)))"
proof -
  have a: "addressable k lba" using assms(1) by (auto simp: ata_write_sector_def ata_prepare_run split: if_splits)
  define d1 where "d1 = outb ATA_COMMAND ATA_CMD_WRITE_SECTORS (d\<lparr>trace := trace d @ lba_events lba\<rparr>)"
  from assms(1) a obtain rc d2 where w: "ata_wait ATA_SR_DRQ ATA_SR_DRQ d1 = Inr (rc, d2)" "\<not> rc < 0"
    "rbind (ata_write_words 0 256 buf d2) (\<lambda>d. rbind (ata_wait ATA_SR_BSY 0 d)
       (\<lambda>(rc, d). if rc < 0 then Inr (- 1, d) else Inr (0 :: int, d))) = Inr (0, d')"
    by (cases "ata_wait ATA_SR_DRQ ATA_SR_DRQ d1") (auto simp: ata_write_sector_def ata_prepare_run Let_def d1_def split: if_splits)
  from ata_wait_run [OF w(1)] w(1,2) have "ata_wait ATA_SR_DRQ ATA_SR_DRQ d1 = Inr (0, d2)" by auto
  from ata_wait_request [OF this] obtain es where
    es: "trace d2 = trace d1 @ es" "\<And>v. drive_run es v = Some (v\<lparr>request := True\<rparr>)" by blast
  from w(3) obtain d3 rc' where d3: "ata_write_words 0 256 buf d2 = Inr d3" "ata_wait ATA_SR_BSY 0 d3 = Inr (rc', d')"
    by (cases "ata_write_words 0 256 buf d2"; cases "ata_wait ATA_SR_BSY 0 (projr (ata_write_words 0 256 buf d2))")
      (auto split: if_splits)
  from ata_write_words_run [OF d3(1)] assms(2) have t3: "trace d3 = trace d2 @ map (Outw 0x1F0) buf" by simp
  from ata_wait_run [OF d3(2)] obtain fs where
    fs: "trace d' = trace d3 @ fs" "\<And>v. \<exists>r. drive_run fs v = Some (v\<lparr>request := r\<rparr>)" by blast
  let ?es = "lba_events lba @ Outb 0x1F7 0x30 # es @ map (Outw 0x1F0) buf @ fs"
  have "trace d' = trace d @ ?es" using t3 es(1) fs(1) by (simp add: d1_def outb_def ata_consts)
  moreover have "\<exists>v'. drive_run ?es v = Some v' \<and> content v' = (content v)(lba := buf)" for v
  proof -
    obtain v1 where v1: "drive_run (lba_events lba) v = Some v1" "drive_lba v1 = lba" "content v1 = content v"
      using lba_registers [of lba v] a by (auto simp: addressable_def)
    let ?v2 = "v1\<lparr>transfer := Writing lba [], request := True\<rparr>"
    have "buf \<noteq> []" using assms(2) by auto
    then have "drive_run (map (Outw 0x1F0) buf) ?v2 = Some (?v2\<lparr>content := (content v)(lba := buf), transfer := Idle\<rparr>)"
      using drive_writes [of ?v2 lba "[]" buf] assms(2) v1(3) by simp
    moreover obtain r where "drive_run fs (?v2\<lparr>content := (content v)(lba := buf), transfer := Idle\<rparr>) =
        Some (?v2\<lparr>content := (content v)(lba := buf), transfer := Idle, request := r\<rparr>)" using fs(2) by blast
    ultimately show ?thesis using v1 es(2) by (simp add: drive_run_append drive_command_def)
  qed
  ultimately show ?thesis using a by blast
qed

lemma ata_write_words_total:
  "i + j = length buf \<Longrightarrow> \<exists>d'. ata_write_words i j buf d = Inr d' \<and> answers d' = answers d"
proof (induction j arbitrary: i d)
  case (Suc j)
  with Suc.IH [of "Suc i" "outw ATA_DATA (buf ! i) d"] show ?case by (auto simp: outw_def)
qed simp

text \<open>What a drive answers to one read, and the driver on such answers.\<close>

definition waits :: "u16 \<Rightarrow> bool" where
  "waits s \<longleftrightarrow> ucast s AND ATA_SR_ERR = 0 \<and> ucast s AND ATA_SR_DF = 0"

definition requests :: "u16 \<Rightarrow> bool" where
  "requests s \<longleftrightarrow> waits s \<and> ucast s AND ATA_SR_DRQ = ATA_SR_DRQ"

lemma ata_wait_answers:
  "answers d = bs @ s # as \<Longrightarrow> \<forall>b \<in> set bs. waits b \<and> ucast b AND m \<noteq> w \<Longrightarrow> waits s \<Longrightarrow> ucast s AND m = w \<Longrightarrow>
     \<exists>d'. ata_wait m w d = Inr (0, d') \<and> answers d' = as"
proof (induction bs arbitrary: d)
  case Nil
  then show ?case by (subst ata_wait.simps) (simp add: inb_def waits_def)
next
  case (Cons b bs)
  then show ?case by (subst ata_wait.simps) (simp add: inb_def waits_def)
qed

lemma ata_read_words_answers:
  "answers d = ws @ as \<Longrightarrow> length ws = k \<Longrightarrow> i + k = length buf \<Longrightarrow>
     \<exists>d'. ata_read_words i k buf d = Inr (take i buf @ ws, d') \<and> answers d' = as"
proof (induction k arbitrary: i buf d ws)
  case (Suc k)
  then obtain w vs where ws: "ws = w # vs" by (cases ws) auto
  define d1 where "d1 = d\<lparr>answers := vs @ as, trace := trace d @ [Inw ATA_DATA w]\<rparr>"
  have "inw ATA_DATA d = Inr (w, d1)" using Suc.prems(1) ws by (simp add: inw_def d1_def)
  moreover have "\<exists>d'. ata_read_words (Suc i) k (buf[i := w]) d1 = Inr (take (Suc i) (buf[i := w]) @ vs, d') \<and> answers d' = as"
    using Suc.IH [of d1 vs "Suc i" "buf[i := w]"] Suc.prems ws by (simp add: d1_def)
  ultimately show ?case using Suc.prems ws by (auto simp: take_Suc_conv_app_nth)
qed simp

lemma ata_read_answers:
  assumes "addressable k lba" "answers d = bs @ s # ws @ as" "\<forall>b \<in> set bs. waits b \<and> \<not> requests b" "requests s"
    "length ws = 256" "length buf = 256"
  shows "\<exists>d'. ata_read_sector lba buf k d = Inr (0, ws, d') \<and> answers d' = as"
proof -
  define d1 where "d1 = outb ATA_COMMAND ATA_CMD_READ_SECTORS (d\<lparr>trace := trace d @ lba_events lba\<rparr>)"
  have "answers d1 = bs @ s # ws @ as" using assms(2) by (simp add: d1_def outb_def)
  from ata_wait_answers [OF this, of ATA_SR_DRQ ATA_SR_DRQ] assms(3,4) obtain d2 where
    d2: "ata_wait ATA_SR_DRQ ATA_SR_DRQ d1 = Inr (0, d2)" "answers d2 = ws @ as" by (auto simp: requests_def)
  from ata_read_words_answers [OF d2(2) assms(5), of 0 buf] assms(6) obtain d3 where
    "ata_read_words 0 256 buf d2 = Inr (ws, d3)" "answers d3 = as" by auto
  with assms(1) d2(1) show ?thesis by (auto simp: ata_read_sector_def ata_prepare_run Let_def d1_def)
qed

lemma ata_init_outcome:
  assumes "ata_init k d = Inr (rc, k', d')"
  shows "rc = 0 \<and> present k' = 1 \<and> sector_count k' \<noteq> 0 \<or> rc = - 1 \<and> present k' = present k"
  using assms by (auto simp: ata_init_def Let_def rbind_def split: sum.splits if_splits)

section \<open>Properties\<close>

text \<open>C30: the disk keeps what is written. When a write of a sector and then a read of it both report success, and
  the drive behaves as a drive does, the read returns the words that were written; the drive has them at that
  sector number and no other sector has changed.\<close>

theorem ata_write_read:
  assumes "length buf = 256" "length old = 256" "ata_write_sector lba buf k d = Inr (0, d1)"
    "ata_read_sector lba old k d1 = Inr (0, got, d2)" "trace d2 = trace d @ es" "drive_run es v = Some v'"
  shows "got = buf \<and> content v' = (content v)(lba := buf) \<and> addressable k lba"
proof -
  from write_sector_trace [OF assms(3,1)] obtain es1 v1 where
    w: "addressable k lba" "trace d1 = trace d @ es1" "drive_run es1 v = Some v1" "content v1 = (content v)(lba := buf)" by blast
  from read_sector_trace [OF assms(4,2)] obtain es2 v0 where
    r: "length got = 256" "trace d2 = trace d1 @ es2" "request v0" "transfer v0 = Reading (content v1 lba)" "content v0 = content v1"
      "drive_run es2 v1 = drive_run (map (Inw 0x1F0) got) v0" by blast
  have "es = es1 @ es2" using assms(5) w(2) r(2) by simp
  then have run: "drive_run (map (Inw 0x1F0) got) v0 = Some v'" using assms(6) w(3) r(6) by (simp add: drive_run_append)
  have c: "content v1 lba = buf" using w(4) by simp
  from drive_reads [OF r(3,4) _ run] r(1) assms(1) have "got = buf" "content v' = content v0" by (simp_all add: c)
  with w(1,4) r(5) show ?thesis by simp
qed

definition demo_disk :: disk where
  "demo_disk = \<lparr>present = 1, sector_count = 1024, identify = replicate 256 0\<rparr>"

definition demo_drive :: drive where
  "demo_drive = \<lparr>content = (\<lambda>_. replicate 256 0), r_low = 0, r_mid = 0, r_high = 0, r_drive = 0, request = False, transfer = Idle\<rparr>"

definition demo_sector :: "u16 list" where
  "demo_sector = map of_nat [0..<256]"

definition demo_ata_io :: io where
  "demo_ata_io = \<lparr>answers = [0x80, 0x58, 0xD0, 0x50, 0x80, 0x58] @ demo_sector, trace = []\<rparr>"

theorem ata_write_read_witness:
  "\<exists>d1 d2 v'. ata_write_sector 600 demo_sector demo_disk demo_ata_io = Inr (0, d1) \<and>
     ata_read_sector 600 (replicate 256 0) demo_disk d1 = Inr (0, demo_sector, d2) \<and>
     drive_run (trace d2) demo_drive = Some v' \<and> content v' 600 = demo_sector \<and> content v' 601 = replicate 256 0"
proof -
  have a: "addressable demo_disk 600" by (simp add: addressable_def demo_disk_def)
  have l: "length demo_sector = 256" by (simp add: demo_sector_def)
  define d0 where "d0 = outb ATA_COMMAND ATA_CMD_WRITE_SECTORS (demo_ata_io\<lparr>trace := trace demo_ata_io @ lba_events 600\<rparr>)"
  have "answers d0 = [0x80] @ 0x58 # [0xD0, 0x50, 0x80, 0x58] @ demo_sector" by (simp add: d0_def outb_def demo_ata_io_def)
  from ata_wait_answers [OF this, of ATA_SR_DRQ ATA_SR_DRQ] obtain w1 where
    w1: "ata_wait ATA_SR_DRQ ATA_SR_DRQ d0 = Inr (0, w1)" "answers w1 = [0xD0, 0x50, 0x80, 0x58] @ demo_sector"
    by (auto simp: waits_def ata_consts)
  obtain w2 where w2: "ata_write_words 0 256 demo_sector w1 = Inr w2" "answers w2 = [0xD0] @ 0x50 # [0x80, 0x58] @ demo_sector"
    using ata_write_words_total [of 0 256 demo_sector w1] l w1(2) by auto
  from ata_wait_answers [OF w2(2), of ATA_SR_BSY 0] obtain d1 where
    d1: "ata_wait ATA_SR_BSY 0 w2 = Inr (0, d1)" "answers d1 = [0x80] @ 0x58 # demo_sector @ []"
    by (auto simp: waits_def ata_consts)
  have wr: "ata_write_sector 600 demo_sector demo_disk demo_ata_io = Inr (0, d1)"
    using a w1(1) w2(1) d1(1) by (simp add: ata_write_sector_def ata_prepare_run Let_def d0_def)
  obtain d2 where rd: "ata_read_sector 600 (replicate 256 0) demo_disk d1 = Inr (0, demo_sector, d2)"
    using ata_read_answers [OF a d1(2) _ _ l, of "replicate 256 0"] by (auto simp: waits_def requests_def ata_consts)
  from write_sector_trace [OF wr l] obtain v1 where
    v1: "drive_run (trace d1) demo_drive = Some v1" "content v1 = (content demo_drive)(600 := demo_sector)"
    by (auto simp: demo_ata_io_def)
  have "length (replicate 256 (0 :: u16)) = 256" by simp
  from read_sector_trace [OF rd this] obtain es v0 where
    es: "trace d2 = trace d1 @ es" "request v0" "transfer v0 = Reading (content v1 600)"
      "drive_run es v1 = drive_run (map (Inw 0x1F0) demo_sector) v0" by blast
  have "transfer v0 = Reading demo_sector" using es(3) v1(2) by simp
  from drive_reads_run [OF es(2) this] obtain v' where v': "drive_run (trace d2) demo_drive = Some v'"
    using es(1,4) v1(1) by (simp add: drive_run_append)
  have "content v' = (content demo_drive)(600 := demo_sector)"
    using ata_write_read [OF l _ wr rd _ v'] by (simp add: demo_ata_io_def)
  then show ?thesis using wr rd v' by (simp add: demo_drive_def)
qed

text \<open>A sector number outside the disk, or past 28 bits, or any with no disk, is refused without an access to the drive.\<close>

theorem ata_refuses:
  assumes "\<not> addressable k lba"
  shows "ata_read_sector lba buf k d = Inr (- 1, buf, d)" "ata_write_sector lba buf k d = Inr (- 1, d)"
  using assms by (simp_all add: ata_read_sector_def ata_write_sector_def ata_prepare_run)

end
