(* ===== verification/Image.thy ===== *)
theory Image
  imports Print "HOL-Library.Signed_Division"
begin

text \<open>
  The image builder \<open>tools/createimage.cpp\<close>, with the executable format of \<open>tools/elf32.hpp\<close>. A file is the
  list of its bytes; a read at a position gives as many bytes as there are, and a write to the image appends to it or,
  after a seek back, overwrites it.
\<close>

section \<open>Executables\<close>

definition EI_MAG0 :: nat where "EI_MAG0 = 0"
definition EI_MAG1 :: nat where "EI_MAG1 = 1"
definition EI_MAG2 :: nat where "EI_MAG2 = 2"
definition EI_MAG3 :: nat where "EI_MAG3 = 3"
definition EI_CLASS :: nat where "EI_CLASS = 4"
definition EI_DATA :: nat where "EI_DATA = 5"
definition EI_NIDENT :: nat where "EI_NIDENT = 16"
definition ELFMAG0 :: u8 where "ELFMAG0 = 0x7f"
definition ELFMAG1 :: u8 where "ELFMAG1 = of_char CHR ''E''"
definition ELFMAG2 :: u8 where "ELFMAG2 = of_char CHR ''L''"
definition ELFMAG3 :: u8 where "ELFMAG3 = of_char CHR ''F''"
definition ELFCLASS32 :: u8 where "ELFCLASS32 = 1"
definition ELFDATA2LSB :: u8 where "ELFDATA2LSB = 1"
definition PT_LOAD :: u32 where "PT_LOAD = 1"

lemmas elf_consts = EI_MAG0_def EI_MAG1_def EI_MAG2_def EI_MAG3_def EI_CLASS_def EI_DATA_def EI_NIDENT_def
  ELFMAG0_def ELFMAG1_def ELFMAG2_def ELFMAG3_def ELFCLASS32_def ELFDATA2LSB_def PT_LOAD_def

text \<open>Little-endian numbers at a position.\<close>

definition rd16 :: "u8 list \<Rightarrow> nat \<Rightarrow> u16" where
  "rd16 f i = of_nat (unat (f ! i) + 256 * unat (f ! (i + 1)))"

definition rd32 :: "u8 list \<Rightarrow> nat \<Rightarrow> u32" where
  "rd32 f i = le32 (f ! i) (f ! (i + 1)) (f ! (i + 2)) (f ! (i + 3))"

record Elf32_Ehdr =
  e_ident :: "u8 list"
  e_type :: u16
  e_machine :: u16
  e_version :: u32
  e_entry :: u32
  e_phoff :: u32
  e_shoff :: u32
  e_flags :: u32
  e_ehsize :: u16
  e_phentsize :: u16
  e_phnum :: u16
  e_shentsize :: u16
  e_shnum :: u16
  e_shstrndx :: u16

record Elf32_Phdr =
  p_type :: u32
  p_offset :: u32
  p_vaddr :: u32
  p_paddr :: u32
  p_filesz :: u32
  p_memsz :: u32
  p_flags :: u32
  p_align :: u32

text \<open>A read of a whole structure, which fails when the file ends before.\<close>

definition read_ehdr :: "u8 list \<Rightarrow> nat \<Rightarrow> Elf32_Ehdr option" where
  "read_ehdr f i =
     (if i + 52 \<le> length f
      then Some \<lparr>e_ident = take EI_NIDENT (drop i f), e_type = rd16 f (i + 16), e_machine = rd16 f (i + 18),
        e_version = rd32 f (i + 20), e_entry = rd32 f (i + 24), e_phoff = rd32 f (i + 28), e_shoff = rd32 f (i + 32),
        e_flags = rd32 f (i + 36), e_ehsize = rd16 f (i + 40), e_phentsize = rd16 f (i + 42), e_phnum = rd16 f (i + 44),
        e_shentsize = rd16 f (i + 46), e_shnum = rd16 f (i + 48), e_shstrndx = rd16 f (i + 50)\<rparr>
      else None)"

definition read_phdr :: "u8 list \<Rightarrow> nat \<Rightarrow> Elf32_Phdr option" where
  "read_phdr f i =
     (if i + 32 \<le> length f
      then Some \<lparr>p_type = rd32 f i, p_offset = rd32 f (i + 4), p_vaddr = rd32 f (i + 8), p_paddr = rd32 f (i + 12),
        p_filesz = rd32 f (i + 16), p_memsz = rd32 f (i + 20), p_flags = rd32 f (i + 24), p_align = rd32 f (i + 28)\<rparr>
      else None)"

section \<open>The tool\<close>

definition SECTOR_SIZE :: int where "SECTOR_SIZE = 512"
definition OS_SIZE_LOC :: nat where "OS_SIZE_LOC = 2"
definition KERNEL_ENTRY_LOC :: nat where "KERNEL_ENTRY_LOC = 503"
definition PROG_DIR_LOC :: nat where "PROG_DIR_LOC = 6"

record FileInfo =
  f_bytes :: "u8 list"
  start_offset :: int
  stripped_size :: int
  f_entry :: int
  f_name :: "u8 list"

text \<open>The loop over the program headers; the end of a segment is computed in 32 bits.\<close>

fun phdr_loop :: "u8 list \<Rightarrow> nat \<Rightarrow> nat \<Rightarrow> int \<Rightarrow> int \<Rightarrow> bool \<Rightarrow> (int \<times> int \<times> bool) option" where
  "phdr_loop f pos 0 min_offset max_offset found = Some (min_offset, max_offset, found)"
| "phdr_loop f pos (Suc k) min_offset max_offset found =
     (case read_phdr f pos of
        None \<Rightarrow> None
      | Some phdr \<Rightarrow>
          if p_type phdr \<noteq> PT_LOAD then phdr_loop f (pos + 32) k min_offset max_offset found
          else
            let min_offset = (if uint (p_offset phdr) < min_offset then uint (p_offset phdr) else min_offset);
                end_offset = uint (p_offset phdr + p_filesz phdr);
                max_offset = (if end_offset > max_offset then end_offset else max_offset)
            in phdr_loop f (pos + 32) k min_offset max_offset True)"

definition fill_metadata :: "FileInfo \<Rightarrow> FileInfo option" where
  "fill_metadata info =
     (case read_ehdr (f_bytes info) 0 of
        None \<Rightarrow> None
      | Some ehdr \<Rightarrow>
          if e_ident ehdr ! EI_MAG0 \<noteq> ELFMAG0 \<or> e_ident ehdr ! EI_MAG1 \<noteq> ELFMAG1 \<or>
             e_ident ehdr ! EI_MAG2 \<noteq> ELFMAG2 \<or> e_ident ehdr ! EI_MAG3 \<noteq> ELFMAG3 then None
          else if e_ident ehdr ! EI_CLASS \<noteq> ELFCLASS32 then None
          else if e_ident ehdr ! EI_DATA \<noteq> ELFDATA2LSB then None
          else
            case phdr_loop (f_bytes info) (unat (e_phoff ehdr)) (unat (e_phnum ehdr)) 0x7fffffffffffffff 0 False of
              None \<Rightarrow> None
            | Some (min_offset, max_offset, found) \<Rightarrow>
                if \<not> found then None
                else Some (info\<lparr>f_entry := uint (e_entry ehdr), start_offset := min_offset,
                  stripped_size := max_offset - min_offset\<rparr>))"

definition round_up_sector :: "int \<Rightarrow> int" where
  "round_up_sector sz = ((sz + SECTOR_SIZE - 1) sdiv SECTOR_SIZE) * SECTOR_SIZE"

definition sectors_for :: "int \<Rightarrow> u32" where
  "sectors_for sz = of_int (round_up_sector sz sdiv SECTOR_SIZE)"

text \<open>\<open>copy_range\<close> moves up to 8192 bytes at a time and gives up at the end of the file.\<close>

function copy_loop :: "u8 list \<Rightarrow> u8 list \<Rightarrow> nat \<Rightarrow> int \<Rightarrow> int \<times> u8 list" where
  "copy_loop out f pos rem =
     (if rem > 0
      then
        let chunk = (if rem < 8192 then rem else 8192);
            buf = take (nat chunk) (drop pos f);
            n = int (length buf)
        in if n \<le> 0 then (- 1, out) else copy_loop (out @ buf) f (pos + nat n) (rem - n)
      else (0, out))"
  by pat_completeness auto
termination by (relation "measure (\<lambda>(out, f, pos, rem). nat rem)") auto

declare copy_loop.simps [simp del]

definition copy_range :: "u8 list \<Rightarrow> u8 list \<Rightarrow> int \<Rightarrow> int \<Rightarrow> int \<times> u8 list" where
  "copy_range out f offset sz = (if offset < 0 then (- 1, out) else copy_loop out f (nat offset) sz)"

definition pad_to_sector :: "u8 list \<Rightarrow> int \<Rightarrow> u8 list result" where
  "pad_to_sector out written =
     (let remainder = written smod SECTOR_SIZE
      in if remainder = 0 then Inr out
         else
           let pad = SECTOR_SIZE - remainder
           in if pad \<le> SECTOR_SIZE then Inr (out @ replicate (nat pad) 0) else Inl OutOfBounds)"

definition basename_simple :: "u8 list \<Rightarrow> u8 list" where
  "basename_simple path = rev (takeWhile (\<lambda>c. c \<noteq> of_char CHR ''/'') (rev path))"

text \<open>A name in its field of 16 bytes, as \<open>strncpy\<close> of 15 and a final NUL leave it.\<close>

definition name_field :: "u8 list \<Rightarrow> u8 list" where
  "name_field s = take 15 s @ replicate (16 - length (take 15 s)) 0"

text \<open>A structure overwrites what is at its position.\<close>

definition write_at :: "nat \<Rightarrow> u8 list \<Rightarrow> u8 list \<Rightarrow> u8 list" where
  "write_at pos ys xs = take pos xs @ ys @ drop (pos + length ys) xs"

definition dir_entry :: "u8 list \<Rightarrow> u32 \<Rightarrow> u32 \<Rightarrow> u32 \<Rightarrow> u8 list" where
  "dir_entry name lba sectors entry = name @ le32_bytes lba @ le32_bytes sectors @ le32_bytes entry @ [0, 0, 0, 0]"

fun dir_loop :: "nat \<Rightarrow> FileInfo list \<Rightarrow> u32 \<Rightarrow> u8 list \<Rightarrow> u8 list" where
  "dir_loop i [] next_user_lba dir_sector = dir_sector"
| "dir_loop i (u # us) next_user_lba dir_sector =
     (if i < 16
      then
        let usecs = sectors_for (stripped_size u);
            dir_sector = write_at (32 * i) (dir_entry (name_field (c_string (f_name u))) next_user_lba usecs (of_int (f_entry u))) dir_sector
        in dir_loop (Suc i) us (next_user_lba + usecs) dir_sector
      else dir_sector)"

fun write_users :: "FileInfo list \<Rightarrow> u8 list \<Rightarrow> u8 list result" where
  "write_users [] img = Inr img"
| "write_users (u # us) img =
     rbind (pad_to_sector (snd (copy_range img (f_bytes u) (start_offset u) (stripped_size u))) (stripped_size u)) (write_users us)"

text \<open>The second half of \<open>main\<close>: the layout of the image.\<close>

definition write_image :: "u8 list \<Rightarrow> FileInfo \<Rightarrow> FileInfo list \<Rightarrow> u8 list result" where
  "write_image bb kern users =
     (let kernel_sectors = sectors_for (stripped_size kern);
          prog_dir_lba = 1 + kernel_sectors;
          next_user_lba = prog_dir_lba + 1;
          dir_sector = dir_loop 0 users next_user_lba (replicate 512 0);
          img = snd (copy_range [] bb 0 SECTOR_SIZE);
          img = snd (copy_range img (f_bytes kern) (start_offset kern) (stripped_size kern))
      in rbind (pad_to_sector img (stripped_size kern)) (\<lambda>img.
         rbind (write_users users (img @ dir_sector)) (\<lambda>img.
           let img = write_at OS_SIZE_LOC (le32_bytes kernel_sectors) img;
               img = write_at PROG_DIR_LOC (le32_bytes prog_dir_lba) img
           in Inr (write_at KERNEL_ENTRY_LOC (le32_bytes (of_int (f_entry kern))) img))))"

fun open_users :: "(u8 list \<Rightarrow> u8 list option) \<Rightarrow> u8 list list \<Rightarrow> FileInfo list option" where
  "open_users fs [] = Some []"
| "open_users fs (arg # args) =
     (case fs arg of
        None \<Rightarrow> None
      | Some f \<Rightarrow>
          case fill_metadata \<lparr>f_bytes = f, start_offset = 0, stripped_size = 0, f_entry = 0, f_name = replicate 16 0\<rparr> of
            None \<Rightarrow> None
          | Some info \<Rightarrow>
              case open_users fs args of
                None \<Rightarrow> None
              | Some us \<Rightarrow> Some (info\<lparr>f_name := name_field (basename_simple arg)\<rparr> # us))"

text \<open>\<open>main\<close>, on the arguments and the files there are: the exit status and the image it leaves.\<close>

definition createimage :: "(u8 list \<Rightarrow> u8 list option) \<Rightarrow> u8 list list \<Rightarrow> (int \<times> u8 list option) result" where
  "createimage fs argv =
     (let arg_start = (if length argv > 1 \<and> argv ! 1 = ascii ''--extended'' then 2 else 1)
      in if int (length argv) - int arg_start < 2 then Inr (1, None)
         else
           case (fs (argv ! arg_start), fs (argv ! (arg_start + 1))) of
             (Some bb, Some k) \<Rightarrow>
               (case fill_metadata \<lparr>f_bytes = k, start_offset = 0, stripped_size = 0, f_entry = 0, f_name = replicate 16 0\<rparr> of
                  None \<Rightarrow> Inr (1, None)
                | Some kern \<Rightarrow>
                    case open_users fs (drop (arg_start + 2) argv) of
                      None \<Rightarrow> Inr (1, None)
                    | Some users \<Rightarrow> rbind (write_image bb kern users) (\<lambda>img. Inr (0, Some img)))
           | _ \<Rightarrow> Inr (1, None))"

section \<open>Facts\<close>

lemma copy_loop_run:
  "copy_loop out f pos rem = (if rem \<le> 0 \<or> pos + nat rem \<le> length f then 0 else - 1, out @ take (nat rem) (drop pos f))"
proof (induction out f pos rem rule: copy_loop.induct)
  case (1 out f pos rem)
  define chunk where "chunk = (if rem < 8192 then rem else 8192)"
  define buf where "buf = take (nat chunk) (drop pos f)"
  have step: "copy_loop out f pos rem = (if rem > 0 then if int (length buf) \<le> 0 then (- 1, out)
      else copy_loop (out @ buf) f (pos + length buf) (rem - int (length buf)) else (0, out))"
    by (subst copy_loop.simps) (simp only: Let_def chunk_def [symmetric] buf_def [symmetric] nat_int)
  show ?case
  proof (cases "rem > 0 \<and> buf \<noteq> []")
    case True
    have c: "0 < chunk" "chunk \<le> rem" using True by (auto simp: chunk_def)
    have le: "length buf \<le> nat rem" using c by (simp add: buf_def)
    have pos: "pos < length f" using True by (auto simp: buf_def)
    have t: "buf @ take (nat rem - length buf) (drop (pos + length buf) f) = take (nat rem) (drop pos f)"
    proof -
      have "take (length (take n xs)) xs = take n xs" for n and xs :: "u8 list" by (simp add: min_def)
      then have "buf = take (length buf) (drop pos f)" by (simp only: buf_def)
      then have "buf @ take (nat rem - length buf) (drop (length buf) (drop pos f)) = take (length buf + (nat rem - length buf)) (drop pos f)"
        by (metis take_add)
      with le show ?thesis by (simp add: add.commute)
    qed
    have n: "nat (rem - int (length buf)) = nat rem - length buf" using le by linarith
    have "copy_loop (out @ buf) f (pos + length buf) (rem - int (length buf)) =
       (if rem - int (length buf) \<le> 0 \<or> pos + length buf + nat (rem - int (length buf)) \<le> length f then 0 else - 1,
        (out @ buf) @ take (nat (rem - int (length buf))) (drop (pos + length buf) f))"
    proof -
      have "\<not> int (length buf) \<le> 0" using True by simp
      from "1.IH" [OF _ chunk_def buf_def refl this] True show ?thesis by (simp only: nat_int)
    qed
    moreover have "(rem - int (length buf) \<le> 0 \<or> pos + length buf + nat (rem - int (length buf)) \<le> length f) \<longleftrightarrow>
        pos + nat rem \<le> length f"
    proof (cases "int (length buf) = rem")
      case True
      then have "length buf = nat rem" by simp
      moreover have "length buf \<le> length f - pos" by (simp add: buf_def)
      ultimately show ?thesis using pos True by simp
    next
      case False
      then have "\<not> rem - int (length buf) \<le> 0" using le c by linarith
      moreover have "pos + length buf + nat (rem - int (length buf)) = pos + nat rem" using n le by linarith
      ultimately show ?thesis by (simp only: simp_thms)
    qed
    ultimately show ?thesis using True step t n by simp
  next
    case False
    then show ?thesis
    proof (cases "rem > 0")
      case True
      then have "buf = []" "0 < nat chunk" using False by (auto simp: chunk_def)
      then have "drop pos f = []" by (auto simp: buf_def)
      then show ?thesis using True step \<open>buf = []\<close> by simp
    qed (simp add: step)
  qed
qed

text \<open>The part of a file that goes into the image, and the sectors it takes there.\<close>

definition blob :: "FileInfo \<Rightarrow> u8 list" where
  "blob u = take (nat (stripped_size u)) (drop (nat (start_offset u)) (f_bytes u))"

definition file_ok :: "FileInfo \<Rightarrow> bool" where
  "file_ok u \<longleftrightarrow> 0 \<le> start_offset u \<and> 0 \<le> stripped_size u \<and> start_offset u + stripped_size u \<le> int (length (f_bytes u))"

definition secs :: "FileInfo \<Rightarrow> nat" where
  "secs u = (length (blob u) + 511) div 512"

definition padded :: "u8 list \<Rightarrow> u8 list" where
  "padded xs = xs @ replicate ((512 - length xs mod 512) mod 512) 0"

lemma blob_length: "file_ok u \<Longrightarrow> int (length (blob u)) = stripped_size u"
  by (auto simp: file_ok_def blob_def)

lemma length_padded: "length (padded xs) = 512 * ((length xs + 511) div 512)"
proof -
  define q r where "q = length xs div 512" and "r = length xs mod 512"
  have n: "length xs = 512 * q + r" "r < 512" by (simp_all add: q_def r_def)
  have "(512 * q + (r + 511)) div 512 = q + (r + 511) div 512" by simp
  moreover have "(r + 511) div 512 = (if r = 0 then 0 else 1)" using n(2) by (auto intro: div_nat_eqI)
  ultimately show ?thesis using n by (simp add: padded_def r_def [symmetric] add.assoc)
qed

lemma sectors_for_blob: "file_ok u \<Longrightarrow> sectors_for (stripped_size u) = of_nat (secs u)"
proof -
  assume u: "file_ok u"
  have "round_up_sector (stripped_size u) sdiv 512 = int (secs u)"
    using blob_length [OF u, symmetric] by (simp add: round_up_sector_def SECTOR_SIZE_def secs_def signed_divide_int_def zdiv_int sgn_if add.commute)
  then show ?thesis by (simp add: sectors_for_def SECTOR_SIZE_def)
qed

lemma copy_pad: "file_ok u \<Longrightarrow>
    pad_to_sector (snd (copy_range out (f_bytes u) (start_offset u) (stripped_size u))) (stripped_size u) = Inr (out @ padded (blob u))"
proof -
  assume u: "file_ok u"
  let ?n = "length (blob u)"
  have c: "snd (copy_range out (f_bytes u) (start_offset u) (stripped_size u)) = out @ blob u"
    using u by (simp add: copy_range_def copy_loop_run file_ok_def blob_def)
  have r: "stripped_size u smod 512 = int (?n mod 512)"
    using blob_length [OF u, symmetric] by (simp add: signed_modulo_int_def signed_divide_int_def sgn_if zmod_int minus_div_mult_eq_mod)
  have "?n mod 512 < 512" by simp
  then show ?thesis unfolding c pad_to_sector_def SECTOR_SIZE_def r
    by (cases "?n mod 512 = 0") (auto simp: Let_def padded_def nat_diff_distrib)
qed

lemma write_users_run:
  "\<forall>u \<in> set us. file_ok u \<Longrightarrow> write_users us img = Inr (img @ concat (map (\<lambda>u. padded (blob u)) us))"
  by (induction us arbitrary: img) (simp_all add: copy_pad)

lemma length_write_at: "pos + length ys \<le> length xs \<Longrightarrow> length (write_at pos ys xs) = length xs"
  by (simp add: write_at_def)

lemma drop_write_at: "pos + length ys \<le> n \<Longrightarrow> pos \<le> length xs \<Longrightarrow> drop n (write_at pos ys xs) = drop n xs"
  by (simp add: write_at_def)

lemma take_write_at: "n \<le> pos \<Longrightarrow> pos \<le> length xs \<Longrightarrow> take n (write_at pos ys xs) = take n xs"
  by (simp add: write_at_def)

lemma nth_write_at: "pos + length ys \<le> length xs \<Longrightarrow>
    write_at pos ys xs ! n = (if n < pos then xs ! n else if n < pos + length ys then ys ! (n - pos) else xs ! n)"
  by (auto simp: write_at_def nth_append)

lemma rd32_bytes: "f ! i = le32_bytes w ! 0 \<Longrightarrow> f ! (i + 1) = le32_bytes w ! 1 \<Longrightarrow> f ! (i + 2) = le32_bytes w ! 2 \<Longrightarrow>
    f ! (i + 3) = le32_bytes w ! 3 \<Longrightarrow> rd32 f i = w"
  unfolding rd32_def by (rule le32_le32_bytes) (simp add: le32_bytes_def)

lemma rd32_write_at: "pos + 4 \<le> length xs \<Longrightarrow> rd32 (write_at pos (le32_bytes w) xs) pos = w"
  by (rule rd32_bytes) (simp_all add: nth_write_at)

lemma rd32_write_other: "pos + length ys \<le> length xs \<Longrightarrow> i + 4 \<le> pos \<or> pos + length ys \<le> i \<Longrightarrow>
    rd32 (write_at pos ys xs) i = rd32 xs i"
  by (auto simp: rd32_def nth_write_at)

text \<open>The directory is 16 slots of 32 bytes.\<close>

definition slot :: "nat \<Rightarrow> u8 list \<Rightarrow> u8 list" where
  "slot n ds = take 32 (drop (32 * n) ds)"

lemma length_name_field [simp]: "length (name_field s) = 16"
  by (simp add: name_field_def)

lemma length_dir_entry [simp]: "length nm = 16 \<Longrightarrow> length (dir_entry nm lba n e) = 32"
  by (simp add: dir_entry_def)

lemma slot_write_at:
  assumes "length e = 32" "length ds = 512" "i < 16" "n < 16"
  shows "slot n (write_at (32 * i) e ds) = (if n = i then e else slot n ds)"
proof -
  consider "n = i" | "n < i" | "i < n" by linarith
  then show ?thesis
  proof cases
    case 1
    then show ?thesis using assms by (simp add: slot_def write_at_def)
  next
    case 2
    then have "32 * n + 32 \<le> 32 * i" by simp
    then show ?thesis using 2 assms by (simp add: slot_def write_at_def take_drop min_def)
  next
    case 3
    then have "32 * i + 32 \<le> 32 * n" by simp
    then show ?thesis using 3 assms by (simp add: slot_def drop_write_at)
  qed
qed

definition user_lba :: "FileInfo list \<Rightarrow> u32 \<Rightarrow> nat \<Rightarrow> u32" where
  "user_lba us lba j = lba + of_nat (sum_list (map secs (take j us)))"

lemma dir_loop_run:
  "length ds = 512 \<Longrightarrow> \<forall>u \<in> set us. file_ok u \<Longrightarrow> length (dir_loop i us lba ds) = 512 \<and>
     (\<forall>n < 16. slot n (dir_loop i us lba ds) =
        (if i \<le> n \<and> n < i + length us
         then dir_entry (name_field (c_string (f_name (us ! (n - i))))) (user_lba us lba (n - i)) (of_nat (secs (us ! (n - i))))
                (of_int (f_entry (us ! (n - i))))
         else slot n ds))"
proof (induction us arbitrary: i lba ds)
  case Nil
  then show ?case by auto
next
  case (Cons u us)
  show ?case
  proof (cases "i < 16")
    case False
    with Cons.prems show ?thesis by simp
  next
    case True
    define e where "e = dir_entry (name_field (c_string (f_name u))) lba (of_nat (secs u)) (of_int (f_entry u))"
    define ds' where "ds' = write_at (32 * i) e ds"
    have e: "length e = 32" by (simp add: e_def)
    have l: "length ds' = 512" using True Cons.prems(1) e by (simp add: ds'_def length_write_at)
    have step: "dir_loop i (u # us) lba ds = dir_loop (Suc i) us (lba + of_nat (secs u)) ds'"
      using True Cons.prems(2) by (simp add: sectors_for_blob ds'_def e_def Let_def)
    have ok: "\<forall>u \<in> set us. file_ok u" using Cons.prems(2) by simp
    note IH = Cons.IH [OF l ok, of "Suc i" "lba + of_nat (secs u)"]
    have "slot n (dir_loop i (u # us) lba ds) =
        (if i \<le> n \<and> n < i + length (u # us)
         then dir_entry (name_field (c_string (f_name ((u # us) ! (n - i))))) (user_lba (u # us) lba (n - i))
           (of_nat (secs ((u # us) ! (n - i)))) (of_int (f_entry ((u # us) ! (n - i))))
         else slot n ds)" if n: "n < 16" for n
    proof -
      have s: "slot n ds' = (if n = i then e else slot n ds)" using slot_write_at [OF e Cons.prems(1) True n] by (simp add: ds'_def)
      consider "n < i" | "n = i" | j where "n = Suc (i + j)" by (metis less_imp_Suc_add linorder_neqE_nat)
      then show ?thesis
      proof cases
        case 1
        then show ?thesis using IH n s by (simp add: step del: dir_loop.simps)
      next
        case 2
        then show ?thesis using IH n s by (simp add: step e_def user_lba_def del: dir_loop.simps)
      next
        case 3
        then show ?thesis using IH n s by (simp add: step user_lba_def add.assoc del: dir_loop.simps)
      qed
    qed
    then show ?thesis using IH by (simp add: step del: dir_loop.simps)
  qed
qed

text \<open>The image before it is patched.\<close>

definition layout :: "u8 list \<Rightarrow> FileInfo \<Rightarrow> FileInfo list \<Rightarrow> u8 list" where
  "layout bb kern us = take 512 bb @ padded (blob kern) @ dir_loop 0 us (2 + of_nat (secs kern)) (replicate 512 0) @
     concat (map (\<lambda>u. padded (blob u)) us)"

lemma write_image_run:
  assumes "file_ok kern" "\<forall>u \<in> set us. file_ok u"
  shows "write_image bb kern us =
    Inr (write_at 503 (le32_bytes (of_int (f_entry kern))) (write_at 6 (le32_bytes (1 + of_nat (secs kern)))
      (write_at 2 (le32_bytes (of_nat (secs kern))) (layout bb kern us))))"
proof -
  have "snd (copy_range [] bb 0 SECTOR_SIZE) = take 512 bb" by (simp add: copy_range_def copy_loop_run SECTOR_SIZE_def)
  then show ?thesis
    using assms by (simp add: write_image_def Let_def sectors_for_blob copy_pad write_users_run layout_def
        OS_SIZE_LOC_def PROG_DIR_LOC_def KERNEL_ENTRY_LOC_def)
qed

lemma length_users: "length (concat (map (\<lambda>u. padded (blob u)) us)) = 512 * sum_list (map secs us)"
  by (induction us) (simp_all add: length_padded secs_def)

lemma users_at: "j < length us \<Longrightarrow>
    take (length (blob (us ! j))) (drop (512 * sum_list (map secs (take j us))) (concat (map (\<lambda>u. padded (blob u)) us))) = blob (us ! j)"
proof (induction us arbitrary: j)
  case (Cons u us)
  show ?case
  proof (cases j)
    case 0
    then show ?thesis by (simp add: padded_def)
  next
    case (Suc i)
    have "length (padded (blob u)) = 512 * secs u" by (simp add: length_padded secs_def)
    with Cons.IH [of i] Cons.prems Suc show ?thesis by simp
  qed
qed simp

definition sector :: "u8 list \<Rightarrow> nat \<Rightarrow> u8 list" where
  "sector img n = take 512 (drop (512 * n) img)"

lemma drop_after: "length xs = n \<Longrightarrow> drop (n + m) (xs @ ys) = drop m ys"
  by simp

lemma layout_parts:
  assumes "512 \<le> length bb" "\<forall>u \<in> set us. file_ok u"
  shows "take (length (blob kern)) (drop 512 (layout bb kern us)) = blob kern"
    "sector (layout bb kern us) (1 + secs kern) = dir_loop 0 us (2 + of_nat (secs kern)) (replicate 512 0)"
    "j < length us \<Longrightarrow> take (length (blob (us ! j)))
       (drop (512 * (2 + secs kern + sum_list (map secs (take j us)))) (layout bb kern us)) = blob (us ! j)"
    "1024 \<le> length (layout bb kern us)" "length (layout bb kern us) = 512 * (2 + secs kern + sum_list (map secs us))"
proof -
  let ?dir = "dir_loop 0 us (2 + of_nat (secs kern)) (replicate 512 0)"
  have d: "length ?dir = 512" using dir_loop_run [of "replicate 512 0" us 0] assms(2) by simp
  have k: "length (padded (blob kern)) = 512 * secs kern" by (simp add: length_padded secs_def)
  have b: "length (take 512 bb) = 512" using assms(1) by simp
  show "take (length (blob kern)) (drop 512 (layout bb kern us)) = blob kern"
    using b by (simp add: layout_def padded_def)
  show "sector (layout bb kern us) (1 + secs kern) = ?dir"
    using b k d by (simp add: sector_def layout_def)
  show "take (length (blob (us ! j))) (drop (512 * (2 + secs kern + sum_list (map secs (take j us)))) (layout bb kern us)) = blob (us ! j)"
    if j: "j < length us"
  proof -
    let ?n = "512 * sum_list (map secs (take j us))"
    have "layout bb kern us = (take 512 bb @ padded (blob kern) @ ?dir) @ concat (map (\<lambda>u. padded (blob u)) us)"
      by (simp add: layout_def)
    moreover have "length (take 512 bb @ padded (blob kern) @ ?dir) = 512 * (2 + secs kern)" using b k d by simp
    ultimately have "drop (512 * (2 + secs kern) + ?n) (layout bb kern us) = drop ?n (concat (map (\<lambda>u. padded (blob u)) us))"
      by (simp only: drop_after)
    with users_at [OF j] show ?thesis by (simp add: distrib_left add.assoc)
  qed
  show "1024 \<le> length (layout bb kern us)" using b d by (simp add: layout_def)
  show "length (layout bb kern us) = 512 * (2 + secs kern + sum_list (map secs us))"
    using b d k by (simp add: layout_def length_users)
qed

text \<open>A directory entry read back.\<close>

lemma dir_entry_fields:
  assumes "length nm = 16"
  shows "take 16 (dir_entry nm lba n e) = nm" "rd32 (dir_entry nm lba n e) 16 = lba"
    "rd32 (dir_entry nm lba n e) 20 = n" "rd32 (dir_entry nm lba n e) 24 = e"
  using assms by (auto simp: dir_entry_def nth_append intro!: rd32_bytes)

text \<open>The segments that the program headers ask to load.\<close>

lemma phdr_loop_covers:
  "phdr_loop f pos k lo hi found = Some (lo', hi', found') \<Longrightarrow> lo' \<le> lo \<and> hi \<le> hi' \<and>
     (\<forall>i < k. \<exists>p. read_phdr f (pos + 32 * i) = Some p \<and>
        (p_type p = PT_LOAD \<longrightarrow> found' \<and> lo' \<le> uint (p_offset p) \<and> uint (p_offset p + p_filesz p) \<le> hi'))"
proof (induction k arbitrary: pos lo hi found)
  case (Suc k)
  then obtain p where p: "read_phdr f pos = Some p" by (auto split: option.splits)
  define lo1 where "lo1 = (if p_type p = PT_LOAD \<and> uint (p_offset p) < lo then uint (p_offset p) else lo)"
  define hi1 where "hi1 = (if p_type p = PT_LOAD \<and> hi < uint (p_offset p + p_filesz p) then uint (p_offset p + p_filesz p) else hi)"
  have "phdr_loop f (pos + 32) k lo1 hi1 (found \<or> p_type p = PT_LOAD) = Some (lo', hi', found')"
    using Suc.prems p by (auto simp: lo1_def hi1_def Let_def split: if_splits)
  note IH = Suc.IH [OF this]
  have found: "phdr_loop f q n a b True = Some (a', b', c) \<Longrightarrow> c" for q n a b a' b' c
    by (induction n arbitrary: q a b) (auto split: option.splits if_splits simp: Let_def)
  have "\<exists>p. read_phdr f (pos + 32 * i) = Some p \<and>
      (p_type p = PT_LOAD \<longrightarrow> found' \<and> lo' \<le> uint (p_offset p) \<and> uint (p_offset p + p_filesz p) \<le> hi')" if "i < Suc k" for i
  proof (cases i)
    case 0
    have "found'" if "p_type p = PT_LOAD"
      using \<open>phdr_loop f (pos + 32) k lo1 hi1 _ = _\<close> found that by auto
    then show ?thesis using 0 p IH by (auto simp: lo1_def hi1_def split: if_splits)
  next
    case (Suc j)
    then show ?thesis using IH that by (simp add: add.assoc)
  qed
  moreover have "lo' \<le> lo" "hi \<le> hi'" using IH by (auto simp: lo1_def hi1_def split: if_splits)
  ultimately show ?case by blast
qed simp

text \<open>The image that is written, read at the places that matter.\<close>

lemma written_image:
  assumes "512 \<le> length bb" "file_ok kern" "\<forall>u \<in> set us. file_ok u" "2 + secs kern + sum_list (map secs us) < 2 ^ 32"
  obtains img where "write_image bb kern us = Inr img" "length img = 512 * (2 + secs kern + sum_list (map secs us))"
    "rd32 img 2 = of_nat (secs kern)" "unat (rd32 img 6) = 1 + secs kern" "rd32 img 503 = of_int (f_entry kern)"
    "take (length (blob kern)) (drop 512 img) = blob kern"
    "sector img (1 + secs kern) = dir_loop 0 us (2 + of_nat (secs kern)) (replicate 512 0)"
    "\<And>j. j < length us \<Longrightarrow> take (length (blob (us ! j))) (drop (512 * (2 + secs kern + sum_list (map secs (take j us)))) img) = blob (us ! j)"
proof -
  define L where "L = layout bb kern us"
  define img where "img = write_at 503 (le32_bytes (of_int (f_entry kern))) (write_at 6 (le32_bytes (1 + of_nat (secs kern)))
      (write_at 2 (le32_bytes (of_nat (secs kern))) L))"
  note parts = layout_parts [OF assms(1,3), where kern = kern, folded L_def]
  have len: "1024 \<le> length L" using parts(4) .
  have run: "write_image bb kern us = Inr img" using write_image_run [OF assms(2,3)] by (simp add: img_def L_def)
  have d: "drop n img = drop n L" if "512 \<le> n" for n
    using that len by (simp add: img_def drop_write_at length_write_at)
  have f: "rd32 img 2 = of_nat (secs kern)" "rd32 img 6 = 1 + of_nat (secs kern)" "rd32 img 503 = of_int (f_entry kern)"
    using len by (simp_all add: img_def rd32_write_at rd32_write_other length_write_at)
  show thesis
  proof (rule that [OF run])
    show "length img = 512 * (2 + secs kern + sum_list (map secs us))" using len parts(5) by (simp add: img_def length_write_at)
    show "unat (rd32 img 6) = 1 + secs kern" unfolding f(2) using assms(4) by (intro unat_eqI) simp_all
    show "take (length (blob kern)) (drop 512 img) = blob kern" using parts(1) d [of 512] by simp
    show "sector img (1 + secs kern) = dir_loop 0 us (2 + of_nat (secs kern)) (replicate 512 0)"
      using parts(2) d [of "512 * (1 + secs kern)"] by (simp add: sector_def)
    show "take (length (blob (us ! j))) (drop (512 * (2 + secs kern + sum_list (map secs (take j us)))) img) = blob (us ! j)"
      if "j < length us" for j using parts(3) [OF that] d [of "512 * (2 + secs kern + sum_list (map secs (take j us)))"] by simp
  qed (use f in simp_all)
qed

text \<open>The directory entry of a program, and that its sector number fits.\<close>

lemma listed_user:
  assumes "\<forall>u \<in> set us. file_ok u" "2 + secs kern + sum_list (map secs us) < 2 ^ 32" "j < min 16 (length us)"
  shows "slot j (dir_loop 0 us (2 + of_nat (secs kern)) (replicate 512 0)) = dir_entry (name_field (c_string (f_name (us ! j))))
      (user_lba us (2 + of_nat (secs kern)) j) (of_nat (secs (us ! j))) (of_int (f_entry (us ! j)))"
    "unat (user_lba us (2 + of_nat (secs kern)) j) = 2 + secs kern + sum_list (map secs (take j us))"
    "unat (of_nat (secs (us ! j)) :: u32) = secs (us ! j)"
    "sum_list (map secs (take j us)) + secs (us ! j) \<le> sum_list (map secs us)"
proof -
  let ?n = "sum_list (map secs (take j us))"
  show "slot j (dir_loop 0 us (2 + of_nat (secs kern)) (replicate 512 0)) = dir_entry (name_field (c_string (f_name (us ! j))))
      (user_lba us (2 + of_nat (secs kern)) j) (of_nat (secs (us ! j))) (of_int (f_entry (us ! j)))"
    using dir_loop_run [of "replicate 512 0" us 0 "2 + of_nat (secs kern)"] assms(1,3) by simp
  have "?n + sum_list (map secs (drop j us)) = sum_list (map secs us)"
    by (metis append_take_drop_id map_append sum_list_append)
  moreover have "drop j us = us ! j # drop (Suc j) us" using assms(3) by (simp add: Cons_nth_drop_Suc)
  ultimately show le: "?n + secs (us ! j) \<le> sum_list (map secs us)" by simp
  show "unat (user_lba us (2 + of_nat (secs kern)) j) = 2 + secs kern + ?n"
    using le assms(2) by (intro unat_eqI) (simp_all add: user_lba_def)
  show "unat (of_nat (secs (us ! j)) :: u32) = secs (us ! j)" using le assms(2) by (intro unat_eqI) simp_all
qed

section \<open>Properties\<close>


definition demo_kernel :: FileInfo where
  "demo_kernel = \<lparr>f_bytes = [9, 1, 2, 3], start_offset = 1, stripped_size = 3, f_entry = 0x8000, f_name = replicate 16 0\<rparr>"

definition demo_user :: FileInfo where
  "demo_user = \<lparr>f_bytes = [7, 8], start_offset = 0, stripped_size = 2, f_entry = 0x08048000, f_name = name_field (ascii ''shell'')\<rparr>"


text \<open>The builder puts the number of the directory sector at bytes 6 to 9 of the boot block, whatever the boot block has
  there. In \<open>boot/bootblock.s\<close> the reserved field ends at byte 5 and byte 6 begins the code that sets up the stack.\<close>

theorem boot_code_overwritten:
  assumes "512 \<le> length bb" "file_ok kern" "\<forall>u \<in> set us. file_ok u" "write_image bb kern us = Inr img"
  shows "take 4 (drop 6 img) = le32_bytes (1 + of_nat (secs kern)) \<and> take 2 img = take 2 bb \<and>
    take 493 (drop 10 img) = take 493 (drop 10 bb)"
proof -
  define L where "L = layout bb kern us"
  have len: "1024 \<le> length L" using layout_parts(4) [OF assms(1,3)] by (simp add: L_def)
  have L: "take 512 L = take 512 bb" using assms(1) by (simp add: L_def layout_def)
  have e: "img = write_at 503 (le32_bytes (of_int (f_entry kern))) (write_at 6 (le32_bytes (1 + of_nat (secs kern)))
      (write_at 2 (le32_bytes (of_nat (secs kern))) L))"
    using write_image_run [OF assms(2,3)] assms(4) by (simp add: L_def)
  have "take 4 (drop 6 img) = drop 6 (take 10 img)" by (simp add: drop_take)
  also have "take 10 img = take 10 (write_at 6 (le32_bytes (1 + of_nat (secs kern))) (write_at 2 (le32_bytes (of_nat (secs kern))) L))"
    using len by (simp add: e take_write_at length_write_at)
  also have "drop 6 (take 10 (write_at 6 (le32_bytes (1 + of_nat (secs kern))) X)) = le32_bytes (1 + of_nat (secs kern))"
    if "6 \<le> length X" for X using that by (simp add: write_at_def)
  finally have a: "take 4 (drop 6 img) = le32_bytes (1 + of_nat (secs kern))" using len by (simp add: length_write_at)
  have b: "take 2 img = take 2 L" using len by (simp add: e take_write_at length_write_at)
  have "take 493 (drop 10 img) = drop 10 (take 503 img)" by (simp add: drop_take)
  also have "\<dots> = take 493 (drop 10 (write_at 6 (le32_bytes (1 + of_nat (secs kern))) (write_at 2 (le32_bytes (of_nat (secs kern))) L)))"
    using len by (simp add: e take_write_at length_write_at drop_take)
  also have "\<dots> = take 493 (drop 10 L)" using len by (simp add: drop_write_at length_write_at)
  also have "\<dots> = drop 10 (take 503 (take 512 L))" by (simp add: drop_take)
  finally have c: "take 493 (drop 10 img) = take 493 (drop 10 bb)" unfolding L by (simp add: drop_take)
  have "take 2 (take 512 L) = take 2 (take 512 bb)" using L by simp
  with a b c show ?thesis by simp
qed


definition demo_elf :: "u8 list" where
  "demo_elf = [127, 69, 76, 70, 1, 1, 0, 0, 0, 0, 0, 0, 0, 0, 0, 0,
     0, 0, 0, 0, 0, 0, 0, 0, 0, 128, 4, 8, 52, 0, 0, 0,
     0, 0, 0, 0, 0, 0, 0, 0, 0, 0, 0, 0, 1, 0, 0, 0,
     0, 0, 0, 0, 1, 0, 0, 0, 84, 0, 0, 0, 0, 0, 0, 0,
     0, 0, 0, 0, 4, 0, 0, 0, 0, 0, 0, 0, 0, 0, 0, 0,
     0, 0, 0, 0, 1, 2, 3, 4]"

definition demo_file :: FileInfo where
  "demo_file = \<lparr>f_bytes = demo_elf, start_offset = 0, stripped_size = 0, f_entry = 0, f_name = replicate 16 0\<rparr>"


end
