(* ===== verification/Loader.thy ===== *)
theory Loader
  imports Threads Ata Image
begin

text \<open>
  The program loader \<open>kernel/loader.cpp\<close>: it reads the sector number of the program directory from the boot block, looks the
  program up, creates a user thread and fills its address space from the disk. The two static buffers are byte arrays of their
  own; the frames are filled in the byte memory of the kernel.
\<close>

section \<open>The state\<close>

record machine =
  krn :: kernel
  dk :: disk
  dio :: io
  sector_buf :: "u8 list"
  dir_buf :: "u8 list"

definition LOADER_SECTOR_SIZE :: u32 where "LOADER_SECTOR_SIZE = 512"
definition LOADER_PROG_DIR_LOC :: nat where "LOADER_PROG_DIR_LOC = 6"
definition PROG_LOAD_BASE :: u32 where "PROG_LOAD_BASE = 0x08048000"
definition SECTORS_PER_PAGE :: u32 where "SECTORS_PER_PAGE = PAGE_SIZE div LOADER_SECTOR_SIZE"

text \<open>The words of a sector and its bytes, in memory order.\<close>

definition sector_bytes :: "u16 list \<Rightarrow> u8 list" where
  "sector_bytes ws = concat (map (\<lambda>w. [ucast w, ucast (drop_bit 8 w)]) ws)"

fun sector_words :: "u8 list \<Rightarrow> u16 list" where
  "sector_words (a # b # bs) = (ucast a OR push_bit 8 (ucast b)) # sector_words bs"
| "sector_words _ = []"

definition load_bytes :: "u32 \<Rightarrow> nat \<Rightarrow> (u32 \<Rightarrow> u8) \<Rightarrow> u8 list" where
  "load_bytes a n m = map (\<lambda>i. m (a + of_nat i)) [0..<n]"

definition store_bytes :: "u32 \<Rightarrow> u8 list \<Rightarrow> (u32 \<Rightarrow> u8) \<Rightarrow> u32 \<Rightarrow> u8" where
  "store_bytes b bs m = (\<lambda>a. if unat (a - b) < length bs then bs ! unat (a - b) else m a)"

text \<open>A sector read into a static buffer, and one read to an address.\<close>

definition read_static :: "u32 \<Rightarrow> u8 list \<Rightarrow> machine \<Rightarrow> (int \<times> u8 list \<times> machine) result" where
  "read_static lba buf m =
     rbind (ata_read_sector lba (sector_words buf) (dk m) (dio m)) (\<lambda>(rc, ws, d). Inr (rc, sector_bytes ws, m\<lparr>dio := d\<rparr>))"

definition read_sector_at :: "u32 \<Rightarrow> u32 \<Rightarrow> machine \<Rightarrow> (int \<times> machine) result" where
  "read_sector_at lba dst m =
     rbind (ata_read_sector lba (sector_words (load_bytes dst 512 (bytes (krn m)))) (dk m) (dio m)) (\<lambda>(rc, ws, d).
       Inr (rc, m\<lparr>dio := d, krn := (krn m)\<lparr>bytes := store_bytes dst (sector_bytes ws) (bytes (krn m))\<rparr>\<rparr>))"

definition say :: "(u32 \<Rightarrow> u8 list) \<Rightarrow> string \<Rightarrow> u32 list \<Rightarrow> machine \<Rightarrow> machine result" where
  "say str fmt args m = rbind (kprintf str (literal fmt) args (con (krn m))) (\<lambda>c. Inr (m\<lparr>krn := (krn m)\<lparr>con := c\<rparr>\<rparr>))"

definition fail_with :: "(u32 \<Rightarrow> u8 list) \<Rightarrow> string \<Rightarrow> u32 list \<Rightarrow> machine \<Rightarrow> (int \<times> machine) result" where
  "fail_with str fmt args m = rbind (say str fmt args m) (\<lambda>m. Inr (- 1, m))"

section \<open>Operations\<close>

definition read_prog_dir_lba :: "machine \<Rightarrow> (u32 \<times> machine) result" where
  "read_prog_dir_lba m =
     rbind (read_static 0 (sector_buf m) m) (\<lambda>(rc, buf, m).
       let m = m\<lparr>sector_buf := buf\<rparr>
       in if rc < 0 then Inr (0, m)
          else rbind (buffer_copy (drop LOADER_PROG_DIR_LOC buf) (replicate 4 0) 4) (\<lambda>lba. Inr (rd32 lba 0, m)))"

text \<open>The copy of the name: at most 15 bytes, then a terminator. The argument counts the bytes left.\<close>

fun copy_name :: "nat \<Rightarrow> u8 list \<Rightarrow> u8 list result" where
  "copy_name 0 name = Inr [0]"
| "copy_name (Suc n) [] = Inl OutOfBounds"
| "copy_name (Suc n) (c # rest) = (if c = 0 then Inr [0] else rbind (copy_name n rest) (\<lambda>kname. Inr (c # kname)))"

text \<open>The search of the directory, from entry \<open>i\<close> on with \<open>n\<close> entries left.\<close>

fun find_entry :: "nat \<Rightarrow> nat \<Rightarrow> u8 list \<Rightarrow> u8 list \<Rightarrow> nat option result" where
  "find_entry 0 i dir name = Inr None"
| "find_entry (Suc n) i dir name =
     (if length dir \<le> 32 * i then Inl OutOfBounds
      else if dir ! (32 * i) = 0 then Inr None
      else rbind (strcmp (drop (32 * i) dir) name) (\<lambda>r. if r = 0 then Inr (Some i) else find_entry n (Suc i) dir name))"

fun load_sectors :: "nat \<Rightarrow> u32 \<Rightarrow> u32 \<Rightarrow> u32 \<Rightarrow> u32 \<Rightarrow> u32 \<Rightarrow> machine \<Rightarrow> (int \<times> machine) result" where
  "load_sectors 0 s page_no lba sectors paddr m = Inr (0, m)"
| "load_sectors (Suc n) s page_no lba sectors paddr m =
     (if sectors \<le> page_no * SECTORS_PER_PAGE + s then Inr (0, m)
      else rbind (read_sector_at (lba + s) (paddr + s * LOADER_SECTOR_SIZE) m) (\<lambda>(rc, m).
             if rc < 0 then fail_with (\<lambda>_. []) ''loader: disk read error at lba %u\<newline>'' [lba + s] m
             else load_sectors n (s + 1) page_no lba sectors paddr m))"

fun load_pages :: "nat \<Rightarrow> u32 \<Rightarrow> u8 list \<Rightarrow> u32 \<Rightarrow> u32 \<Rightarrow> u32 \<Rightarrow> machine \<Rightarrow> (int \<times> machine) result" where
  "load_pages 0 page_no name lba sectors t m = Inr (0, m)"
| "load_pages (Suc n) page_no name lba sectors t m =
     (let (paddr, p) = frame_alloc (pg (krn m));
          m = m\<lparr>krn := (krn m)\<lparr>pg := p\<rparr>\<rparr>
      in if paddr = 0 then fail_with (\<lambda>_. name) ''loader: out of frames loading '%s'\<newline>'' [0] m
         else
           let vaddr = PROG_LOAD_BASE + page_no * PAGE_SIZE;
               pd = page_directory (threads (sch (krn m)) t);
               m = m\<lparr>krn := (krn m)\<lparr>pg := map_page pd vaddr paddr (PAGE_RW OR PAGE_USER) (pg (krn m))\<rparr>\<rparr>
           in rbind (load_sectors (unat SECTORS_PER_PAGE) 0 page_no (lba + page_no * SECTORS_PER_PAGE) sectors paddr m) (\<lambda>(rc, m).
                if rc < 0 then Inr (rc, m) else load_pages n (page_no + 1) name lba sectors t m))"

definition load_found :: "symbols \<Rightarrow> u8 list \<Rightarrow> nat \<Rightarrow> machine \<Rightarrow> (int \<times> machine) result" where
  "load_found syms name i m =
     (let f_lba = rd32 (dir_buf m) (32 * i + 16);
          f_sectors = rd32 (dir_buf m) (32 * i + 20);
          entry_vaddr = rd32 (dir_buf m) (32 * i + 24)
      in rbind (thread_create_user syms entry_vaddr (krn m)) (\<lambda>(t, k).
           let m = m\<lparr>krn := k\<rparr>
           in if t = 0 then fail_with (\<lambda>_. name) ''loader: thread_create failed for '%s'\<newline>'' [0] m
              else
                let total_bytes = f_sectors * LOADER_SECTOR_SIZE;
                    num_pages = (total_bytes + PAGE_SIZE - 1) div PAGE_SIZE
                in rbind (load_pages (unat num_pages) 0 name f_lba f_sectors t m) (\<lambda>(rc, m).
                     if rc < 0 then Inr (rc, m)
                     else rbind (say (\<lambda>_. drop (32 * i) (dir_buf m)) ''loader: loaded '%s' (%u sectors, entry=0x%x)\<newline>''
                            [0, f_sectors, entry_vaddr] m) (\<lambda>m. Inr (0, m)))))"

definition load_program :: "symbols \<Rightarrow> u8 list \<Rightarrow> machine \<Rightarrow> (int \<times> machine) result" where
  "load_program syms name m =
     rbind (copy_name 15 name) (\<lambda>name.
     rbind (read_prog_dir_lba m) (\<lambda>(dir_lba, m).
       if dir_lba = 0 then fail_with (\<lambda>_. []) ''loader: could not read prog_dir_lba from bootblock\<newline>'' [] m
       else rbind (read_static dir_lba (dir_buf m) m) (\<lambda>(rc, buf, m).
         let m = m\<lparr>dir_buf := buf\<rparr>
         in if rc < 0 then fail_with (\<lambda>_. []) ''loader: could not read program directory at lba %u\<newline>'' [dir_lba] m
            else rbind (find_entry 16 0 (dir_buf m) name) (\<lambda>found.
              case found of
                None \<Rightarrow> fail_with (\<lambda>_. name) ''loader: program '%s' not found\<newline>'' [0] m
              | Some i \<Rightarrow> load_found syms name i m))))"

section \<open>Sectors and memory\<close>

lemma length_sector_words: "length (sector_words bs) = length bs div 2"
  by (induction bs rule: sector_words.induct) auto

lemma length_sector_bytes [simp]: "length (sector_bytes ws) = 2 * length ws"
  by (induction ws) (auto simp: sector_bytes_def)

lemma sector_words_bytes: "sector_words (sector_bytes ws) = ws"
proof (induction ws)
  case (Cons w ws)
  have "ucast (ucast w :: u8) OR push_bit 8 (ucast (ucast (drop_bit 8 w) :: u8)) = w"
    by (rule bit_word_eqI) (auto simp: bit_simps)
  with Cons show ?case by (simp add: sector_bytes_def)
qed (simp add: sector_bytes_def)

lemma length_load_bytes [simp]: "length (load_bytes a n m) = n"
  by (simp add: load_bytes_def)

lemma store_bytes_append:
  assumes "length xs + length ys \<le> 2 ^ 32"
  shows "store_bytes (b + of_nat (length xs)) ys (store_bytes b xs m) = store_bytes b (xs @ ys) m"
proof
  fix a
  let ?n = "unat (a - b)" and ?k = "unat (a - (b + of_nat (length xs)))"
  show "store_bytes (b + of_nat (length xs)) ys (store_bytes b xs m) a = store_bytes b (xs @ ys) m a"
  proof (cases "length xs \<le> ?n")
    case True
    have "of_nat (?n - length xs) = a - (b + of_nat (length xs))" using True by simp
    then have "?k = ?n - length xs" using unat_u32_less [of "a - b"] by (intro unat_eqI) auto
    with True show ?thesis by (auto simp: store_bytes_def nth_append)
  next
    case False
    have "of_nat (2 ^ 32 + ?n - length xs) = a - (b + of_nat (length xs))" using assms False by (simp add: of_nat_diff)
    then have "?k = 2 ^ 32 + ?n - length xs" using False assms by (intro unat_eqI) auto
    with False assms show ?thesis by (auto simp: store_bytes_def nth_append)
  qed
qed

lemma store_bytes_nth: "i < length bs \<Longrightarrow> length bs \<le> 2 ^ 32 \<Longrightarrow> store_bytes b bs m (b + of_nat i) = bs ! i"
proof -
  assume i: "i < length bs" "length bs \<le> 2 ^ 32"
  have "unat (of_nat i :: u32) = i" using i by (intro unat_eqI) auto
  with i show ?thesis by (simp add: store_bytes_def)
qed

text \<open>The answers of a drive to a sequence of reads.\<close>

fun serves :: "u16 list \<Rightarrow> u16 list list \<Rightarrow> u16 list \<Rightarrow> bool" where
  "serves as [] r \<longleftrightarrow> as = r"
| "serves as (w # ws) r \<longleftrightarrow> (\<exists>bs s as'. as = bs @ s # w @ as' \<and> (\<forall>b \<in> set bs. waits b \<and> \<not> requests b) \<and> requests s \<and>
     length w = 256 \<and> serves as' ws r)"

lemma serves_append: "serves as (xs @ ys) r \<longleftrightarrow> (\<exists>z. serves as xs z \<and> serves z ys r)"
  by (induction xs arbitrary: as) (simp, simp, blast)

lemma serves_length: "serves as ws r \<Longrightarrow> w \<in> set ws \<Longrightarrow> length w = 256"
  by (induction as ws r rule: serves.induct) auto

lemma read_sector_at_run:
  assumes "addressable (dk m) lba" "serves (answers (dio m)) (w # ws) r"
  shows "\<exists>d. read_sector_at lba dst m =
      Inr (0, m\<lparr>dio := d, krn := (krn m)\<lparr>bytes := store_bytes dst (sector_bytes w) (bytes (krn m))\<rparr>\<rparr>) \<and> serves (answers d) ws r"
proof -
  from assms(2) obtain bs s as' where a: "answers (dio m) = bs @ s # w @ as'" "\<forall>b \<in> set bs. waits b \<and> \<not> requests b" "requests s"
    "length w = 256" "serves as' ws r" by auto
  have "length (sector_words (load_bytes dst 512 (bytes (krn m)))) = 256" by (simp add: length_sector_words)
  from ata_read_answers [OF assms(1) a(1-4) this] a(5) show ?thesis by (auto simp: read_sector_at_def)
qed

lemma read_static_run:
  assumes "addressable (dk m) lba" "serves (answers (dio m)) (w # ws) r" "length buf = 512"
  shows "\<exists>d. read_static lba buf m = Inr (0, sector_bytes w, m\<lparr>dio := d\<rparr>) \<and> serves (answers d) ws r"
proof -
  from assms(2) obtain bs s as' where a: "answers (dio m) = bs @ s # w @ as'" "\<forall>b \<in> set bs. waits b \<and> \<not> requests b" "requests s"
    "length w = 256" "serves as' ws r" by auto
  have "length (sector_words buf) = 256" using assms(3) by (simp add: length_sector_words)
  from ata_read_answers [OF assms(1) a(1-4) this] a(5) show ?thesis by (auto simp: read_static_def)
qed

lemma sectors_per_page [simp]: "SECTORS_PER_PAGE = 8" "LOADER_SECTOR_SIZE = 512"
  by (simp_all add: SECTORS_PER_PAGE_def LOADER_SECTOR_SIZE_def PAGE_SIZE_def)

lemma sectors_in_page: "unat SECTORS_PER_PAGE = 8"
  by simp

lemma load_sectors_run:
  assumes "i + n = 8" "8 * p + 8 < 2 ^ 32" "N < 2 ^ 32" "length ws = min n (N - (8 * p + i))"
    "serves (answers (dio m)) ws r" "\<And>j. j < length ws \<Longrightarrow> addressable (dk m) (lba + of_nat (i + j))"
  shows "\<exists>d. load_sectors n (of_nat i) (of_nat p) lba (of_nat N) paddr m =
      Inr (0, m\<lparr>dio := d, krn := (krn m)\<lparr>bytes := store_bytes (paddr + of_nat (512 * i)) (concat (map sector_bytes ws)) (bytes (krn m))\<rparr>\<rparr>) \<and>
      answers d = r"
  using assms
proof (induction n arbitrary: i m ws)
  case 0
  then show ?case by (auto simp: store_bytes_def intro!: exI [of _ "dio m"])
next
  case (Suc n)
  have u: "unat (of_nat p * 8 + of_nat i :: u32) = 8 * p + i" using Suc.prems(1,2) by (intro unat_eqI) auto
  have uN: "unat (of_nat N :: u32) = N" using Suc.prems(3) by (intro unat_eqI) auto
  show ?case
  proof (cases "N \<le> 8 * p + i")
    case True
    then have "ws = []" using Suc.prems(4) by simp
    with True u uN Suc.prems(5) show ?thesis by (auto simp: store_bytes_def word_le_nat_alt intro!: exI [of _ "dio m"])
  next
    case False
    with Suc.prems(4) obtain w vs where ws: "ws = w # vs" by (cases ws) auto
    from read_sector_at_run [OF Suc.prems(6) [of 0] Suc.prems(5) [unfolded ws], of "paddr + of_nat i * 512"] ws obtain d where
      d: "read_sector_at (lba + of_nat i) (paddr + of_nat i * 512) m = Inr (0, m\<lparr>dio := d, krn := (krn m)\<lparr>bytes :=
        store_bytes (paddr + of_nat i * 512) (sector_bytes w) (bytes (krn m))\<rparr>\<rparr>)" "serves (answers d) vs r" by auto
    let ?m = "m\<lparr>dio := d, krn := (krn m)\<lparr>bytes := store_bytes (paddr + of_nat i * 512) (sector_bytes w) (bytes (krn m))\<rparr>\<rparr>"
    have "Suc i + n = 8" "length vs = min n (N - (8 * p + Suc i))" "serves (answers (dio ?m)) vs r"
      using Suc.prems(1,4) ws False d(2) by auto
    moreover have "addressable (dk ?m) (lba + of_nat (Suc i + j))" if "j < length vs" for j
      using Suc.prems(6) [of "Suc j"] that ws by simp
    ultimately obtain d' where
      d': "load_sectors n (of_nat (Suc i)) (of_nat p) lba (of_nat N) paddr ?m = Inr (0, ?m\<lparr>dio := d', krn := (krn ?m)\<lparr>bytes :=
        store_bytes (paddr + of_nat (512 * Suc i)) (concat (map sector_bytes vs)) (bytes (krn ?m))\<rparr>\<rparr>)" "answers d' = r" using Suc.IH [OF _ Suc.prems(2,3)] by blast
    have lw: "length (sector_bytes w) = 512" using serves_length [OF Suc.prems(5), of w] ws by simp
    have lv: "length (concat (map sector_bytes vs)) = 512 * length vs" 
      using serves_length [OF d(2)] by (induction vs) auto
    have "length vs \<le> 8" using Suc.prems(1,4) ws by simp
    then have "store_bytes (paddr + of_nat (512 * Suc i)) (concat (map sector_bytes vs)) (store_bytes (paddr + of_nat i * 512) (sector_bytes w) (bytes (krn m))) =
       store_bytes (paddr + of_nat (512 * i)) (concat (map sector_bytes ws)) (bytes (krn m))"
      using store_bytes_append [of "sector_bytes w" "concat (map sector_bytes vs)" "paddr + of_nat i * 512" "bytes (krn m)"] lw lv
      by (simp add: ws algebra_simps)
    with d(1) d' False u uN show ?thesis by (auto simp: word_le_nat_alt algebra_simps)
  qed
qed

section \<open>Pages\<close>

text \<open>The pages of a program in user space: 952 of them share the page table of the first.\<close>

definition prog_page :: "nat \<Rightarrow> u32" where
  "prog_page q = PROG_LOAD_BASE + of_nat q * PAGE_SIZE"

definition in_frame :: "nat \<Rightarrow> u32 \<Rightarrow> bool" where
  "in_frame i a \<longleftrightarrow> unat (frame_addr i) \<le> unat a \<and> unat a < unat (frame_addr i) + 4096"

lemma aligned_offset:
  assumes "aligned a" "n < 4096"
  shows "PAGE_ALIGN (a + of_nat n) = a" "(a + of_nat n) AND 0xFFF = of_nat n" "a OR of_nat n = a + of_nat n"
proof -
  have "unat (take_bit 12 (of_nat n :: u32)) = unat (of_nat n :: u32)"
    unfolding unsigned_take_bit_eq using assms(2) by (simp add: take_bit_eq_mod unat_of_nat)
  then have n: "(of_nat n :: u32) AND 0xFFF = of_nat n" by (simp only: mask_FFF take_bit_eq_mask [symmetric] word_unat_eq_iff)
  show o: "a OR of_nat n = a + of_nat n" by (rule aligned_or [OF assms(1) n])
  have "(of_nat n :: u32) AND NOT 0xFFF = 0" by (subst n [symmetric]) (simp add: and.assoc)
  from bits_of_flags(1) [OF assms(1) this] show "PAGE_ALIGN (a + of_nat n) = a" by (simp add: PAGE_ALIGN_def o)
  show "(a + of_nat n) AND 0xFFF = of_nat n"
    using assms(1) n by (simp add: o [symmetric] bit.conj_disj_distrib2 aligned_def)
qed

lemma prog_page_facts:
  assumes "q < 952"
  shows "unat (prog_page q) = 0x08048000 + 4096 * q" "aligned (prog_page q)" "PD_INDEX (prog_page q) = 32"
proof -
  have "of_nat (0x08048000 + 4096 * q) = prog_page q" by (simp add: prog_page_def PROG_LOAD_BASE_def PAGE_SIZE_def)
  then show u: "unat (prog_page q) = 0x08048000 + 4096 * q" using assms by (intro unat_eqI) simp_all
  then show "aligned (prog_page q)" by (simp add: aligned_unat)
  have "unat (PD_INDEX (prog_page q)) = 32" unfolding unat_index u using assms by (intro div_nat_eqI) simp_all
  then show "PD_INDEX (prog_page q) = 32" by (simp add: word_unat_eq_iff)
qed

lemma prog_page_inj: "q < 952 \<Longrightarrow> q' < 952 \<Longrightarrow> prog_page q = prog_page q' \<longleftrightarrow> q = q'"
proof
  assume q: "q < 952" "q' < 952" "prog_page q = prog_page q'"
  then have "0x08048000 + 4096 * q = 0x08048000 + 4096 * q'" using prog_page_facts(1) by metis
  then show "q = q'" by simp
qed simp

lemma in_frame_offset: "i < FRAME_COUNT \<Longrightarrow> n < 4096 \<Longrightarrow> in_frame i (frame_addr i + of_nat n)"
proof -
  assume i: "i < FRAME_COUNT" "n < 4096"
  have "of_nat (0x800000 + 4096 * i + n) = frame_addr i + of_nat n" by (simp add: frame_addr_def paging_consts)
  then have "unat (frame_addr i + of_nat n) = 0x800000 + 4096 * i + n" using i by (intro unat_eqI) (simp_all add: FRAME_COUNT_def)
  with i frame_addr_facts(1) [OF i(1)] show ?thesis by (simp add: in_frame_def)
qed

lemma in_frame_unique: "i < FRAME_COUNT \<Longrightarrow> j < FRAME_COUNT \<Longrightarrow> in_frame i a \<Longrightarrow> in_frame j a \<Longrightarrow> i = j"
  using frame_addr_facts(1) [of i] frame_addr_facts(1) [of j] by (simp add: in_frame_def)

lemma outside_frame:
  assumes "i < FRAME_COUNT" "\<not> in_frame i a" "length bs \<le> 4096"
  shows "store_bytes (frame_addr i) bs m a = m a"
proof -
  note u = frame_addr_facts(1) [OF assms(1)]
  have "4096 \<le> unat (a - frame_addr i)"
  proof (rule ccontr)
    assume c: "\<not> 4096 \<le> unat (a - frame_addr i)"
    have "a = frame_addr i + of_nat (unat (a - frame_addr i))" by simp
    with in_frame_offset [OF assms(1), of "unat (a - frame_addr i)"] c assms(2) show False by simp
  qed
  with assms(3) show ?thesis by (simp add: store_bytes_def)
qed

text \<open>What loading the pages \<open>Q\<close> of the program \<open>P\<close> into the address space \<open>pd\<close> does.\<close>

definition pages_loaded :: "u32 \<Rightarrow> u8 list \<Rightarrow> nat set \<Rightarrow> kernel \<Rightarrow> kernel \<Rightarrow> bool" where
  "pages_loaded pd P Q k k' \<longleftrightarrow>
     k' = k\<lparr>pg := pg k', bytes := bytes k'\<rparr> \<and> paging_inv (pg k') \<and> dirs (pg k') = dirs (pg k) \<and>
     page_dir_storage (pg k') = page_dir_storage (pg k) \<and> (\<forall>i. unat i < 1024 \<longrightarrow> kpde (pg k') i = kpde (pg k) i) \<and>
     frames (pg k) \<subseteq> frames (pg k') \<and>
     (\<forall>pd' \<in> insert (page_dir_storage (pg k)) (dirs (pg k)). \<forall>va. (pd' = pd \<longrightarrow> (\<forall>q \<in> Q. PAGE_ALIGN va \<noteq> prog_page q)) \<longrightarrow>
        translate (pmem (pg k')) pd' va = translate (pmem (pg k)) pd' va) \<and>
     (\<forall>a. (\<forall>i \<in> frames (pg k') - frames (pg k). \<not> in_frame i a) \<longrightarrow> bytes k' a = bytes k a) \<and>
     (\<forall>q \<in> Q. \<exists>i \<in> frames (pg k') - frames (pg k). \<forall>n < 4096.
        translate (pmem (pg k')) pd (prog_page q + of_nat n) = Some (frame_addr i + of_nat n, True) \<and>
        (4096 * q + n < length P \<longrightarrow> bytes k' (frame_addr i + of_nat n) = P ! (4096 * q + n)))"

lemma pages_loadedD:
  assumes "pages_loaded pd P Q k k'"
  shows "k' = k\<lparr>pg := pg k', bytes := bytes k'\<rparr>" "paging_inv (pg k')" "dirs (pg k') = dirs (pg k)"
    "page_dir_storage (pg k') = page_dir_storage (pg k)" "unat x < 1024 \<Longrightarrow> kpde (pg k') x = kpde (pg k) x"
    "frames (pg k) \<subseteq> frames (pg k')"
    "pd' \<in> insert (page_dir_storage (pg k)) (dirs (pg k)) \<Longrightarrow> (pd' = pd \<Longrightarrow> \<forall>q \<in> Q. PAGE_ALIGN va \<noteq> prog_page q) \<Longrightarrow>
       translate (pmem (pg k')) pd' va = translate (pmem (pg k)) pd' va"
    "(\<And>i. i \<in> frames (pg k') - frames (pg k) \<Longrightarrow> \<not> in_frame i a) \<Longrightarrow> bytes k' a = bytes k a"
    "q \<in> Q \<Longrightarrow> \<exists>i \<in> frames (pg k') - frames (pg k). \<forall>n < 4096.
        translate (pmem (pg k')) pd (prog_page q + of_nat n) = Some (frame_addr i + of_nat n, True) \<and>
        (4096 * q + n < length P \<longrightarrow> bytes k' (frame_addr i + of_nat n) = P ! (4096 * q + n))"
  using assms unfolding pages_loaded_def by blast+

lemma frames_bound: "paging_inv s \<Longrightarrow> frames s \<subseteq> {..<FRAME_COUNT}"
  using paging_invD(1) [of s] by (auto simp: sizes_ok_def bits_def FRAME_COUNT_def)

lemma pages_loaded_refl: "paging_inv (pg k) \<Longrightarrow> pages_loaded pd P {} k k"
  by (simp add: pages_loaded_def)

lemma pages_loaded_trans:
  assumes l: "pages_loaded pd P Q k k1" "pages_loaded pd P R k1 k2" and pd: "pd \<in> dirs (pg k)"
    and qr: "Q \<subseteq> {..<952}" "R \<subseteq> {..<952}" "Q \<inter> R = {}"
  shows "pages_loaded pd P (Q \<union> R) k k2"
proof -
  note a = pages_loadedD [OF l(1)] and b = pages_loadedD [OF l(2)]
  note fb = frames_bound [OF a(2)] frames_bound [OF b(2)]
  have same: "bytes k2 (frame_addr i + of_nat n) = bytes k1 (frame_addr i + of_nat n)"
    if "i \<in> frames (pg k1)" "n < 4096" for i n
  proof (rule b(8))
    fix j assume j: "j \<in> frames (pg k2) - frames (pg k1)"
    have "in_frame i (frame_addr i + of_nat n)" using that fb by (auto intro: in_frame_offset)
    with j that fb in_frame_unique [of i j] show "\<not> in_frame j (frame_addr i + of_nat n)" by auto
  qed
  have tr: "translate (pmem (pg k2)) pd (prog_page q + of_nat n) = translate (pmem (pg k1)) pd (prog_page q + of_nat n)"
    if "q \<in> Q" "n < 4096" for q n
  proof (rule b(7))
    show "pd \<in> insert (page_dir_storage (pg k1)) (dirs (pg k1))" using pd a(3) by simp
    show "\<forall>r \<in> R. PAGE_ALIGN (prog_page q + of_nat n) \<noteq> prog_page r"
    proof
      fix r assume "r \<in> R"
      then have "q < 952" "r < 952" "q \<noteq> r" using that(1) qr by auto
      then show "PAGE_ALIGN (prog_page q + of_nat n) \<noteq> prog_page r"
        using aligned_offset(1) [OF prog_page_facts(2) that(2)] prog_page_inj by auto
    qed
  qed
  show ?thesis
    unfolding pages_loaded_def
  proof (intro conjI ballI allI impI, goal_cases)
    case 1
    show ?case by (subst b(1), subst a(1)) simp
  next
    case (7 pd' va)
    have "translate (pmem (pg k2)) pd' va = translate (pmem (pg k1)) pd' va" by (rule b(7)) (use 7 a(3,4) in auto)
    also have "\<dots> = translate (pmem (pg k)) pd' va" by (rule a(7)) (use 7 in auto)
    finally show ?case .
  next
    case (8 x)
    have "bytes k2 x = bytes k1 x" by (rule b(8)) (use 8 a(6) in blast)
    also have "\<dots> = bytes k x" by (rule a(8)) (use 8 b(6) in blast)
    finally show ?case .
  next
    case (9 q)
    show ?case
    proof (cases "q \<in> Q")
      case True
      from a(9) [OF this] obtain i where i: "i \<in> frames (pg k1) - frames (pg k)" "\<And>n. n < 4096 \<Longrightarrow>
          translate (pmem (pg k1)) pd (prog_page q + of_nat n) = Some (frame_addr i + of_nat n, True) \<and>
          (4096 * q + n < length P \<longrightarrow> bytes k1 (frame_addr i + of_nat n) = P ! (4096 * q + n))" by blast
      have "i \<in> frames (pg k2) - frames (pg k)" using i(1) b(6) by blast
      with i tr [OF True] same [of i] show ?thesis by (intro bexI [of _ i]) auto
    next
      case False
      with 9 b(9) [of q] a(6) show ?thesis by blast
    qed
  qed (use a b in auto)
qed

text \<open>One page: a frame, its mapping and its bytes.\<close>

lemma page_step:
  assumes inv: "paging_inv (pg k)" "pd \<in> dirs (pg k)" "\<not> pres (kpde (pg k) 32)"
    and room: "pres (pmem (pg k) (entry pd 32)) \<or> (\<exists>j < MAX_USER_PT. \<not> user_pt_used (pg k) ! j)"
    and q: "q < 952" and f: "frame_alloc (pg k) = (fa, p)" "fa \<noteq> 0" and bs: "bs = take 4096 (drop (4096 * q) P)"
    and k': "k' = k\<lparr>pg := map_page pd (prog_page q) fa (PAGE_RW OR PAGE_USER) p, bytes := store_bytes fa bs (bytes k)\<rparr>"
  shows "pages_loaded pd P {q} k k'" "pres (pmem (pg k') (entry pd 32))"
    "\<exists>i < FRAME_COUNT. i \<notin> frames (pg k) \<and> frames (pg k') = insert i (frames (pg k))"
proof -
  note F = frame_alloc_page [OF inv(1) f]
  note v = prog_page_facts [OF q]
  have pd: "pd \<in> dirs p" using inv(2) F(3) by simp
  have us: "\<not> pres (kpde p (PD_INDEX (prog_page q)))" using inv(3) F(2,4) by (simp add: v(3))
  have rm: "pres (pmem p (entry pd (PD_INDEX (prog_page q)))) \<or> (\<exists>j < MAX_USER_PT. \<not> user_pt_used p ! j)"
    using room F(2,5) by (simp add: v(3))
  have fl: "(PAGE_RW OR PAGE_USER) AND NOT 0xFFF = 0" "(PAGE_RW OR PAGE_USER) AND PAGE_USER \<noteq> 0"
    by (simp_all add: PAGE_RW_def PAGE_USER_def)
  note T = map_page_translate [OF F(1) pd us rm F(6) fl(1)]
    and D = map_page_directories [OF F(1) pd us rm, where paddr = fa and fl = "PAGE_RW OR PAGE_USER", unfolded v(3)]
  have al: "PAGE_ALIGN (prog_page q) = prog_page q" using aligned_offset(1) [OF v(2), of 0] by simp
  from F(9) obtain i where i: "fa = frame_addr i" "i < FRAME_COUNT" "i \<notin> frames (pg k)" "frames p = insert i (frames (pg k))" by blast
  have fr: "frames (pg k') = insert i (frames (pg k))" using i(4) by (simp add: k' map_page_frames)
  show "\<exists>i < FRAME_COUNT. i \<notin> frames (pg k) \<and> frames (pg k') = insert i (frames (pg k))" using i fr by blast
  show "pres (pmem (pg k') (entry pd 32))" using D(3) by (simp add: k')
  have T': "translate (pmem (pg k')) pd' va = (if pd' = pd \<and> PAGE_ALIGN va = prog_page q then Some (fa OR (va AND 0xFFF), True)
      else translate (pmem (pg k)) pd' va)" if "pd' \<in> insert (page_dir_storage (pg k)) (dirs (pg k))" for pd' va
    using T [of pd' va] that F(2,3,4) fl(2) al by (simp add: k')
  show "pages_loaded pd P {q} k k'"
    unfolding pages_loaded_def
  proof (intro conjI ballI allI impI, goal_cases)
    case (7 pd' va)
    then show ?case using T' [of pd' va] by auto
  next
    case (8 a)
    then have "\<not> in_frame i a" using fr i(3) by auto
    from outside_frame [OF i(2) this, of bs] show ?case by (simp add: k' i(1) bs)
  next
    case (9 r)
    have "translate (pmem (pg k')) pd (prog_page q + of_nat n) = Some (frame_addr i + of_nat n, True)" if "n < 4096" for n
      using T' [of pd "prog_page q + of_nat n"] inv(2) aligned_offset [OF v(2) that] aligned_offset(3) [OF F(6) that] i(1) by simp
    moreover have "bytes k' (frame_addr i + of_nat n) = P ! (4096 * q + n)" if "n < 4096" "4096 * q + n < length P" for n
      using store_bytes_nth [of n bs "frame_addr i" "bytes k"] that by (simp add: k' i(1) bs)
    ultimately show ?case using 9 fr i(3) by (intro bexI [of _ i]) auto
  next
    case (5 x)
    then show ?case using D(1) D(2) [of x] F(2,4) by (simp add: k')
  qed (use T [of pd 0] pd D(1) F(2,3,4) fr in \<open>auto simp: k'\<close>)
qed

lemma concat_blocks:
  assumes "\<And>x. x \<in> set xs \<Longrightarrow> length (f x) = 512"
  shows "length (concat (map f xs)) = 512 * length xs" "drop (512 * n) (concat (map f xs)) = concat (map f (drop n xs))"
    "take (512 * n) (concat (map f xs)) = concat (map f (take n xs))"
proof -
  show "length (concat (map f xs)) = 512 * length xs" using assms by (induction xs) auto
  show "drop (512 * n) (concat (map f xs)) = concat (map f (drop n xs))"
    using assms
  proof (induction xs arbitrary: n)
    case (Cons x xs)
    then show ?case by (cases n) auto
  qed simp
  show "take (512 * n) (concat (map f xs)) = concat (map f (take n xs))"
    using assms
  proof (induction xs arbitrary: n)
    case (Cons x xs)
    then show ?case by (cases n) auto
  qed simp
qed

lemma free_frame:
  assumes "paging_inv s" "0 < card ({..<FRAME_COUNT} - frames s)"
  obtains fa p where "frame_alloc s = (fa, p)" "fa \<noteq> 0"
proof -
  obtain fa p where f: "frame_alloc s = (fa, p)" by fastforce
  have "length (frame_bitmap s) = 768" using paging_invD(1) [OF assms(1)] by (simp add: sizes_ok_def)
  then have "fa \<noteq> 0"
  proof (cases rule: frame_alloc_cases)
    case (found i s')
    then show ?thesis using f frame_addr_facts(2) [OF found(2)] by simp
  next
    case full
    then have "{..<FRAME_COUNT} - frames s = {}" by auto
    with assms(2) show ?thesis by (simp only: card.empty)
  qed
  with that f show thesis by blast
qed

lemma load_pages_run:
  assumes "paging_inv (pg (krn m))" "page_directory (threads (sch (krn m)) t) = pd" "pd \<in> dirs (pg (krn m))"
    "\<not> pres (kpde (pg (krn m)) 32)"
    "pres (pmem (pg (krn m)) (entry pd 32)) \<or> (\<exists>j < MAX_USER_PT. \<not> user_pt_used (pg (krn m)) ! j)"
    "q + n = (length sectors + 7) div 8" "q + n \<le> 952" "n \<le> card ({..<FRAME_COUNT} - frames (pg (krn m)))"
    "serves (answers (dio m)) (drop (8 * q) sectors) r" "\<And>s. s \<in> set sectors \<Longrightarrow> length s = 256"
    "\<And>j. j < length sectors \<Longrightarrow> addressable (dk m) (lba + of_nat j)"
  shows "\<exists>d k'. load_pages n (of_nat q) name lba (of_nat (length sectors)) t m = Inr (0, m\<lparr>dio := d, krn := k'\<rparr>) \<and> answers d = r \<and>
    pages_loaded pd (concat (map sector_bytes sectors)) {q..<q + n} (krn m) k'"
  using assms
proof (induction n arbitrary: q m)
  case 0
  then have "drop (8 * q) sectors = []" by simp
  with "0.prems"(9) have "answers (dio m) = r" by simp
  with "0.prems"(1) show ?case by (intro exI [of _ "dio m"] exI [of _ "krn m"]) (simp add: pages_loaded_refl)
next
  case (Suc n)
  let ?k = "krn m" and ?P = "concat (map sector_bytes sectors)" and ?N = "length sectors"
  have q: "q < 952" using Suc.prems(7) by simp
  have N: "?N \<le> 7616" "8 * q < ?N" using Suc.prems(6,7) by linarith+
  obtain fa p where f: "frame_alloc (pg ?k) = (fa, p)" "fa \<noteq> 0" using Suc.prems(1,8) by (elim free_frame) simp
  define ws where "ws = take 8 (drop (8 * q) sectors)"
  have blk: "length (sector_bytes x) = 512" if "x \<in> set sectors" for x using Suc.prems(10) [OF that] by simp
  have bs: "concat (map sector_bytes ws) = take 4096 (drop (4096 * q) ?P)"
  proof -
    have "take (512 * 8) (drop (512 * (8 * q)) ?P) = concat (map sector_bytes ws)"
      unfolding ws_def using concat_blocks [of "drop (8 * q) sectors" sector_bytes] concat_blocks [of sectors sector_bytes] blk
      by (metis in_set_dropD)
    then show ?thesis by simp
  qed
  define k1 where "k1 = ?k\<lparr>pg := map_page pd (prog_page q) fa (PAGE_RW OR PAGE_USER) p, bytes := store_bytes fa (concat (map sector_bytes ws)) (bytes ?k)\<rparr>"
  note st = page_step [OF Suc.prems(1,3,4,5) q f bs k1_def]
  have "drop 8 (drop (8 * q) sectors) = drop (8 * Suc q) sectors" by simp
  then have "drop (8 * q) sectors = ws @ drop (8 * Suc q) sectors" unfolding ws_def by (metis append_take_drop_id)
  with Suc.prems(9) serves_append [of "answers (dio m)" ws "drop (8 * Suc q) sectors" r]
  obtain z where z: "serves (answers (dio m)) ws z" "serves z (drop (8 * Suc q) sectors) r" by metis
  let ?m = "m\<lparr>krn := ?k\<lparr>pg := map_page pd (prog_page q) fa (PAGE_RW OR PAGE_USER) p\<rparr>\<rparr>"
  have lw: "length ws = min 8 (?N - (8 * q + 0))" by (simp add: ws_def)
  have ad: "addressable (dk ?m) (lba + of_nat q * 8 + of_nat (0 + j))" if "j < length ws" for j
  proof -
    have "8 * q + j < ?N" using that lw by linarith
    from Suc.prems(11) [OF this] show ?thesis by (simp add: algebra_simps)
  qed
  obtain d where d: "load_sectors 8 0 (of_nat q) (lba + of_nat q * 8) (of_nat ?N) fa ?m =
      Inr (0, m\<lparr>dio := d, krn := k1\<rparr>)" "answers d = z"
    using load_sectors_run [of 0 8 q ?N ws ?m z, OF _ _ _ lw _ ad] z(1) N q by (auto simp: k1_def)
  let ?m1 = "m\<lparr>dio := d, krn := k1\<rparr>"
  note l = pages_loadedD [OF st(1)]
  from st(3) obtain i where i: "i < FRAME_COUNT" "i \<notin> frames (pg ?k)" "frames (pg k1) = insert i (frames (pg ?k))" by blast
  have ins: "{..<FRAME_COUNT} - frames (pg ?k) = insert i ({..<FRAME_COUNT} - frames (pg k1))" using i by auto
  have ni: "i \<notin> {..<FRAME_COUNT} - frames (pg k1)" "finite ({..<FRAME_COUNT} - frames (pg k1))" using i(3) by blast+
  have room: "n \<le> card ({..<FRAME_COUNT} - frames (pg k1))"
    using Suc.prems(8) unfolding ins card_insert_disjoint [OF ni(2,1)] by simp
  have th: "threads (sch k1) t = threads (sch ?k) t" by (simp add: k1_def)
  have J: "paging_inv (pg (krn ?m1))" "page_directory (threads (sch (krn ?m1)) t) = pd" "pd \<in> dirs (pg (krn ?m1))"
    "\<not> pres (kpde (pg (krn ?m1)) 32)"
    "pres (pmem (pg (krn ?m1)) (entry pd 32)) \<or> (\<exists>j < MAX_USER_PT. \<not> user_pt_used (pg (krn ?m1)) ! j)"
    "Suc q + n = (?N + 7) div 8" "Suc q + n \<le> 952" "n \<le> card ({..<FRAME_COUNT} - frames (pg (krn ?m1)))"
    "serves (answers (dio ?m1)) (drop (8 * Suc q) sectors) r" "\<And>s. s \<in> set sectors \<Longrightarrow> length s = 256"
    "\<And>j. j < ?N \<Longrightarrow> addressable (dk ?m1) (lba + of_nat j)"
    using l(2,3) l(4) l(5) [of 32] st(2) Suc.prems(2,3,4,6,7,10,11) room z(2) d(2) th by simp_all
  obtain d' k' where r: "load_pages n (of_nat (Suc q)) name lba (of_nat ?N) t ?m1 = Inr (0, ?m1\<lparr>dio := d', krn := k'\<rparr>)" "answers d' = r"
      "pages_loaded pd ?P {Suc q..<Suc q + n} k1 k'"
    using Suc.IH [of ?m1 "Suc q", OF J] by auto
  have "pages_loaded pd ?P ({q} \<union> {Suc q..<Suc q + n}) ?k k'"
    by (rule pages_loaded_trans [OF st(1) r(3) Suc.prems(3)]) (use Suc.prems(7) in auto)
  moreover have "{q} \<union> {Suc q..<Suc q + n} = {q..<q + Suc n}" by auto
  moreover have "load_pages (Suc n) (of_nat q) name lba (of_nat ?N) t m = Inr (0, m\<lparr>dio := d', krn := k'\<rparr>)"
    unfolding load_pages.simps sectors_in_page using f d(1) r(1) Suc.prems(2) by (simp add: prog_page_def [symmetric] add.commute)
  ultimately show ?case using r(2) by metis
qed

section \<open>The directory\<close>

lemma copy_name_run: "0 \<in> set name \<Longrightarrow> copy_name n name = Inr (take n (c_string name) @ [0])"
  by (induction n name rule: copy_name.induct) (auto simp: c_string_def)

lemma c_string_prefix: "c_string (take n (c_string s) @ 0 # ys) = take n (c_string s)"
proof -
  have "x \<noteq> 0" if "x \<in> set (take n (c_string s))" for x
    using in_set_takeD [OF that] set_takeWhileD [of x "\<lambda>c. c \<noteq> 0" s] by (simp add: c_string_def)
  from takeWhile_append2 [of "take n (c_string s)" "\<lambda>c. c \<noteq> 0" "0 # ys", OF this] show ?thesis unfolding c_string_def [of "_ @ _"] by simp
qed

definition entry_name :: "u8 list \<Rightarrow> nat \<Rightarrow> u8 list" where
  "entry_name dir e = c_string (drop (32 * e) dir)"

text \<open>Entry \<open>j\<close> is the first one of that name, and no entry up to it is unused or without an end of its name.\<close>

definition first_entry :: "u8 list \<Rightarrow> u8 list \<Rightarrow> nat \<Rightarrow> bool" where
  "first_entry dir name j \<longleftrightarrow> j < 16 \<and> (\<forall>e \<le> j. 32 * e < length dir \<and> dir ! (32 * e) \<noteq> 0 \<and> 0 \<in> set (drop (32 * e) dir)) \<and>
     (\<forall>e < j. entry_name dir e \<noteq> name) \<and> entry_name dir j = name"

lemma find_entry_run:
  assumes "first_entry dir (c_string name) j" "0 \<in> set name" "i \<le> j" "i + n = 16"
  shows "find_entry n i dir name = Inr (Some j)"
  using assms(3,4)
proof (induction n arbitrary: i)
  case 0
  with assms(1) show ?case by (simp add: first_entry_def)
next
  case (Suc n)
  have e: "32 * i < length dir" "dir ! (32 * i) \<noteq> 0" "0 \<in> set (drop (32 * i) dir)" using assms(1) Suc.prems(1) by (auto simp: first_entry_def)
  from strcmp_total [OF e(3) assms(2)] obtain r where r: "strcmp (drop (32 * i) dir) name = Inr r" by blast
  have m: "r = 0 \<longleftrightarrow> entry_name dir i = c_string name" using strcmp_eq_0 [OF r] by (simp add: entry_name_def)
  show ?case
  proof (cases "i = j")
    case True
    with assms(1) m r e show ?thesis by (simp add: first_entry_def)
  next
    case False
    with Suc.prems have "Suc i \<le> j" "Suc i + n = 16" by simp_all
    moreover have "r \<noteq> 0" using False assms(1) m Suc.prems(1) by (simp add: first_entry_def)
    ultimately show ?thesis using r e Suc.IH [of "Suc i"] by simp
  qed
qed

section \<open>Loading a program\<close>

text \<open>What the kernel and the disk must have for a program of \<open>n\<close> sectors.\<close>

definition can_load :: "kernel \<Rightarrow> nat \<Rightarrow> bool" where
  "can_load k n \<longleftrightarrow> can_start_user (pg k) \<and> n \<le> 7616 \<and> (n + 7) div 8 < card ({..<FRAME_COUNT} - frames (pg k)) \<and>
     (\<exists>i < MAX_USER_PT. \<exists>j < MAX_USER_PT. i \<noteq> j \<and> \<not> user_pt_used (pg k) ! i \<and> \<not> user_pt_used (pg k) ! j) \<and> \<not> pres (kpde (pg k) 32)"

definition on_disk :: "(u32 \<Rightarrow> u16 list) \<Rightarrow> u8 list \<Rightarrow> u32 \<Rightarrow> nat \<Rightarrow> u32 \<Rightarrow> machine \<Rightarrow> bool" where
  "on_disk held name lba n e m \<longleftrightarrow>
     (let dir_lba = rd32 (sector_bytes (held 0)) 6; dir = sector_bytes (held dir_lba)
      in length (sector_buf m) = 512 \<and> length (dir_buf m) = 512 \<and> dir_lba \<noteq> 0 \<and>
         (\<exists>j. first_entry dir name j \<and> rd32 dir (32 * j + 16) = lba \<and> rd32 dir (32 * j + 20) = of_nat n \<and> rd32 dir (32 * j + 24) = e) \<and>
         addressable (dk m) 0 \<and> addressable (dk m) dir_lba \<and> (\<forall>i < n. addressable (dk m) (lba + of_nat i)) \<and>
         (\<exists>r. serves (answers (dio m)) (held 0 # held dir_lba # map (\<lambda>i. held (lba + of_nat i)) [0..<n]) r))"

definition program :: "(u32 \<Rightarrow> u16 list) \<Rightarrow> u32 \<Rightarrow> nat \<Rightarrow> u8 list" where
  "program held lba n = concat (map (\<lambda>i. sector_bytes (held (lba + of_nat i))) [0..<n])"

lemma num_pages:
  assumes "n \<le> 7616"
  shows "unat ((of_nat n * LOADER_SECTOR_SIZE + PAGE_SIZE - 1) div PAGE_SIZE) = (n + 7) div 8"
proof -
  have "of_nat (512 * n + 4095) = of_nat n * LOADER_SECTOR_SIZE + PAGE_SIZE - (1 :: u32)" by (simp add: PAGE_SIZE_def)
  then have "unat (of_nat n * LOADER_SECTOR_SIZE + PAGE_SIZE - (1 :: u32)) = 512 * n + 4095"
    by (rule unat_eqI [OF sym]) (use assms in simp)
  then have "unat ((of_nat n * LOADER_SECTOR_SIZE + PAGE_SIZE - 1) div PAGE_SIZE) = (512 * n + 4095) div 4096"
    by (simp add: unat_div PAGE_SIZE_def)
  also have "\<dots> = (512 * (n + 7) + 511) div 512 div 8" by (simp flip: div_mult2_eq)
  also have "(512 * (n + 7) + 511) div 512 = n + 7" by simp
  finally show ?thesis .
qed

lemma read_prog_dir_lba_run:
  assumes "addressable (dk m) 0" "serves (answers (dio m)) (w # ws) r" "length (sector_buf m) = 512"
  shows "\<exists>d. read_prog_dir_lba m = Inr (rd32 (sector_bytes w) 6, m\<lparr>dio := d, sector_buf := sector_bytes w\<rparr>) \<and> serves (answers d) ws r"
proof -
  from read_static_run [OF assms] obtain d where
    d: "read_static 0 (sector_buf m) m = Inr (0, sector_bytes w, m\<lparr>dio := d\<rparr>)" "serves (answers d) ws r" by blast
  have l: "length (sector_bytes w) = 512" using assms(2) by auto
  have c: "buffer_copy (drop 6 (sector_bytes w)) (replicate 4 0) 4 = Inr (take 4 (drop 6 (sector_bytes w)))"
    using buffer_copy_take [of 4 "drop 6 (sector_bytes w)" "replicate 4 0"] l by simp
  have "rd32 (take 4 (drop 6 (sector_bytes w))) 0 = rd32 (sector_bytes w) 6" using l by (simp add: rd32_def)
  with d c show ?thesis by (intro exI [of _ d]) (simp add: read_prog_dir_lba_def LOADER_PROG_DIR_LOC_def)
qed

text \<open>The program at its addresses, from its pages.\<close>

lemma pages_loaded_program:
  assumes "pages_loaded pd P {0..<n} k k'" "a < length P" "length P \<le> 4096 * n"
  shows "\<exists>pa. translate (pmem (pg k')) pd (0x08048000 + of_nat a) = Some (pa, True) \<and> bytes k' pa = P ! a"
proof -
  have q: "a div 4096 \<in> {0..<n}" using assms(2,3) by auto
  have a: "4096 * (a div 4096) + a mod 4096 = a" by simp
  have "prog_page (a div 4096) + of_nat (a mod 4096) = (0x08048000 + of_nat (4096 * (a div 4096) + a mod 4096) :: u32)"
    by (simp only: prog_page_def PROG_LOAD_BASE_def PAGE_SIZE_def of_nat_add of_nat_mult) simp
  then have v: "prog_page (a div 4096) + of_nat (a mod 4096) = (0x08048000 + of_nat a :: u32)" unfolding a .
  from pages_loadedD(9) [OF assms(1) q] obtain i where
    "\<forall>n < 4096. translate (pmem (pg k')) pd (prog_page (a div 4096) + of_nat n) = Some (frame_addr i + of_nat n, True) \<and>
      (4096 * (a div 4096) + n < length P \<longrightarrow> bytes k' (frame_addr i + of_nat n) = P ! (4096 * (a div 4096) + n))" by blast
  from this [rule_format, of "a mod 4096"] assms(2) show ?thesis unfolding v a by auto
qed

lemma program_loaded_run:
  assumes sched: "sched_inv (sch (krn m)) (c # rs) bs"
      "\<forall>x \<in> set (c # rs) \<union> (\<Union>q. set (bs q)). placed (kpool (sch (krn m))) (kheap (sch (krn m))) x"
      "heap_gives (kpool (sch (krn m))) (kheap (sch (krn m))) t b h2"
      "id_inv (tid_allocator (krn m))" "id_room (tid_allocator (krn m))"
    and load: "can_load (krn m) n" and disk: "on_disk held (take 15 (c_string name)) lba n e m" and name: "0 \<in> set name"
  obtains m' str pd k1 where "load_program syms name m =
      rbind (say str ''loader: loaded '%s' (%u sectors, entry=0x%x)\<newline>'' [0, of_nat n, e] m') (\<lambda>m. Inr (0, m))"
    "thread_create_user syms e (krn m) = Inr (t, k1)" "page_directory (threads (sch k1) t) = pd"
    "pages_loaded pd (program held lba n) {0..<(n + 7) div 8} k1 (krn m')" "length (program held lba n) = 512 * n"
proof -
  define dl where "dl = rd32 (sector_bytes (held 0)) 6"
  define dir where "dir = sector_bytes (held dl)"
  let ?ss = "map (\<lambda>i. held (lba + of_nat i)) [0..<n]" and ?kn = "take 15 (c_string name) @ [0]"
  from disk obtain j r where D: "length (sector_buf m) = 512" "length (dir_buf m) = 512" "dl \<noteq> 0"
      "first_entry dir (take 15 (c_string name)) j" "rd32 dir (32 * j + 16) = lba" "rd32 dir (32 * j + 20) = of_nat n"
      "rd32 dir (32 * j + 24) = e" "addressable (dk m) 0" "addressable (dk m) dl" "\<And>i. i < n \<Longrightarrow> addressable (dk m) (lba + of_nat i)"
      "serves (answers (dio m)) (held 0 # held dl # ?ss) r"
    unfolding on_disk_def Let_def dl_def dir_def by blast
  from read_prog_dir_lba_run [OF D(8,11,1)] obtain d1 where
    r1: "read_prog_dir_lba m = Inr (dl, m\<lparr>dio := d1, sector_buf := sector_bytes (held 0)\<rparr>)" "serves (answers d1) (held dl # ?ss) r"
    by (auto simp: dl_def)
  let ?m1 = "m\<lparr>dio := d1, sector_buf := sector_bytes (held 0)\<rparr>"
  obtain d2 where r2: "read_static dl (dir_buf ?m1) ?m1 = Inr (0, dir, ?m1\<lparr>dio := d2\<rparr>)" "serves (answers d2) ?ss r"
    using read_static_run [of ?m1 dl "held dl" ?ss r "dir_buf ?m1"] D(2,9) r1(2) by (auto simp: dir_def)
  let ?m2 = "?m1\<lparr>dio := d2, dir_buf := dir\<rparr>"
  have "c_string ?kn = take 15 (c_string name)"
    by (rule c_string_prefix)
  then have fe: "find_entry 16 0 dir ?kn = Inr (Some j)" using find_entry_run [of dir ?kn j 0 16] D(4) by simp
  have lp: "load_program syms name m = load_found syms ?kn j ?m2"
    using copy_name_run [OF name, of 15] r1(1) r2(1) D(3) fe by (simp add: load_program_def)
  from load have L: "can_start_user (pg (krn m))" "n \<le> 7616" "(n + 7) div 8 < card ({..<FRAME_COUNT} - frames (pg (krn m)))"
    "\<not> pres (kpde (pg (krn m)) 32)" by (simp_all add: can_load_def)
  note start = sched L(1)
  have "\<exists>m' k1. load_program syms name m =
      rbind (say (\<lambda>_. drop (32 * j) dir) ''loader: loaded '%s' (%u sectors, entry=0x%x)\<newline>'' [0, of_nat n, e] m') (\<lambda>m. Inr (0, m)) \<and>
    thread_create_user syms e (krn m) = Inr (t, k1) \<and>
    pages_loaded (page_directory (threads (sch k1) t)) (program held lba n) {0..<(n + 7) div 8} k1 (krn m')"
  proof (rule user_thread_created [OF start, of syms e], goal_cases)
    case (1 k1 pd pa)
    let ?m3 = "?m2\<lparr>krn := k1\<rparr>"
    have fr: "(n + 7) div 8 \<le> card ({..<FRAME_COUNT} - frames (pg k1))"
    proof -
      from 1(12) obtain i where i: "i < FRAME_COUNT" "i \<notin> frames (pg (krn m))" "frames (pg k1) = insert i (frames (pg (krn m)))" by blast
      have ins: "{..<FRAME_COUNT} - frames (pg (krn m)) = insert i ({..<FRAME_COUNT} - frames (pg k1))" using i by auto
      have ni: "i \<notin> {..<FRAME_COUNT} - frames (pg k1)" "finite ({..<FRAME_COUNT} - frames (pg k1))" using i(3) by blast+
      show ?thesis using L(3) unfolding ins card_insert_disjoint [OF ni(2,1)] by simp
    qed
    have tb: "\<exists>j < MAX_USER_PT. \<not> user_pt_used (pg k1) ! j"
    proof -
      from load obtain i j where ij: "i < MAX_USER_PT" "j < MAX_USER_PT" "i \<noteq> j" "\<not> user_pt_used (pg (krn m)) ! i"
        "\<not> user_pt_used (pg (krn m)) ! j" by (auto simp: can_load_def)
      from 1(18) obtain l where l: "user_pt_used (pg k1) \<in> {user_pt_used (pg (krn m)), (user_pt_used (pg (krn m)))[l := True]}" by blast
      show ?thesis
      proof (cases "l = i")
        case True
        with l ij show ?thesis by (intro exI [of _ j]) auto
      next
        case False
        with l ij show ?thesis by (intro exI [of _ i]) auto
      qed
    qed
    have k32: "\<not> pres (kpde (pg k1) 32)" using 1(11) [of 32] L(4) by simp
    have len: "length s = 256" if "s \<in> set ?ss" for s using serves_length [OF r2(2) that] .
    have n952: "(n + 7) div 8 \<le> 952" using L(2) by simp
    obtain d3 k' where p: "load_pages ((n + 7) div 8) (of_nat 0) ?kn lba (of_nat (length ?ss)) t ?m3 = Inr (0, ?m3\<lparr>dio := d3, krn := k'\<rparr>)"
        "pages_loaded pd (concat (map sector_bytes ?ss)) {0..<0 + (n + 7) div 8} k1 k'"
      using load_pages_run [of ?m3 t pd 0 "(n + 7) div 8" ?ss r lba ?kn] 1(3,5,7) k32 tb fr n952 r2(2) len D(10) by auto
    have t: "t \<noteq> 0" using heap_gives_facts(5) [OF sched(3)] .
    have "concat (map sector_bytes ?ss) = program held lba n" by (simp add: program_def comp_def)
    then have P: "pages_loaded (page_directory (threads (sch k1) t)) (program held lba n) {0..<(n + 7) div 8} k1 k'"
      using p(2) 1(3) by simp
    have "load_found syms ?kn j ?m2 = rbind (say (\<lambda>_. drop (32 * j) dir) ''loader: loaded '%s' (%u sectors, entry=0x%x)\<newline>''
        [0, of_nat n, e] (?m3\<lparr>dio := d3, krn := k'\<rparr>)) (\<lambda>m. Inr (0, m))"
      using 1(1) t p(1) num_pages [OF L(2)] D(5-7) by (simp add: load_found_def Let_def)
    with lp 1(1) P show ?case by (intro exI [of _ "?m3\<lparr>dio := d3, krn := k'\<rparr>"] exI [of _ k1]) simp
  qed
  moreover have "length (program held lba n) = 512 * n"
    using concat_blocks(1) [of ?ss sector_bytes] serves_length [OF r2(2)] by (simp add: program_def comp_def)
  ultimately show thesis using that by blast
qed

text \<open>
  A program \<open>P\<close> has been started as thread \<open>t\<close>: it lies byte for byte from 0x08048000 on in an address space of its own, open to
  ring 3; no other address space has changed; and a processor switched to the thread begins at \<open>e\<close> in ring 3.
\<close>

definition started :: "symbols \<Rightarrow> u8 list \<Rightarrow> u32 \<Rightarrow> u32 \<Rightarrow> kernel \<Rightarrow> kernel \<Rightarrow> bool" where
  "started syms P e t k k' \<longleftrightarrow>
     page_directory (threads (sch k') t) \<notin> dirs (pg k) \<and>
     (\<forall>a < length P. \<exists>pa. translate (pmem (pg k')) (page_directory (threads (sch k') t)) (0x08048000 + of_nat a) = Some (pa, True) \<and>
        bytes k' pa = P ! a) \<and>
     (\<forall>pd' \<in> insert (page_dir_storage (pg k)) (dirs (pg k)). translate (pmem (pg k')) pd' = translate (pmem (pg k)) pd') \<and>
     (\<forall>cpu. mem cpu = words k' \<and> esp cpu = sp (kernel_stack (threads (sch k') t)) \<longrightarrow>
        eip (restore_context cpu) = uthread_trampoline_sym syms \<and>
        (let d = uthread_trampoline (restore_context cpu) in eip d = e \<and> cs d = 0x1B \<and> flags d = 0x202 \<and> esp d = 0xBFFFFFF8))"

lemma dirs_not_kernel: "paging_inv s \<Longrightarrow> pd \<in> dirs s \<Longrightarrow> pd \<noteq> page_dir_storage s"
  using tbl_dirs(5) [OF paging_invD(1)] by (auto simp: dirs_def)

lemma started_prefix: "started syms P e t k k' \<Longrightarrow> P' = take n P \<Longrightarrow> started syms P' e t k k'"
  unfolding started_def by simp

lemma program_started:
  assumes sched: "sched_inv (sch (krn m)) (c # rs) bs"
      "\<forall>x \<in> set (c # rs) \<union> (\<Union>q. set (bs q)). placed (kpool (sch (krn m))) (kheap (sch (krn m))) x"
      "heap_gives (kpool (sch (krn m))) (kheap (sch (krn m))) t b h2"
      "id_inv (tid_allocator (krn m))" "id_room (tid_allocator (krn m))"
    and load: "can_load (krn m) n" and disk: "on_disk held (take 15 (c_string name)) lba n e m" and name: "0 \<in> set name"
  shows "\<exists>m' str. load_program syms name m =
      rbind (say str ''loader: loaded '%s' (%u sectors, entry=0x%x)\<newline>'' [0, of_nat n, e] m') (\<lambda>m. Inr (0, m)) \<and>
    sched_inv (sch (krn m')) (c # rs @ [t]) bs \<and> started syms (program held lba n) e t (krn m) (krn m')"
proof (rule program_loaded_run [OF assms, of syms], goal_cases)
  case (1 m' str pd k1)
  have u: "can_start_user (pg (krn m))" using load by (simp add: can_load_def)
  note l = pages_loadedD [OF 1(4)]
  have k: "sch (krn m') = sch k1" "words (krn m') = words k1" by (subst l(1), simp)+
  show ?case
  proof (rule user_thread_created [OF sched u, of syms e], goal_cases)
    case (1 k' pd' pa)
    with \<open>thread_create_user syms e (krn m) = Inr (t, k1)\<close> have e: "k' = k1" by simp
    have pd: "pd' = pd" using 1(3) \<open>page_directory (threads (sch k1) t) = pd\<close> e by simp
    have run: "eip (restore_context cpu) = uthread_trampoline_sym syms \<and>
        (let d = uthread_trampoline (restore_context cpu) in eip d = e \<and> cs d = 0x1B \<and> flags d = 0x202 \<and> esp d = 0xBFFFFFF8)"
      if "mem cpu = words (krn m') \<and> esp cpu = sp (kernel_stack (threads (sch (krn m')) t))" for cpu
      using user_dispatch [of cpu syms e] that 1(14) by (simp add: Let_def k e)
    have bytes: "\<exists>pa. translate (pmem (pg (krn m'))) pd (0x08048000 + of_nat a) = Some (pa, True) \<and> bytes (krn m') pa = program held lba n ! a"
      if "a < length (program held lba n)" for a
      by (rule pages_loaded_program [OF \<open>pages_loaded pd _ _ k1 (krn m')\<close> that]) (use \<open>length (program held lba n) = 512 * n\<close> in simp)
    have other: "translate (pmem (pg (krn m'))) x = translate (pmem (pg (krn m))) x"
      if "x \<in> insert (page_dir_storage (pg (krn m))) (dirs (pg (krn m)))" for x
    proof
      fix va
      have ne: "x \<noteq> pd" using that 1(6,7,8) dirs_not_kernel [OF 1(5), of pd] pd by auto
      have "translate (pmem (pg (krn m'))) x va = translate (pmem (pg k1)) x va"
        by (rule l(7)) (use that ne 1(7,8) e in auto)
      also have "\<dots> = translate (pmem (pg (krn m))) x va" using 1(10) [OF that] e by simp
      finally show "translate (pmem (pg (krn m'))) x va = translate (pmem (pg (krn m))) x va" .
    qed
    have "started syms (program held lba n) e t (krn m) (krn m')"
      unfolding started_def using run bytes other 1(6) pd \<open>page_directory (threads (sch k1) t) = pd\<close> by (auto simp: k)
    then show ?case using \<open>load_program syms name m = _\<close> 1(2) e k(1) by (intro exI [of _ m'] exI [of _ str]) simp
  qed
qed

section \<open>Programs of a built image\<close>

text \<open>A disk that holds the image that the builder wrote.\<close>

definition holds_image :: "(u32 \<Rightarrow> u16 list) \<Rightarrow> u8 list \<Rightarrow> bool" where
  "holds_image held img \<longleftrightarrow> (\<forall>i. 512 * i < length img \<longrightarrow> sector_bytes (held (of_nat i)) = sector img i)"

definition program_lba :: "FileInfo \<Rightarrow> FileInfo list \<Rightarrow> nat \<Rightarrow> nat" where
  "program_lba kern us j = 2 + secs kern + sum_list (map secs (take j us))"

lemma concat_sectors: "concat (map (\<lambda>i. take 512 (drop (512 * (l + i)) xs)) [0..<n]) = take (512 * n) (drop (512 * l) xs)"
proof (induction n)
  case (Suc n)
  have "take (512 * n + 512) (drop (512 * l) xs) = take (512 * n) (drop (512 * l) xs) @ take 512 (drop (512 * n) (drop (512 * l) xs))"
    by (rule take_add)
  with Suc show ?case by (simp add: algebra_simps)
qed simp

lemma slot_drop: "length dir = 512 \<Longrightarrow> e < 16 \<Longrightarrow> drop (32 * e) dir = slot e dir @ drop (32 * e + 32) dir"
  unfolding slot_def by (metis append_take_drop_id drop_drop add.commute)

lemma rd32_slot: "length dir = 512 \<Longrightarrow> e < 16 \<Longrightarrow> i + 4 \<le> 32 \<Longrightarrow> rd32 dir (32 * e + i) = rd32 (slot e dir) i"
  by (simp add: rd32_def slot_def add.assoc)

lemma named_entry:
  assumes "length dir = 512" "e < 16" "slot e dir = dir_entry (name_field (c_string f)) lba n x" "c_string f \<noteq> []"
  shows "dir ! (32 * e) \<noteq> 0" "0 \<in> set (drop (32 * e) dir)" "entry_name dir e = take 15 (c_string f)"
proof -
  have nf: "name_field (c_string f) = take 15 (c_string f) @ 0 # replicate (15 - length (take 15 (c_string f))) 0"
    by (simp add: name_field_def Suc_diff_le flip: replicate_Suc)
  obtain ys where d: "drop (32 * e) dir = take 15 (c_string f) @ 0 # ys"
    using slot_drop [OF assms(1,2)] assms(3) by (simp add: dir_entry_def nf)
  then show "0 \<in> set (drop (32 * e) dir)" by simp
  show "entry_name dir e = take 15 (c_string f)" unfolding entry_name_def d by (rule c_string_prefix)
  have "dir ! (32 * e) = drop (32 * e) dir ! 0" using assms(1,2) by simp
  also have "\<dots> = c_string f ! 0" using assms(4) by (simp add: d nth_append)
  finally show "dir ! (32 * e) \<noteq> 0" using set_takeWhileD [of "c_string f ! 0" "\<lambda>c. c \<noteq> 0" f] assms(4) by (simp add: c_string_def)
qed

lemma image_on_disk:
  assumes image: "512 \<le> length bb" "file_ok kern" "\<forall>u \<in> set us. file_ok u" "2 + secs kern + sum_list (map secs us) < 2 ^ 32"
      "write_image bb kern us = Inr img"
    and disk: "holds_image held img" "\<forall>i. 512 * i < length img \<longrightarrow> addressable (dk m) (of_nat i)"
      "\<exists>r. serves (answers (dio m)) (held 0 # held (of_nat (1 + secs kern)) #
         map (\<lambda>i. held (of_nat (program_lba kern us j + i))) [0..<secs (us ! j)]) r"
    and bufs: "length (sector_buf m) = 512" "length (dir_buf m) = 512"
    and name: "j < min 16 (length us)" "\<forall>i \<le> j. c_string (f_name (us ! i)) \<noteq> []"
      "\<forall>i < j. take 15 (c_string (f_name (us ! i))) \<noteq> nm" "take 15 (c_string (f_name (us ! j))) = nm"
  shows "on_disk held nm (of_nat (program_lba kern us j)) (secs (us ! j)) (of_int (f_entry (us ! j))) m \<and>
    take (length (blob (us ! j))) (program held (of_nat (program_lba kern us j)) (secs (us ! j))) = blob (us ! j)"
proof (rule written_image [OF image(1-4)], goal_cases)
  case (1 im)
  with image(5) have im: "im = img" by simp
  note I = 1(2,4,7,8) [unfolded im]
  let ?dir = "dir_loop 0 us (2 + of_nat (secs kern)) (replicate 512 0)" and ?n = "secs (us ! j)" and ?l = "program_lba kern us j"
  note U = listed_user [OF image(3,4)]
  have ld: "length ?dir = 512" using dir_loop_run [of "replicate 512 0" us 0] image(3) by simp
  have inside: "512 * (?l + i) < length img" if "i < ?n" for i using U(4) [OF name(1)] I(1) that by (simp add: program_lba_def)
  have H: "sector_bytes (held (of_nat i)) = sector img i" if "512 * i < length img" for i using disk(1) that by (simp add: holds_image_def)
  have H0: "sector_bytes (held 0) = sector img 0" using H [of 0] I(1) by simp
  have dl: "rd32 (sector_bytes (held 0)) 6 = of_nat (1 + secs kern)"
  proof -
    have "rd32 (sector_bytes (held 0)) 6 = rd32 img 6" unfolding H0 using I(1) by (simp add: sector_def rd32_def)
    also have "\<dots> = of_nat (unat (rd32 img 6))" by simp
    finally show ?thesis unfolding I(2) .
  qed
  have dirb: "sector_bytes (held (of_nat (1 + secs kern))) = ?dir" using H [of "1 + secs kern"] I(1,3) by simp
  have ent: "first_entry ?dir nm j"
    unfolding first_entry_def
  proof (intro conjI allI impI, goal_cases)
    case 1
    then show ?case using name(1) by simp
  next
    case (2 e)
    then show ?case using name(1) by (simp add: ld)
  next
    case (3 e)
    then show ?case using named_entry(1) [OF ld _ U(1)] name by simp
  next
    case (4 e)
    then show ?case using named_entry(2) [OF ld _ U(1)] name by simp
  next
    case (5 e)
    then show ?case using named_entry(3) [OF ld _ U(1), of e] name by simp
  next
    case 6
    then show ?case using named_entry(3) [OF ld _ U(1), of j] name by simp
  qed
  have nz: "(of_nat (1 + secs kern) :: u32) \<noteq> 0"
  proof -
    have "unat (of_nat (1 + secs kern) :: u32) = 1 + secs kern" using image(4) by (intro unat_eqI) simp_all
    then show ?thesis by auto
  qed
  have lba: "user_lba us (2 + of_nat (secs kern)) j = of_nat ?l" by (simp add: user_lba_def program_lba_def)
  have j16: "j < 16" using name(1) by simp
  note fields = rd32_slot [OF ld j16] U(1) [OF name(1)] dir_entry_fields [OF length_name_field]
  have "on_disk held nm (of_nat ?l) ?n (of_int (f_entry (us ! j))) m"
    unfolding on_disk_def dl Let_def dirb
  proof (intro conjI exI [of _ j])
    show "rd32 ?dir (32 * j + 16) = of_nat ?l" "rd32 ?dir (32 * j + 20) = of_nat ?n" "rd32 ?dir (32 * j + 24) = of_int (f_entry (us ! j))"
      using fields lba by simp_all
    show "addressable (dk m) 0" "addressable (dk m) (of_nat (1 + secs kern))" using disk(2) [rule_format, of 0] disk(2) [rule_format, of "1 + secs kern"] I(1) by simp_all
    show "\<forall>i < ?n. addressable (dk m) (of_nat ?l + of_nat i)" using disk(2) [rule_format, OF inside] by simp
    show "\<exists>r. serves (answers (dio m)) (held 0 # held (of_nat (1 + secs kern)) # map (\<lambda>i. held (of_nat ?l + of_nat i)) [0..<?n]) r"
      using disk(3) by simp
  qed (use bufs nz ent in simp_all)
  moreover have "program held (of_nat ?l) ?n = concat (map (\<lambda>i. sector img (?l + i)) [0..<?n])"
    unfolding program_def using H [OF inside] by (intro arg_cong [of _ _ concat] map_cong) auto
  then have "program held (of_nat ?l) ?n = take (512 * ?n) (drop (512 * ?l) img)" unfolding sector_def concat_sectors .
  moreover have "length (blob (us ! j)) \<le> 512 * ?n" unfolding secs_def by simp
  ultimately show ?case using I(4) [of j] name(1) by (simp add: program_lba_def min_absorb1)
qed

section \<open>Properties\<close>

text \<open>A machine whose disk holds an image with a kernel of one sector and one program.\<close>

lemma sector_bytes_words: "even (length bs) \<Longrightarrow> sector_bytes (sector_words bs) = bs"
proof (induction bs rule: sector_words.induct)
  case (1 a b bs)
  have "ucast (ucast a OR push_bit 8 (ucast b) :: u16) = a" "ucast (drop_bit 8 (ucast a OR push_bit 8 (ucast b) :: u16)) = b"
    by (rule bit_word_eqI; auto simp: bit_simps dest: bit_imp_le_length)+
  with 1 show ?case by (simp add: sector_bytes_def)
qed (simp_all add: sector_bytes_def)

definition demo_held :: "u8 list \<Rightarrow> u32 \<Rightarrow> u16 list" where
  "demo_held img i = sector_words (sector img (unat i))"

definition demo_machine :: "heap \<Rightarrow> u8 list \<Rightarrow> machine" where
  "demo_machine h img =
     \<lparr>krn = boot_kernel h, dk = demo_disk,
      dio = \<lparr>answers = concat (map (\<lambda>i. 0x58 # sector_words (sector img i)) [0, 2, 3]), trace = []\<rparr>,
      sector_buf = replicate 512 0, dir_buf = replicate 512 0\<rparr>"

lemma demo_files: "file_ok demo_kernel" "file_ok demo_user" "secs demo_kernel = 1" "secs demo_user = 1" "blob demo_user = [7, 8]"
    "c_string (f_name demo_user) = ascii ''shell''" "c_string (literal ''shell'') = ascii ''shell''" "of_int (f_entry demo_user) = (0x08048000 :: u32)"
  by (simp_all add: file_ok_def demo_kernel_def demo_user_def secs_def blob_def name_field_def ascii_def literal_def c_string_def)

lemma demo_image:
  assumes "length img = 2048"
  shows "holds_image (demo_held img) img" "\<forall>i. 512 * i < length img \<longrightarrow> addressable (dk (demo_machine h img)) (of_nat i)"
    "serves (answers (dio (demo_machine h img))) (demo_held img 0 # demo_held img (of_nat (1 + secs demo_kernel)) #
       map (\<lambda>i. demo_held img (of_nat (program_lba demo_kernel [demo_user] 0 + i))) [0..<secs ([demo_user] ! 0)]) []"
proof -
  have u: "unat (of_nat i :: u32) = i" if "512 * i < length img" for i using that assms by (intro unat_eqI) simp_all
  have l: "length (sector img i) = 512" if "i < 4" for i using that assms by (simp add: sector_def)
  show "holds_image (demo_held img) img"
    unfolding holds_image_def demo_held_def
  proof (intro allI impI)
    fix i assume i: "512 * i < length img"
    then have "i < 4" using assms by simp
    from l [OF this] show "sector_bytes (sector_words (sector img (unat (of_nat i :: u32)))) = sector img i"
      unfolding u [OF i] by (intro sector_bytes_words) simp
  qed
  show "\<forall>i. 512 * i < length img \<longrightarrow> addressable (dk (demo_machine h img)) (of_nat i)"
    using u assms by (simp add: addressable_def demo_machine_def demo_disk_def word_less_nat_alt)
  have r: "requests 0x58" by (simp add: requests_def waits_def ata_consts)
  have w: "length (sector_words (sector img i)) = 256" if "i < 4" for i using l [OF that] by (simp add: length_sector_words)
  have one: "serves (0x58 # sector_words (sector img i) @ as) (sector_words (sector img i) # ws) z" if "i < 4" "serves as ws z" for i as ws z
    unfolding serves.simps by (rule exI [of _ "[]"], rule exI [of _ "0x58"], rule exI [of _ as]) (use that r w [OF that(1)] in simp)
  have "serves (0x58 # sector_words (sector img 0) @ 0x58 # sector_words (sector img 2) @ 0x58 # sector_words (sector img 3) @ [])
      [sector_words (sector img 0), sector_words (sector img 2), sector_words (sector img 3)] []"
    by (intro one) simp_all
  then show "serves (answers (dio (demo_machine h img))) (demo_held img 0 # demo_held img (of_nat (1 + secs demo_kernel)) #
       map (\<lambda>i. demo_held img (of_nat (program_lba demo_kernel [demo_user] 0 + i))) [0..<secs ([demo_user] ! 0)]) []"
    by (simp add: demo_machine_def demo_held_def program_lba_def demo_files(3,4))
qed

lemma demo_can_load: "can_load (krn (demo_machine h img)) 1"
proof -
  have "frames demo_paging = {}" by (simp add: demo_paging_def demo_boot_def)
  then have "(1 + 7) div 8 < card ({..<FRAME_COUNT} - frames demo_paging)" by (simp add: FRAME_COUNT_def)
  moreover have "\<exists>i < MAX_USER_PT. \<exists>j < MAX_USER_PT. i \<noteq> j \<and> \<not> user_pt_used demo_paging ! i \<and> \<not> user_pt_used demo_paging ! j"
    by (rule exI [of _ 0], simp add: demo_paging_def demo_boot_def MAX_USER_PT_def, rule exI [of _ 1]) simp
  moreover have "\<not> pres (kpde demo_paging 32)" by (simp add: demo_paging_def demo_boot_def)
  ultimately show ?thesis using boot_kernel_pages [of h] by (simp add: can_load_def demo_machine_def boot_kernel_def)
qed

lemma demo_written: "\<exists>img. write_image (replicate 512 0x90) demo_kernel [demo_user] = Inr img \<and> length img = 2048"
  using written_image [of "replicate 512 0x90" demo_kernel "[demo_user]"] demo_files(1-4) by fastforce

lemma demo_on_disk:
  assumes "write_image (replicate 512 0x90) demo_kernel [demo_user] = Inr img" "length img = 2048"
  shows "on_disk (demo_held img) (ascii ''shell'') (of_nat (program_lba demo_kernel [demo_user] 0)) (secs demo_user)
      (of_int (f_entry demo_user)) (demo_machine h img) \<and>
    take (length (blob demo_user)) (program (demo_held img) (of_nat (program_lba demo_kernel [demo_user] 0)) (secs demo_user)) = blob demo_user"
proof -
  have u: "[demo_user] ! 0 = demo_user" by simp
  have s: "\<exists>r. serves (answers (dio (demo_machine h img))) (demo_held img 0 # demo_held img (of_nat (1 + secs demo_kernel)) #
       map (\<lambda>i. demo_held img (of_nat (program_lba demo_kernel [demo_user] 0 + i))) [0..<secs ([demo_user] ! 0)]) r"
    by (rule exI [of _ "[]"]) (rule demo_image(3) [OF assms(2)])
  show ?thesis
    by (rule image_on_disk [OF _ demo_files(1) _ _ assms(1) demo_image(1) [OF assms(2)] demo_image(2) [OF assms(2), of h]
        s, unfolded u])
      (use demo_files in \<open>simp_all add: demo_machine_def ascii_def\<close>)
qed

text \<open>The kernel that \<open>boot_kernel\<close> describes, with a heap that has the memory for a thread.\<close>

lemma demo_ready:
  obtains h t b h2 where "create_memory_cluster_pool 0x130000 0x4000 small_heap = Inr (0, h)"
    "sched_inv (sch (krn (demo_machine h img))) [0x1000] (\<lambda>_. [])"
    "\<forall>x \<in> set [0x1000] \<union> (\<Union>q :: nat. set []). placed (kpool (sch (krn (demo_machine h img)))) (kheap (sch (krn (demo_machine h img)))) x"
    "heap_gives (kpool (sch (krn (demo_machine h img)))) (kheap (sch (krn (demo_machine h img)))) t b h2"
    "id_inv (tid_allocator (krn (demo_machine h img)))" "id_room (tid_allocator (krn (demo_machine h img)))"
proof -
  from small_heap_gives obtain h t b h2 where h: "create_memory_cluster_pool 0x130000 0x4000 small_heap = Inr (0, h)"
    "heap_gives 0 h t b h2" "cp_start (hp_pools h 0) = 0x130000" by blast
  have p: "placed 0 h 0x1000" using h(3) by (simp add: placed_def)
  have k: "krn (demo_machine h img) = boot_kernel h" by (simp add: demo_machine_def)
  have k': "kheap (sch (boot_kernel h)) = h" "kpool (sch (boot_kernel h)) = 0" "tid_allocator (boot_kernel h) = demo_ids"
    by (simp_all add: boot_kernel_def)
  show thesis by (rule that [of h t b h2]) (use h p boot_kernel_inv demo_ids_ok in \<open>simp_all add: k k'\<close>)
qed



end
